(* ===== verification/LB_Prelude.thy ===== *)
theory LB_Prelude
  imports Main "HOL-Library.Word"
begin

text \<open>
  Shared vocabulary of the development: the machine integer types of the C++ sources, the
  exceptions the sources throw, the two result types that carry them, the interface of a
  printer with its parser, and the lemmas on lists and words that several components use.

  Two result types are used. A function of the source that only computes a value and may
  throw returns \<open>'a res\<close>, a sum with the exception on the left. A function that also
  changes state returns \<open>'s out\<close>, which carries the state in both cases: the writes
  that were done before a C++ \<open>throw\<close> stay done, and other threads see them.
\<close>

section \<open>Machine integers\<close>

type_synonym u16 = "16 word"  \<comment> \<open>\<open>std::uint16_t\<close>\<close>
type_synonym u32 = "32 word"  \<comment> \<open>\<open>std::uint32_t\<close>\<close>
type_synonym u64 = "64 word"  \<comment> \<open>\<open>std::uint64_t\<close>, \<open>std::size_t\<close>, \<open>unsigned long\<close>\<close>

lemma unat_u64_less [simp]: "unat (x :: u64) < 18446744073709551616"
  using unsigned_less [of x] by simp

lemma unat_u32_less [simp]: "unat (x :: u32) < 4294967296"
  using unsigned_less [of x] by simp

lemma unat_of_nat_u64: "n < 18446744073709551616 \<Longrightarrow> unat (of_nat n :: u64) = n"
  by (simp add: unat_of_nat take_bit_nat_eq_self)

lemma unat_plus_1_u64:
  "unat (x + 1 :: u64) = (if unat x = 18446744073709551615 then 0 else Suc (unat x))"
proof (cases "unat x = 18446744073709551615")
  case True
  then show ?thesis by (simp add: unat_word_ariths)
next
  case False
  moreover have "unat x < 18446744073709551616" by simp
  ultimately have "Suc (unat x) < 18446744073709551616" by linarith
  with False show ?thesis by (simp add: unat_word_ariths)
qed

lemma unat_max_u64: "unat (- 1 :: u64) = 18446744073709551615"
  by (simp add: unsigned_minus_1_eq_mask mask_eq_exp_minus_1)

section \<open>Exceptions and results\<close>

datatype exn =
    InvalidArgument string  \<comment> \<open>\<open>std::invalid_argument\<close>\<close>
  | OutOfRange string       \<comment> \<open>\<open>std::out_of_range\<close>\<close>
  | RuntimeError string     \<comment> \<open>\<open>std::runtime_error\<close>\<close>

type_synonym 'a res = "exn + 'a"

definition bind_res :: "'a res \<Rightarrow> ('a \<Rightarrow> 'b res) \<Rightarrow> 'b res" where
  "bind_res r f = (case r of Inl e \<Rightarrow> Inl e | Inr x \<Rightarrow> f x)"

lemma bind_res_simps [simp]:
  "bind_res (Inl e) f = Inl e"
  "bind_res (Inr x) f = f x"
  by (simp_all add: bind_res_def)

lemma bind_res_Inr: "bind_res r f = Inr y \<longleftrightarrow> (\<exists>x. r = Inr x \<and> f x = Inr y)"
  by (cases r) auto

lemma bind_res_Inl: "bind_res r f = Inl e \<longleftrightarrow> r = Inl e \<or> (\<exists>x. r = Inr x \<and> f x = Inl e)"
  by (cases r) auto

datatype 's out = Ok 's | Throw exn 's

definition state_of :: "'s out \<Rightarrow> 's" where
  "state_of r = (case r of Ok s \<Rightarrow> s | Throw _ s \<Rightarrow> s)"

definition chain :: "'s out \<Rightarrow> ('s \<Rightarrow> 's out) \<Rightarrow> 's out" where
  "chain r f = (case r of Ok s \<Rightarrow> f s | Throw e s \<Rightarrow> Throw e s)"

definition map_out :: "('s \<Rightarrow> 't) \<Rightarrow> 's out \<Rightarrow> 't out" where
  "map_out f r = (case r of Ok s \<Rightarrow> Ok (f s) | Throw e s \<Rightarrow> Throw e (f s))"

lemma out_simps [simp]:
  "state_of (Ok s) = s"
  "state_of (Throw e s) = s"
  "chain (Ok s) f = f s"
  "chain (Throw e s) f = Throw e s"
  "map_out g (Ok s) = Ok (g s)"
  "map_out g (Throw e s) = Throw e (g s)"
  by (simp_all add: state_of_def chain_def map_out_def)

lemma chain_Ok: "chain r f = Ok t \<longleftrightarrow> (\<exists>s. r = Ok s \<and> f s = Ok t)"
  by (cases r) auto

lemma chain_cong: "r = r' \<Longrightarrow> (\<And>s. r' = Ok s \<Longrightarrow> f s = g s) \<Longrightarrow> chain r f = chain r' g"
  by (cases r') auto

lemma chain_assoc: "chain (chain r f) g = chain r (\<lambda>s. chain (f s) g)"
  by (cases r) auto

section \<open>The interface of a printer with its parser\<close>

text \<open>
  Several components print a value and read it back (policies, endpoints, numbers, escaped
  strings, configuration files). What they promise is the same law; that the printer is
  injective on the valid values follows once, here.
\<close>

locale codec =
  fixes print :: "'a \<Rightarrow> string"
    and parse :: "string \<Rightarrow> 'a res"
    and valid :: "'a \<Rightarrow> bool"
  assumes parse_print: "valid x \<Longrightarrow> parse (print x) = Inr x"
begin

lemma print_inject: "valid x \<Longrightarrow> valid y \<Longrightarrow> print x = print y \<longleftrightarrow> x = y"
  using parse_print by (metis sum.inject(2))

lemma parse_onto: "valid x \<Longrightarrow> \<exists>s. parse s = Inr x"
  using parse_print by blast

end

section \<open>Invariants of transition systems\<close>

text \<open>
  Every state machine of the development (the threads on one atomic counter, the worker's
  event loop, the whole process) is a step relation. An invariant of one step is an invariant
  of every run.
\<close>

locale step_invariant =
  fixes step :: "'s \<Rightarrow> 's \<Rightarrow> bool"
    and Inv :: "'s \<Rightarrow> bool"
  assumes step_keeps: "step s t \<Longrightarrow> Inv s \<Longrightarrow> Inv t"
begin

lemma run_keeps: "step\<^sup>*\<^sup>* s t \<Longrightarrow> Inv s \<Longrightarrow> Inv t"
  by (induction rule: rtranclp_induct) (auto intro: step_keeps)

end

section \<open>Lists\<close>

lemma sum_list_update_nat:
  fixes xs :: "nat list"
  shows "i < length xs \<Longrightarrow> sum_list (xs[i := v]) + xs ! i = sum_list xs + v"
proof (induction xs arbitrary: i)
  case Nil
  then show ?case by simp
next
  case (Cons x xs)
  then show ?case by (cases i) (auto simp: add.commute add.left_commute)
qed

lemma takeWhile_neq_append [simp]: "c \<notin> set xs \<Longrightarrow> takeWhile (\<lambda>x. x \<noteq> c) (xs @ c # ys) = xs"
  by (induction xs) auto

lemma dropWhile_neq_append [simp]: "c \<notin> set xs \<Longrightarrow> dropWhile (\<lambda>x. x \<noteq> c) (xs @ c # ys) = c # ys"
  by (induction xs) auto

lemma dropWhile_id: "xs = [] \<or> \<not> P (hd xs) \<Longrightarrow> dropWhile P xs = xs"
  by (cases xs) auto

end
