(* ===== verification/LB_Prog.thy ===== *)
theory LB_Prog
  imports LB_Prelude
begin

text \<open>
  Code at the granularity of its accesses to shared state. A \<open>prog\<close> is what a thread still has
  to do: it has returned a value, an exception has left it, or it makes one atomic access and goes
  on with what that access found. Other threads may run between any two accesses. This theory has
  the sequencing of programs, their run without interference, their interleaving, and the rule by
  which a property of all threads together follows from one obligation per thread.
\<close>

section \<open>Programs\<close>

text \<open>
  \<open>Access u k\<close> replaces the shared state \<open>s\<close> by \<open>u s\<close> in one step and goes on as
  \<open>k s\<close>: a load, a store, or a read-modify-write that returns the old value.
\<close>

datatype (dead 's, raised: 'e, results: 'a) prog =
    Return 'a
  | Raise 'e
  | Access "'s \<Rightarrow> 's" "'s \<Rightarrow> ('s, 'e, 'a) prog"
  for map: map_prog

primrec bind_prog :: "('s, 'e, 'a) prog \<Rightarrow> ('a \<Rightarrow> ('s, 'e, 'b) prog) \<Rightarrow> ('s, 'e, 'b) prog" where
  "bind_prog (Return a) f = f a"
| "bind_prog (Raise e) f = Raise e"
| "bind_prog (Access u k) f = Access u (\<lambda>s. bind_prog (k s) f)"

text \<open>The single accesses: a load, a store, and the two together.\<close>

definition fetch :: "('s \<Rightarrow> 'v) \<Rightarrow> ('s, 'e, 'v) prog" where
  "fetch f = Access (\<lambda>s. s) (\<lambda>s. Return (f s))"

definition modify :: "('s \<Rightarrow> 's) \<Rightarrow> ('s, 'e, unit) prog" where
  "modify u = Access u (\<lambda>_. Return ())"

definition fetch_modify :: "('s \<Rightarrow> 'v) \<Rightarrow> ('s \<Rightarrow> 's) \<Rightarrow> ('s, 'e, 'v) prog" where
  "fetch_modify f u = Access u (\<lambda>s. Return (f s))"

lemmas access_defs = fetch_def modify_def fetch_modify_def

lemma bind_prog_cong [fundef_cong]:
  "p = q \<Longrightarrow> (\<And>a. a \<in> results q \<Longrightarrow> f a = g a) \<Longrightarrow> bind_prog p f = bind_prog q g"
proof (induction q arbitrary: p)
  case (Access u k)
  have "bind_prog (k s) f = bind_prog (k s) g" for s
    by (rule Access.IH [OF _ refl]) (use Access.prems in auto)
  with Access.prems(1) show ?case by simp
qed simp_all

lemma results_bind: "results (bind_prog p f) = (\<Union>a \<in> results p. results (f a))"
  by (induction p) auto

lemma results_map [simp]: "results (map_prog g h p) = h ` results p"
  by (induction p) auto

lemma results_access [simp]:
  "results (fetch f) = range f" "results (modify u) = {()}" "results (fetch_modify f u) = range f"
  by (auto simp: access_defs)

section \<open>A thread alone\<close>

primrec run :: "('s, 'e, 'a) prog \<Rightarrow> 's \<Rightarrow> ('e + 'a) \<times> 's" where
  "run (Return a) s = (Inr a, s)"
| "run (Raise e) s = (Inl e, s)"
| "run (Access u k) s = run (k s) (u s)"

lemma run_bind:
  "run (bind_prog p f) s = (case run p s of (Inl e, t) \<Rightarrow> (Inl e, t) | (Inr a, t) \<Rightarrow> run (f a) t)"
  by (induction p arbitrary: s) auto

lemma run_map: "run (map_prog g h p) s = map_prod (map_sum g h) (\<lambda>t. t) (run p s)"
  by (induction p arbitrary: s) auto

lemma run_access [simp]:
  "run (fetch f) s = (Inr (f s), s)" "run (modify u) s = (Inr (), u s)"
  "run (fetch_modify f u) s = (Inr (f s), u s)"
  by (simp_all add: access_defs)

lemma run_results: "fst (run p s) = Inr a \<Longrightarrow> a \<in> results p"
proof (induction p arbitrary: s)
  case (Access u k)
  then have "a \<in> results (k s)" by (intro Access.IH [of "k s" "u s"]) simp_all
  then show ?case by auto
qed simp_all

text \<open>What a thread returns when its successive accesses find the states of a list.\<close>

fun watch :: "('s, 'e, 'a) prog \<Rightarrow> 's list \<Rightarrow> ('e + 'a) option" where
  "watch (Return a) _ = Some (Inr a)"
| "watch (Raise e) _ = Some (Inl e)"
| "watch (Access u k) [] = None"
| "watch (Access u k) (s # ss) = watch (k s) ss"

text \<open>The states that the accesses of a thread find when it runs alone.\<close>

primrec own_states :: "('s, 'e, 'a) prog \<Rightarrow> 's \<Rightarrow> 's list" where
  "own_states (Return a) s = []"
| "own_states (Raise e) s = []"
| "own_states (Access u k) s = s # own_states (k s) (u s)"

lemma watch_alone: "watch p (own_states p s) = Some (fst (run p s))"
  by (induction p arbitrary: s) auto

section \<open>Threads that interleave\<close>

text \<open>One of the threads makes its next access.\<close>

inductive turn :: "'s \<times> ('s, 'e, 'a) prog list \<Rightarrow> 's \<times> ('s, 'e, 'a) prog list \<Rightarrow> bool" where
  turn: "t < length ps \<Longrightarrow> ps ! t = Access u k \<Longrightarrow> turn (s, ps) (u s, ps[t := k s])"

inductive_cases turnE: "turn (s, ps) c"

text \<open>A schedule names the thread that makes each access; a thread that has ended is passed over.\<close>

fun schedule :: "nat list \<Rightarrow> 's \<times> ('s, 'e, 'a) prog list \<Rightarrow> 's \<times> ('s, 'e, 'a) prog list" where
  "schedule [] c = c"
| "schedule (t # ts) (s, ps) =
     schedule ts (if t < length ps then
         (case ps ! t of Access u k \<Rightarrow> (u s, ps[t := k s]) | _ \<Rightarrow> (s, ps))
       else (s, ps))"

lemma schedule_turns: "turn\<^sup>*\<^sup>* c (schedule ts c)"
proof (induction ts c rule: schedule.induct)
  case (2 t ts s ps)
  let ?c = "if t < length ps then
      (case ps ! t of Access u k \<Rightarrow> (u s, ps[t := k s]) | _ \<Rightarrow> (s, ps)) else (s, ps)"
  have "turn\<^sup>*\<^sup>* (s, ps) ?c" by (auto intro: turn split: prog.splits)
  with 2 show ?case by (auto intro: rtranclp_trans)
qed simp

section \<open>Shares\<close>

text \<open>
  Each thread holds a share of the shared state, a ghost of type \<open>'h\<close>. Under the assumption
  \<open>may s h\<close> about the states it finds, every access of a thread moves its share in a permitted
  way, and the thread ends with a result and a share that are related by \<open>Q\<close>.
\<close>

primrec obeys :: "('s \<Rightarrow> 'h \<Rightarrow> bool) \<Rightarrow> ('h \<Rightarrow> 'h \<Rightarrow> 's \<Rightarrow> 's \<Rightarrow> bool) \<Rightarrow> ('e + 'a \<Rightarrow> 'h \<Rightarrow> bool) \<Rightarrow>
    ('s, 'e, 'a) prog \<Rightarrow> 'h \<Rightarrow> bool" where
  "obeys may move Q (Return a) = (\<lambda>h. Q (Inr a) h)"
| "obeys may move Q (Raise e) = (\<lambda>h. Q (Inl e) h)"
| "obeys may move Q (Access u k) =
     (\<lambda>h. \<forall>s. may s h \<longrightarrow> (\<exists>h'. move h h' s (u s) \<and> obeys may move Q (k s) h'))"

lemma obeys_mono:
  assumes "obeys may move Q p h" and "\<And>x h. Q x h \<Longrightarrow> R x h"
  shows "obeys may move R p h"
  using assms(1)
proof (induction p arbitrary: h)
  case (Access u k)
  have "obeys may move R (k s) h'" if "obeys may move Q (k s) h'" for s h'
    by (rule Access.IH [OF rangeI that])
  with Access.prems show ?case by fastforce
qed (simp_all add: assms(2))

lemma obeys_move:
  assumes "obeys may move Q p h" and "\<And>h h' s s'. move h h' s s' \<Longrightarrow> step h h' s s'"
  shows "obeys may step Q p h"
  using assms(1)
proof (induction p arbitrary: h)
  case (Access u k)
  have "obeys may step Q (k s) h'" if "obeys may move Q (k s) h'" for s h'
    by (rule Access.IH [OF rangeI that])
  with Access.prems assms(2) show ?case by fastforce
qed simp_all

lemma obeys_results:
  "obeys may move Q p h \<Longrightarrow> obeys may move (\<lambda>x h. Q x h \<and> (\<forall>a. x = Inr a \<longrightarrow> a \<in> results p)) p h"
proof (induction p arbitrary: h)
  case (Access u k)
  show ?case
    unfolding obeys.simps
  proof (intro allI impI)
    fix s
    assume "may s h"
    with Access.prems obtain h' where h': "move h h' s (u s)" "obeys may move Q (k s) h'" by auto
    from Access.IH [OF rangeI h'(2)]
    have "obeys may move (\<lambda>x h. Q x h \<and> (\<forall>a. x = Inr a \<longrightarrow> a \<in> results (Access u k))) (k s) h'"
      by (rule obeys_mono) auto
    with h'(1) show "\<exists>h'. move h h' s (u s) \<and>
        obeys may move (\<lambda>x h. Q x h \<and> (\<forall>a. x = Inr a \<longrightarrow> a \<in> results (Access u k))) (k s) h'" by blast
  qed
qed simp_all

lemma obeys_bind:
  assumes "obeys may move (\<lambda>x h. case x of Inl e \<Rightarrow> Q (Inl e) h | Inr a \<Rightarrow> obeys may move Q (f a) h) p h"
  shows "obeys may move Q (bind_prog p f) h"
  using assms
proof (induction p arbitrary: h)
  case (Access u k)
  have "obeys may move Q (bind_prog (k s) f) h'"
    if "obeys may move (\<lambda>x h. case x of Inl e \<Rightarrow> Q (Inl e) h | Inr a \<Rightarrow> obeys may move Q (f a) h) (k s) h'" for s h'
    by (rule Access.IH [OF rangeI that])
  with Access.prems show ?case by fastforce
qed simp_all

lemma obeys_map:
  "obeys may move Q (map_prog g f p) h = obeys may move (\<lambda>x. Q (map_sum g f x)) p h"
  by (induction p arbitrary: h) auto

text \<open>
  What makes the shares of the threads fit together: \<open>whole s H\<close> says that they make up the
  shared state, and it is kept when one of them moves.
\<close>

locale shares =
  fixes whole :: "'s \<Rightarrow> 'h list \<Rightarrow> bool"
    and may :: "'s \<Rightarrow> 'h \<Rightarrow> bool"
    and move :: "'h \<Rightarrow> 'h \<Rightarrow> 's \<Rightarrow> 's \<Rightarrow> bool"
  assumes whole_may: "whole s H \<Longrightarrow> t < length H \<Longrightarrow> may s (H ! t)"
    and whole_move: "whole s H \<Longrightarrow> t < length H \<Longrightarrow> move (H ! t) h s s' \<Longrightarrow> whole s' (H[t := h])"
begin

text \<open>One access of one thread keeps the obligations of all, each with its own conditions \<open>Q t\<close>.\<close>

lemma access_keeps:
  assumes "whole s H" and "t < length H" and "obeys may move Q (Access u k) (H ! t)"
  shows "\<exists>h. whole (u s) (H[t := h]) \<and> obeys may move Q (k s) h"
proof -
  from assms whole_may obtain h where "move (H ! t) h s (u s)" "obeys may move Q (k s) h" by fastforce
  with whole_move [OF assms(1,2)] show ?thesis by blast
qed

end

end
