(* ===== verification/LB_Text.thy ===== *)
theory LB_Text
  imports LB_Prelude
begin

text \<open>
  The parts of the C++ standard library that the sources use on text: the character classes of
  the C locale, searching in a \<open>std::string\<close>, \<open>std::to_string\<close> of an unsigned
  number, \<open>std::stoul\<close> and \<open>std::getline\<close>. A \<open>std::string\<close> is a
  list of bytes. \<open>unsigned long\<close> has 64 bits, as on the Linux targets of the build.
\<close>

section \<open>Character classes of the C locale\<close>

definition code :: "char \<Rightarrow> nat" where
  "code c = of_char c"

definition isspace :: "char \<Rightarrow> bool" where
  "isspace c \<longleftrightarrow> code c = 32 \<or> (9 \<le> code c \<and> code c \<le> 13)"

definition isdigit :: "char \<Rightarrow> bool" where
  "isdigit c \<longleftrightarrow> 48 \<le> code c \<and> code c \<le> 57"

definition tolower :: "char \<Rightarrow> char" where
  "tolower c = (if 65 \<le> code c \<and> code c \<le> 90 then char_of (code c + 32) else c)"

definition newline :: char where
  "newline = CHR 0x0A"

section \<open>Searching\<close>

text \<open>\<open>std::string::find\<close> and \<open>rfind\<close> of one character; \<open>None\<close> is \<open>npos\<close>.\<close>

definition str_find :: "char \<Rightarrow> string \<Rightarrow> nat option" where
  "str_find c s = (if c \<in> set s then Some (length (takeWhile (\<lambda>x. x \<noteq> c) s)) else None)"

definition str_rfind :: "char \<Rightarrow> string \<Rightarrow> nat option" where
  "str_rfind c s =
     (if c \<in> set s then Some (length s - 1 - length (takeWhile (\<lambda>x. x \<noteq> c) (rev s))) else None)"

lemma str_find_append: "c \<notin> set xs \<Longrightarrow> str_find c (xs @ c # ys) = Some (length xs)"
  by (auto simp: str_find_def)

lemma str_find_None: "str_find c s = None \<longleftrightarrow> c \<notin> set s"
  by (simp add: str_find_def)

lemma str_rfind_append: "c \<notin> set ys \<Longrightarrow> str_rfind c (xs @ c # ys) = Some (length xs)"
  by (auto simp: str_rfind_def)

lemma str_rfind_None: "str_rfind c s = None \<longleftrightarrow> c \<notin> set s"
  by (simp add: str_rfind_def)

lemma str_rfind_Some:
  assumes "str_rfind c s = Some p"
  shows "p < length s \<and> s ! p = c \<and> c \<notin> set (drop (Suc p) s)"
proof -
  from assms have "c \<in> set s" by (auto simp: str_rfind_def split: if_splits)
  then obtain xs ys where s: "s = xs @ c # ys" and c: "c \<notin> set ys"
    by (metis split_list_last)
  from assms s c have "p = length xs" by (simp add: str_rfind_append)
  with s c show ?thesis by simp
qed

section \<open>Decimal numbers\<close>

definition digit_char :: "nat \<Rightarrow> char" where
  "digit_char d = char_of (48 + d)"

definition digit_val :: "char \<Rightarrow> nat" where
  "digit_val c = code c - 48"

text \<open>\<open>std::to_string\<close> and \<open>operator<<\<close> of an unsigned integer.\<close>

fun show_nat :: "nat \<Rightarrow> string" where
  "show_nat n = (if n < 10 then [digit_char n] else show_nat (n div 10) @ [digit_char (n mod 10)])"

declare show_nat.simps [simp del]

definition dec_value :: "string \<Rightarrow> nat" where
  "dec_value s = foldl (\<lambda>acc c. acc * 10 + digit_val c) 0 s"

text \<open>
  \<open>std::stoul\<close> is \<open>strtoul\<close> in base 10: it skips leading white space, takes an
  optional sign, and reads digits up to the first other character, which it ignores with all
  that follows. No digit at all is \<open>invalid_argument\<close>, a magnitude above
  \<open>ULONG_MAX\<close> is \<open>out_of_range\<close>, and a minus sign negates the unsigned value.
\<close>

definition strip_sign :: "string \<Rightarrow> bool \<times> string" where
  "strip_sign s = (case s of [] \<Rightarrow> (False, [])
     | c # cs \<Rightarrow> if c = CHR ''-'' then (True, cs) else if c = CHR ''+'' then (False, cs) else (False, s))"

definition stoul :: "string \<Rightarrow> u64 res" where
  "stoul s =
     (let (neg, t) = strip_sign (dropWhile isspace s);
          ds = takeWhile isdigit t;
          v = dec_value ds
      in if ds = [] then Inl (InvalidArgument ''stoul'')
         else if v \<ge> 2 ^ 64 then Inl (OutOfRange ''stoul'')
         else Inr (if neg then - of_nat v else of_nat v))"

lemma code_digit_char [simp]: "d < 10 \<Longrightarrow> code (digit_char d) = 48 + d"
  by (simp add: code_def digit_char_def)

lemma isdigit_digit_char [simp]: "d < 10 \<Longrightarrow> isdigit (digit_char d)"
  by (simp add: isdigit_def)

lemma digit_val_digit_char [simp]: "d < 10 \<Longrightarrow> digit_val (digit_char d) = d"
  by (simp add: digit_val_def)

lemma isdigit_not_space: "isdigit c \<Longrightarrow> \<not> isspace c"
  by (auto simp: isdigit_def isspace_def)

lemma isdigit_not_sign: "isdigit c \<Longrightarrow> c \<noteq> CHR ''-'' \<and> c \<noteq> CHR ''+'' \<and> c \<noteq> CHR '':''"
  by (auto simp: isdigit_def code_def)

lemma dec_value_snoc: "dec_value (s @ [c]) = dec_value s * 10 + digit_val c"
  by (simp add: dec_value_def)

lemma show_nat_nonempty [simp]: "show_nat n \<noteq> []"
  by (subst show_nat.simps) simp

lemma show_nat_digits: "c \<in> set (show_nat n) \<Longrightarrow> isdigit c"
proof (induction n rule: show_nat.induct)
  case (1 n)
  then show ?case
    by (cases "n < 10") (auto simp: show_nat.simps [of n])
qed

lemma dec_value_show_nat [simp]: "dec_value (show_nat n) = n"
proof (induction n rule: show_nat.induct)
  case (1 n)
  show ?case
  proof (cases "n < 10")
    case True
    then show ?thesis by (simp add: show_nat.simps [of n] dec_value_def)
  next
    case False
    with 1 show ?thesis
      by (simp add: show_nat.simps [of n] dec_value_snoc)
  qed
qed

lemma strip_sign_digits: "s \<noteq> [] \<Longrightarrow> isdigit (hd s) \<Longrightarrow> strip_sign s = (False, s)"
  by (cases s) (auto simp: strip_sign_def dest: isdigit_not_sign)

lemma dropWhile_space_digits: "s \<noteq> [] \<Longrightarrow> isdigit (hd s) \<Longrightarrow> dropWhile isspace s = s"
  by (cases s) (auto dest: isdigit_not_space)

lemma show_nat_hd: "isdigit (hd (show_nat n))"
  by (rule show_nat_digits [of _ n]) simp

lemma takeWhile_show_nat: "takeWhile isdigit (show_nat n) = show_nat n"
  by (simp add: takeWhile_eq_all_conv show_nat_digits)

text \<open>Reading back a printed number: exact below \<open>2 ^ 64\<close>, refused above.\<close>

lemma stoul_show_nat:
  "stoul (show_nat n) = (if n < 2 ^ 64 then Inr (of_nat n) else Inl (OutOfRange ''stoul''))"
  by (simp add: stoul_def dropWhile_space_digits strip_sign_digits show_nat_hd takeWhile_show_nat)

section \<open>Lines\<close>

text \<open>
  Repeated \<open>std::getline\<close>: the lines of a file without their line feeds. A final line
  with no line feed counts, an empty rest after the last line feed does not.
\<close>

lemma diff_less_Suc_dropWhile: "s \<noteq> [] \<Longrightarrow> length (dropWhile P s) - Suc 0 < length s"
  using length_dropWhile_le [of P s] by (cases s) auto

function getlines :: "string \<Rightarrow> string list" where
  "getlines s =
     (if s = [] then []
      else takeWhile (\<lambda>c. c \<noteq> newline) s # getlines (drop 1 (dropWhile (\<lambda>c. c \<noteq> newline) s)))"
  by pat_completeness auto
termination
  by (relation "measure length")
    (auto intro: diff_less_Suc_dropWhile)

declare getlines.simps [simp del]

lemma getlines_Nil [simp]: "getlines [] = []"
  by (simp add: getlines.simps)

lemma getlines_line: "newline \<notin> set l \<Longrightarrow> getlines (l @ newline # s) = l # getlines s"
  by (subst getlines.simps) simp

text \<open>Writing lines: what \<open>getlines\<close> reads back.\<close>

definition unlines :: "string list \<Rightarrow> string" where
  "unlines ls = concat (map (\<lambda>l. l @ [newline]) ls)"

lemma getlines_unlines: "\<forall>l \<in> set ls. newline \<notin> set l \<Longrightarrow> getlines (unlines ls) = ls"
  by (induction ls) (auto simp: unlines_def getlines_line)

end
