(* ===== verification/LB_Config.thy ===== *)
theory LB_Config
  imports LB_Text
begin

text \<open>
  The configuration component: \<open>include/lb/config.hpp\<close> and \<open>src/config.cpp\<close>.
  The data (\<open>Policy\<close>, \<open>Endpoint\<close>, \<open>AppConfig\<close>), the two helpers
  \<open>trim\<close> and \<open>lower\<close>, the parsers of policies and endpoints, and the loader
  of a configuration file line by line, with every exception it throws. The file system is a
  parameter: a map from paths to the contents of the files that can be opened.
\<close>

section \<open>Data\<close>

datatype policy = RoundRobin | LeastConnections | PowerOfTwoChoices

record endpoint =
  host :: string
  port :: u16

record app_config =
  listen :: endpoint
  admin :: endpoint
  policy :: policy
  backends :: "endpoint list"
  worker_count :: u32
  file_limit :: u32
  connect_timeout_ms :: u32
  idle_timeout_ms :: u32
  health_interval_ms :: u32
  health_timeout_ms :: u32
  passive_failure_threshold :: u32

definition default_config :: app_config where
  "default_config = \<lparr>
     listen = \<lparr>host = ''0.0.0.0'', port = 9000\<rparr>,
     admin = \<lparr>host = ''127.0.0.1'', port = 9100\<rparr>,
     policy = RoundRobin,
     backends = [],
     worker_count = 0,
     file_limit = 25000,
     connect_timeout_ms = 3000,
     idle_timeout_ms = 60000,
     health_interval_ms = 2000,
     health_timeout_ms = 500,
     passive_failure_threshold = 3\<rparr>"

section \<open>Helpers on text\<close>

definition trim :: "string \<Rightarrow> string" where
  "trim value = rev (dropWhile isspace (rev (dropWhile isspace value)))"

definition lower :: "string \<Rightarrow> string" where
  "lower value = map tolower value"

text \<open>\<open>endpoint_label\<close> has the same body in \<open>runtime.cpp\<close>, \<open>server.cpp\<close> and \<open>admin.cpp\<close>.\<close>

definition endpoint_label :: "endpoint \<Rightarrow> string" where
  "endpoint_label e = host e @ '':'' @ show_nat (unat (port e))"

section \<open>Policies and endpoints\<close>

definition parse_policy :: "string \<Rightarrow> policy res" where
  "parse_policy value =
     (let normalized = lower (trim value) in
      if normalized = ''round-robin'' \<or> normalized = ''round_robin'' \<or> normalized = ''rr''
      then Inr RoundRobin
      else if normalized = ''least-connections'' \<or> normalized = ''least_connections'' \<or> normalized = ''lc''
      then Inr LeastConnections
      else if normalized = ''power-of-two-choices'' \<or> normalized = ''power_of_two_choices'' \<or> normalized = ''p2c''
      then Inr PowerOfTwoChoices
      else Inl (InvalidArgument (''unknown scheduling policy: '' @ value)))"

fun policy_to_string :: "policy \<Rightarrow> string" where
  "policy_to_string RoundRobin = ''round-robin''"
| "policy_to_string LeastConnections = ''least-connections''"
| "policy_to_string PowerOfTwoChoices = ''power-of-two-choices''"

definition parse_endpoint :: "string \<Rightarrow> endpoint res" where
  "parse_endpoint value =
     (let input = trim value;
          bad_shape = Inl (InvalidArgument (''endpoint must be host:port: '' @ value))
      in case str_rfind CHR '':'' input of
           None \<Rightarrow> bad_shape
         | Some pos \<Rightarrow>
             if pos = 0 \<or> pos + 1 \<ge> length input then bad_shape
             else bind_res (stoul (drop (pos + 1) input)) (\<lambda>port_number.
               if port_number = 0 \<or> port_number > 65535
               then Inl (InvalidArgument (''port out of range in endpoint: '' @ value))
               else Inr \<lparr>host = take pos input, port = ucast port_number\<rparr>))"

section \<open>The configuration file\<close>

definition read_u32 :: "string \<Rightarrow> u32 res" where
  "read_u32 value = bind_res (stoul value) (\<lambda>n. Inr (ucast n))"

definition apply_key :: "nat \<Rightarrow> app_config \<Rightarrow> string \<Rightarrow> string \<Rightarrow> app_config res" where
  "apply_key line_number config key value =
     (if key = ''listen'' then
        bind_res (parse_endpoint value) (\<lambda>e. Inr (config\<lparr>listen := e\<rparr>))
      else if key = ''admin'' then
        bind_res (parse_endpoint value) (\<lambda>e. Inr (config\<lparr>admin := e\<rparr>))
      else if key = ''policy'' then
        bind_res (parse_policy value) (\<lambda>p. Inr (config\<lparr>policy := p\<rparr>))
      else if key = ''backend'' then
        bind_res (parse_endpoint value) (\<lambda>e. Inr (config\<lparr>backends := backends config @ [e]\<rparr>))
      else if key = ''workers'' then
        bind_res (read_u32 value) (\<lambda>n. Inr (config\<lparr>worker_count := n\<rparr>))
      else if key = ''file_limit'' then
        bind_res (read_u32 value) (\<lambda>n. Inr (config\<lparr>file_limit := n\<rparr>))
      else if key = ''connect_timeout_ms'' then
        bind_res (read_u32 value) (\<lambda>n. Inr (config\<lparr>connect_timeout_ms := n\<rparr>))
      else if key = ''idle_timeout_ms'' then
        bind_res (read_u32 value) (\<lambda>n. Inr (config\<lparr>idle_timeout_ms := n\<rparr>))
      else if key = ''health_interval_ms'' then
        bind_res (read_u32 value) (\<lambda>n. Inr (config\<lparr>health_interval_ms := n\<rparr>))
      else if key = ''health_timeout_ms'' then
        bind_res (read_u32 value) (\<lambda>n. Inr (config\<lparr>health_timeout_ms := n\<rparr>))
      else if key = ''passive_failure_threshold'' then
        bind_res (read_u32 value) (\<lambda>n. Inr (config\<lparr>passive_failure_threshold := n\<rparr>))
      else Inl (RuntimeError (''unknown config key on line '' @ show_nat line_number @ '': '' @ key)))"

definition load_line :: "nat \<Rightarrow> app_config \<Rightarrow> string \<Rightarrow> app_config res" where
  "load_line line_number config raw =
     (let uncommented = (case str_find CHR ''#'' raw of None \<Rightarrow> raw | Some comment \<Rightarrow> take comment raw);
          line = trim uncommented
      in if line = [] then Inr config
         else case str_find CHR ''='' line of
             None \<Rightarrow> Inl (RuntimeError (''invalid config line '' @ show_nat line_number @ '': '' @ line))
           | Some equals \<Rightarrow>
               apply_key line_number config
                 (lower (trim (take equals line))) (trim (drop (equals + 1) line)))"

text \<open>The \<open>while (std::getline(...))\<close> loop; \<open>n\<close> lines were read before.\<close>

fun load_lines :: "nat \<Rightarrow> app_config \<Rightarrow> string list \<Rightarrow> app_config res" where
  "load_lines n config [] = Inr config"
| "load_lines n config (line # rest) =
     bind_res (load_line (Suc n) config line) (\<lambda>config'. load_lines (Suc n) config' rest)"

definition load_config_file :: "(string \<rightharpoonup> string) \<Rightarrow> string \<Rightarrow> app_config res" where
  "load_config_file files path =
     (case files path of
        None \<Rightarrow> Inl (RuntimeError (''failed to open config file: '' @ path))
      | Some contents \<Rightarrow>
          bind_res (load_lines 0 default_config (getlines contents)) (\<lambda>config.
            if backends config = []
            then Inl (RuntimeError ''config must define at least one backend'')
            else Inr config))"

section \<open>Trimming\<close>

definition trimmed :: "string \<Rightarrow> bool" where
  "trimmed s \<longleftrightarrow> s = [] \<or> \<not> isspace (hd s) \<and> \<not> isspace (last s)"

lemma trim_trimmed: "trimmed s \<Longrightarrow> trim s = s"
  by (cases "s = []") (auto simp: trim_def trimmed_def dropWhile_id hd_rev)

lemma trim_prefix: "\<exists>w. dropWhile isspace s = trim s @ w"
  unfolding trim_def by (metis rev_append rev_rev_ident takeWhile_dropWhile_id)

lemma trimmed_trim [simp]: "trimmed (trim s)"
proof (cases "trim s = []")
  case True
  then show ?thesis by (simp add: trimmed_def)
next
  case False
  then have ne: "dropWhile isspace (rev (dropWhile isspace s)) \<noteq> []"
    by (simp add: trim_def del: dropWhile_eq_Nil_conv)
  from False obtain w where w: "dropWhile isspace s = trim s @ w" "dropWhile isspace s \<noteq> []"
    using trim_prefix [of s] by auto
  then have "hd (trim s) = hd (dropWhile isspace s)" using False by simp
  moreover have "\<not> isspace (hd (dropWhile isspace s))" using w(2) by (rule hd_dropWhile)
  moreover have "\<not> isspace (last (trim s))"
    using ne hd_dropWhile [OF ne] by (simp add: trim_def last_rev del: dropWhile_eq_Nil_conv)
  ultimately show ?thesis by (simp add: trimmed_def)
qed

lemma trim_idem [simp]: "trim (trim s) = trim s"
  by (simp add: trim_trimmed)

lemma set_trim_subset: "set (trim s) \<subseteq> set s"
  unfolding trim_def by (metis set_dropWhileD set_rev subsetI)

section \<open>What the parsers accept\<close>

lemma policy_to_string_trimmed: "trimmed (policy_to_string p)"
  by (cases p) (simp_all add: trimmed_def isspace_def code_def)

lemma parse_policy_to_string [simp]: "parse_policy (policy_to_string p) = Inr p"
proof -
  have "lower (policy_to_string p) = policy_to_string p"
    by (cases p) (simp_all add: lower_def tolower_def code_def)
  then have "lower (trim (policy_to_string p)) = policy_to_string p"
    by (simp add: trim_trimmed policy_to_string_trimmed)
  then show ?thesis
    unfolding parse_policy_def Let_def by (cases p) simp_all
qed

interpretation policy_text: codec policy_to_string parse_policy "\<lambda>_. True"
  by unfold_locales simp

definition valid_endpoint :: "endpoint \<Rightarrow> bool" where
  "valid_endpoint e \<longleftrightarrow> host e \<noteq> [] \<and> \<not> isspace (hd (host e)) \<and> port e \<noteq> 0"

lemma endpoint_label_trimmed: "valid_endpoint e \<Longrightarrow> trimmed (endpoint_label e)"
  using show_nat_digits [OF last_in_set [OF show_nat_nonempty], of "unat (port e)"]
  by (auto simp: trimmed_def endpoint_label_def valid_endpoint_def dest: isdigit_not_space)

lemma colon_not_in_show_nat [simp]: "CHR '':'' \<notin> set (show_nat n)"
  by (auto dest: show_nat_digits isdigit_not_sign)

lemma unat_u16_bound: "unat (p :: u16) < 65536"
  using unsigned_less [of p] by simp

lemma parse_endpoint_label:
  assumes "valid_endpoint e"
  shows "parse_endpoint (endpoint_label e) = Inr e"
proof -
  let ?n = "unat (port e)"
  have t: "trim (endpoint_label e) = host e @ CHR '':'' # show_nat ?n"
    using endpoint_label_trimmed [OF assms] by (simp add: trim_trimmed) (simp add: endpoint_label_def)
  have n: "?n < 65536" "?n \<noteq> 0"
    using assms unat_u16_bound [of "port e"] by (auto simp: valid_endpoint_def unat_eq_0)
  have port: "ucast (of_nat ?n :: u64) = port e"
    by (simp add: ucast_up_ucast_id is_up)
  have "unat (of_nat ?n :: u64) = ?n" by (rule unat_of_nat_u64) (use n in linarith)
  then have range: "(of_nat ?n :: u64) \<noteq> 0" "\<not> (of_nat ?n :: u64) > 65535"
    using n by (auto simp: word_less_nat_alt unat_eq_0 [symmetric])
  show ?thesis
    using assms n range port
    by (simp add: parse_endpoint_def t str_rfind_append stoul_show_nat valid_endpoint_def)
qed

interpretation endpoint_text: codec endpoint_label parse_endpoint valid_endpoint
  by unfold_locales (rule parse_endpoint_label)

lemma parse_endpoint_sound:
  assumes "parse_endpoint v = Inr e"
  shows "host e \<noteq> [] \<and> \<not> isspace (hd (host e)) \<and> port e \<noteq> 0 \<and>
    (\<exists>rest. trim v = host e @ CHR '':'' # rest \<and> CHR '':'' \<notin> set rest)"
proof -
  from assms obtain pos n where pos: "str_rfind CHR '':'' (trim v) = Some pos" "0 < pos"
    and n: "n \<noteq> (0 :: u64)" "n \<le> 65535" and e: "e = \<lparr>host = take pos (trim v), port = ucast n\<rparr>"
    by (auto simp: parse_endpoint_def Let_def bind_res_Inr split: option.splits if_splits)
  from str_rfind_Some [OF pos(1)] have p: "pos < length (trim v)" "trim v ! pos = CHR '':''"
    "CHR '':'' \<notin> set (drop (Suc pos) (trim v))" by auto
  have ne: "trim v \<noteq> []" using p(1) by auto
  have "\<not> isspace (hd (trim v))"
    using trimmed_trim [of v] ne by (auto simp: trimmed_def)
  moreover have "hd (take pos (trim v)) = hd (trim v)"
    using pos(2) ne by (cases "trim v") (auto simp: take_Cons')
  moreover have "unat n \<le> 65535" "unat n \<noteq> 0"
    using n by (auto simp: word_le_nat_alt unat_eq_0)
  then have "ucast n \<noteq> (0 :: u16)"
    by (simp add: unat_eq_0 [symmetric] unsigned_ucast_eq take_bit_eq_mod)
  moreover have "trim v = take pos (trim v) @ CHR '':'' # drop (Suc pos) (trim v)"
    using p(1,2) by (metis id_take_nth_drop)
  ultimately show ?thesis using pos(2) ne p(3) by (auto simp: e)
qed

section \<open>One line of the file\<close>

lemma dropWhile_all_append: "\<forall>x \<in> set w. P x \<Longrightarrow> dropWhile P (w @ s) = dropWhile P s"
  by (simp add: dropWhile_append2)

lemma trim_pad:
  assumes "\<forall>c \<in> set w1. isspace c" and "\<forall>c \<in> set w2. isspace c"
  shows "trim (w1 @ s @ w2) = trim s"
proof (cases "\<forall>c \<in> set s. isspace c")
  case True
  with assms have "dropWhile isspace (w1 @ s @ w2) = []" "dropWhile isspace s = []"
    by (auto simp: dropWhile_eq_Nil_conv)
  then show ?thesis by (simp only: trim_def rev.simps dropWhile.simps)
next
  case False
  then have "dropWhile isspace (s @ w2) = dropWhile isspace s @ w2"
    by (metis dropWhile_append1)
  with assms show ?thesis
    by (simp add: trim_def dropWhile_all_append)
qed

lemma trimmed_append:
  "trimmed k \<Longrightarrow> k \<noteq> [] \<Longrightarrow> trimmed v \<Longrightarrow> v \<noteq> [] \<Longrightarrow> trimmed (k @ m @ v)"
  by (auto simp: trimmed_def)

lemma not_space_hash: "isspace c \<Longrightarrow> c \<noteq> CHR ''#'' \<and> c \<noteq> CHR ''=''"
  by (auto simp: isspace_def code_def)

lemma strip_comment:
  assumes "CHR ''#'' \<notin> set body" and "comment = [] \<or> hd comment = CHR ''#''"
  shows "(case str_find CHR ''#'' (body @ comment) of None \<Rightarrow> body @ comment
      | Some p \<Rightarrow> take p (body @ comment)) = body"
proof (cases comment)
  case Nil
  with assms show ?thesis by (simp add: str_find_None [THEN iffD2])
next
  case (Cons c cs)
  with assms show ?thesis by (simp add: str_find_append)
qed

lemma load_line_layout:
  assumes ws: "\<forall>c \<in> set (w1 @ w2 @ w3 @ w4). isspace c"
    and key: "trimmed key" "key \<noteq> []" "CHR ''='' \<notin> set key" "CHR ''#'' \<notin> set key"
    and val: "trimmed v" "v \<noteq> []" "CHR ''#'' \<notin> set v"
    and comment: "comment = [] \<or> hd comment = CHR ''#''"
  shows "load_line n cfg ((w1 @ key @ w2 @ ''='' @ w3 @ v @ w4) @ comment) =
    apply_key n cfg (lower key) v"
proof -
  let ?body = "w1 @ key @ w2 @ ''='' @ w3 @ v @ w4"
  let ?line = "key @ w2 @ ''='' @ w3 @ v"
  have hash: "CHR ''#'' \<notin> set ?body"
    using ws key val not_space_hash by auto
  have "trim ?body = trim (w1 @ ?line @ w4)" by simp
  also have "\<dots> = trim ?line" by (rule trim_pad) (use ws in auto)
  also have "\<dots> = ?line"
    using trimmed_append [of key v "w2 @ ''='' @ w3"] key val by (simp add: trim_trimmed)
  finally have line: "trim ?body = ?line" .
  have "str_find CHR ''='' ((key @ w2) @ CHR ''='' # (w3 @ v)) = Some (length (key @ w2))"
    by (rule str_find_append) (use ws key not_space_hash in auto)
  then have eq: "str_find CHR ''='' ?line = Some (length key + length w2)" by simp
  have k: "trim (key @ w2) = key"
    using trim_pad [of "[]" w2 key] ws key by (simp add: trim_trimmed)
  have v: "trim (w3 @ v) = v"
    using trim_pad [of w3 "[]" v] ws val by (simp add: trim_trimmed)
  show ?thesis
    unfolding load_line_def strip_comment [OF hash comment] Let_def line eq
    using key(2) by (simp add: k v)
qed

lemma load_line_setting:
  assumes "trimmed key" "key \<noteq> []" "CHR ''='' \<notin> set key" "CHR ''#'' \<notin> set key"
    and "trimmed v" "v \<noteq> []" "CHR ''#'' \<notin> set v"
  shows "load_line n cfg (key @ CHR ''='' # v) = apply_key n cfg (lower key) v"
  using load_line_layout [of "[]" "[]" "[]" "[]" key v "[]"] assms by simp

section \<open>The whole file\<close>

lemma load_lines_append:
  "load_lines n cfg (xs @ ys) =
    bind_res (load_lines n cfg xs) (\<lambda>cfg'. load_lines (n + length xs) cfg' ys)"
proof (induction xs arbitrary: n cfg)
  case Nil
  then show ?case by simp
next
  case (Cons x xs)
  then show ?case by (cases "load_line (Suc n) cfg x") auto
qed

text \<open>
  A failed load is the failure of one line, the first that fails, read in the configuration
  that the lines before it built; the reported number is that line's number in the file.
\<close>

lemma load_lines_error:
  "load_lines n cfg ls = Inl e \<longleftrightarrow>
    (\<exists>i < length ls. \<exists>cfg'. load_lines n cfg (take i ls) = Inr cfg' \<and>
      load_line (Suc (n + i)) cfg' (ls ! i) = Inl e)"
proof (induction ls arbitrary: n cfg)
  case Nil
  then show ?case by simp
next
  case (Cons l ls)
  show ?case
  proof (cases "load_line (Suc n) cfg l")
    case (Inl e')
    then show ?thesis
      by (auto simp: Ex_less_Suc2)
  next
    case (Inr cfg')
    then show ?thesis
      by (auto simp: Cons.IH Ex_less_Suc2)
  qed
qed

text \<open>Each line keeps what the loader promises of the endpoints it has stored.\<close>

definition config_ok :: "app_config \<Rightarrow> bool" where
  "config_ok cfg \<longleftrightarrow> (\<forall>e \<in> set (listen cfg # admin cfg # backends cfg). valid_endpoint e)"

lemma parse_endpoint_valid: "parse_endpoint v = Inr e \<Longrightarrow> valid_endpoint e"
  using parse_endpoint_sound by (auto simp: valid_endpoint_def)

lemma apply_key_ok: "apply_key n cfg k v = Inr cfg' \<Longrightarrow> config_ok cfg \<Longrightarrow> config_ok cfg'"
  by (auto simp: apply_key_def bind_res_Inr config_ok_def dest: parse_endpoint_valid
      split: if_splits)

lemma load_line_ok: "load_line n cfg l = Inr cfg' \<Longrightarrow> config_ok cfg \<Longrightarrow> config_ok cfg'"
  by (auto simp: load_line_def Let_def split: if_splits option.splits intro: apply_key_ok)

lemma load_lines_ok: "load_lines n cfg ls = Inr cfg' \<Longrightarrow> config_ok cfg \<Longrightarrow> config_ok cfg'"
proof (induction ls arbitrary: n cfg)
  case Nil
  then show ?case by simp
next
  case (Cons l ls)
  then show ?case by (auto simp: bind_res_Inr intro: load_line_ok)
qed

lemma default_config_ok: "config_ok default_config"
  by (simp add: config_ok_def default_config_def valid_endpoint_def isspace_def code_def)

section \<open>A configuration written out and read back\<close>

text \<open>
  The text a configuration is written as. Hosts must not contain a hash sign or a line feed,
  which the file format cannot carry.
\<close>

definition config_settings :: "app_config \<Rightarrow> (string \<times> string) list" where
  "config_settings c =
     [(''listen'', endpoint_label (listen c)),
      (''admin'', endpoint_label (admin c)),
      (''policy'', policy_to_string (policy c)),
      (''workers'', show_nat (unat (worker_count c))),
      (''file_limit'', show_nat (unat (file_limit c))),
      (''connect_timeout_ms'', show_nat (unat (connect_timeout_ms c))),
      (''idle_timeout_ms'', show_nat (unat (idle_timeout_ms c))),
      (''health_interval_ms'', show_nat (unat (health_interval_ms c))),
      (''health_timeout_ms'', show_nat (unat (health_timeout_ms c))),
      (''passive_failure_threshold'', show_nat (unat (passive_failure_threshold c)))]
     @ map (\<lambda>e. (''backend'', endpoint_label e)) (backends c)"

definition setting_line :: "string \<times> string \<Rightarrow> string" where
  "setting_line kv = fst kv @ CHR ''='' # snd kv"

definition render_config :: "app_config \<Rightarrow> string" where
  "render_config c = unlines (map setting_line (config_settings c))"

definition printable_config :: "app_config \<Rightarrow> bool" where
  "printable_config c \<longleftrightarrow> backends c \<noteq> [] \<and>
     (\<forall>e \<in> set (listen c # admin c # backends c).
        valid_endpoint e \<and> CHR ''#'' \<notin> set (host e) \<and> newline \<notin> set (host e))"

definition file_value :: "string \<Rightarrow> bool" where
  "file_value v \<longleftrightarrow> trimmed v \<and> v \<noteq> [] \<and> CHR ''#'' \<notin> set v \<and> newline \<notin> set v"

lemma digit_not_special: "isdigit c \<Longrightarrow> c \<noteq> CHR ''#'' \<and> c \<noteq> newline"
  by (auto simp: isdigit_def code_def newline_def)

lemma file_value_number [simp]: "file_value (show_nat n)"
  using show_nat_hd [of n] show_nat_digits [OF last_in_set [OF show_nat_nonempty], of n]
  by (auto simp: file_value_def trimmed_def isdigit_not_space
      dest: show_nat_digits digit_not_special)

lemma file_value_policy [simp]: "file_value (policy_to_string p)"
  by (cases p) (simp_all add: file_value_def trimmed_def isspace_def code_def newline_def)

lemma file_value_endpoint:
  "valid_endpoint e \<Longrightarrow> CHR ''#'' \<notin> set (host e) \<Longrightarrow> newline \<notin> set (host e) \<Longrightarrow>
    file_value (endpoint_label e)"
  using endpoint_label_trimmed [of e] file_value_number [of "unat (port e)"]
  by (auto simp: file_value_def endpoint_label_def newline_def)

lemma read_u32_show [simp]: "read_u32 (show_nat (unat x)) = Inr x"
proof -
  have "unat x < 18446744073709551616" using unat_u32_less [of x] by linarith
  then show ?thesis by (simp add: read_u32_def stoul_show_nat ucast_up_ucast_id is_up)
qed

definition plain_key :: "string \<Rightarrow> bool" where
  "plain_key k \<longleftrightarrow> trimmed k \<and> k \<noteq> [] \<and> CHR ''='' \<notin> set k \<and> CHR ''#'' \<notin> set k \<and>
     newline \<notin> set k \<and> lower k = k"

lemma load_setting:
  "plain_key (fst kv) \<Longrightarrow> file_value (snd kv) \<Longrightarrow>
    load_line n cfg (setting_line kv) = apply_key n cfg (fst kv) (snd kv)"
  by (simp add: setting_line_def plain_key_def file_value_def load_line_setting)

lemma plain_keys [simp]:
  "plain_key ''listen''" "plain_key ''admin''" "plain_key ''policy''" "plain_key ''backend''"
  "plain_key ''workers''" "plain_key ''file_limit''" "plain_key ''connect_timeout_ms''"
  "plain_key ''idle_timeout_ms''" "plain_key ''health_interval_ms''"
  "plain_key ''health_timeout_ms''" "plain_key ''passive_failure_threshold''"
  by (simp_all add: plain_key_def trimmed_def lower_def tolower_def isspace_def code_def newline_def)

lemma load_backends:
  "\<forall>e \<in> set es. valid_endpoint e \<and> file_value (endpoint_label e) \<Longrightarrow>
    load_lines n cfg (map (setting_line \<circ> (\<lambda>e. (''backend'', endpoint_label e))) es) =
      Inr (cfg\<lparr>backends := backends cfg @ es\<rparr>)"
proof (induction es arbitrary: n cfg)
  case Nil
  then show ?case by simp
next
  case (Cons e es)
  then show ?case by (simp add: load_setting apply_key_def parse_endpoint_label)
qed

lemma load_settings:
  assumes "printable_config c"
  shows "load_lines 0 default_config (map setting_line (config_settings c)) = Inr c"
proof -
  have "\<forall>e \<in> set (listen c # admin c # backends c).
      valid_endpoint e \<and> file_value (endpoint_label e)"
    using assms file_value_endpoint by (auto simp: printable_config_def)
  then show ?thesis
    by (simp add: config_settings_def load_setting apply_key_def parse_endpoint_label load_backends
        default_config_def)
qed

lemma settings_one_line:
  "printable_config c \<Longrightarrow> l \<in> set (map setting_line (config_settings c)) \<Longrightarrow> newline \<notin> set l"
  using plain_keys file_value_number file_value_policy
  by (auto simp: config_settings_def setting_line_def plain_key_def file_value_def
      printable_config_def endpoint_label_def newline_def)

section \<open>Properties\<close>

text \<open>
  C16. Every configuration with at least one backend, whose endpoints have a host and a nonzero
  port that the file format can carry, is read back exactly as it was written: all eleven
  settings, and the backends in their order.
\<close>

theorem config_roundtrip:
  assumes "printable_config c" and "files path = Some (render_config c)"
  shows "load_config_file files path = Inr c"
proof -
  have "getlines (render_config c) = map setting_line (config_settings c)"
    unfolding render_config_def
    by (rule getlines_unlines) (use settings_one_line assms(1) in blast)
  with assms show ?thesis
    by (simp add: load_config_file_def load_settings printable_config_def)
qed

definition sample_config :: app_config where
  "sample_config = default_config\<lparr>policy := PowerOfTwoChoices, worker_count := 4,
     backends := [\<lparr>host = ''127.0.0.1'', port = 9101\<rparr>, \<lparr>host = ''::1'', port = 65535\<rparr>]\<rparr>"

lemma sample_config_printable: "printable_config sample_config"
  by (simp add: printable_config_def sample_config_def default_config_def valid_endpoint_def
      isspace_def code_def newline_def)

theorem config_roundtrip_witness:
  "load_config_file [''lb.conf'' \<mapsto> render_config sample_config] ''lb.conf'' = Inr sample_config"
  by (rule config_roundtrip [OF sample_config_printable]) simp

lemma sample_config_loads:
  "load_config_file [''lb.conf'' \<mapsto> unlines (map setting_line (config_settings sample_config))]
    ''lb.conf'' = Inr sample_config"
  using getlines_unlines settings_one_line [OF sample_config_printable]
    load_settings [OF sample_config_printable] sample_config_printable
  by (simp add: load_config_file_def printable_config_def)

text \<open>
  C31. A configuration that loads can be served: it has at least one backend, and its listener,
  its admin endpoint and all its backends have a nonempty host that does not start with white
  space and a nonzero port.
\<close>

theorem loaded_config_ok:
  assumes "load_config_file files path = Inr c"
  shows "backends c \<noteq> [] \<and> config_ok c"
  using assms load_lines_ok [OF _ default_config_ok]
  by (auto simp: load_config_file_def bind_res_Inr split: option.splits if_splits)

theorem loaded_config_ok_witness:
  "backends sample_config \<noteq> [] \<and> config_ok sample_config"
  by (rule loaded_config_ok [OF sample_config_loads])

text \<open>
  C30. A load of a readable file fails in exactly two ways. Either a line fails: it is the first
  line that does, it is read in the configuration that the lines before it built, and its
  exception, with its line number, is the result. Or every line is fine and no line defines a
  backend.
\<close>

theorem config_load_errors:
  assumes "files path = Some contents"
  shows "load_config_file files path = Inl e \<longleftrightarrow>
    (\<exists>i cfg. i < length (getlines contents) \<and>
       load_lines 0 default_config (take i (getlines contents)) = Inr cfg \<and>
       load_line (Suc i) cfg (getlines contents ! i) = Inl e) \<or>
    (\<exists>cfg. load_lines 0 default_config (getlines contents) = Inr cfg \<and> backends cfg = [] \<and>
       e = RuntimeError ''config must define at least one backend'')"
  using assms load_lines_error [of 0 default_config "getlines contents" e]
  by (auto simp: load_config_file_def bind_res_Inl split: if_splits)

definition bad_file :: string where
  "bad_file = unlines [''policy=rr'', ''backend 127.0.0.1:9101'', ''nonsense=1'']"

lemma getlines_bad_file:
  "getlines bad_file = [''policy=rr'', ''backend 127.0.0.1:9101'', ''nonsense=1'']"
  unfolding bad_file_def by (rule getlines_unlines) (simp add: newline_def)

lemma bad_file_line: "load_line 2 cfg ''backend 127.0.0.1:9101'' =
    Inl (RuntimeError ''invalid config line 2: backend 127.0.0.1:9101'')"
  by code_simp

lemma bad_file_prefix:
  "load_lines 0 default_config [''policy=rr''] = Inr (default_config\<lparr>policy := RoundRobin\<rparr>)"
  by code_simp

theorem config_load_errors_witness:
  "load_config_file [''lb.conf'' \<mapsto> bad_file] ''lb.conf'' =
    Inl (RuntimeError ''invalid config line 2: backend 127.0.0.1:9101'')"
proof -
  have "load_line (Suc 1) (default_config\<lparr>policy := RoundRobin\<rparr>) ''backend 127.0.0.1:9101'' =
      Inl (RuntimeError ''invalid config line 2: backend 127.0.0.1:9101'')"
    using bad_file_line by (simp add: numeral_2_eq_2)
  then show ?thesis
    by (subst config_load_errors [where contents = bad_file])
      (auto simp: getlines_bad_file bad_file_prefix simp del: load_lines.simps
        intro!: exI [of _ "1::nat"])
qed

text \<open>
  C32. An endpoint is accepted exactly when, without surrounding white space, it splits at its
  last colon into a nonempty host and a nonempty rest whose leading number, as \<open>stoul\<close>
  reads it, is between 1 and 65535; host and port of the result are those two parts.
\<close>

theorem endpoint_accepts:
  "parse_endpoint v = Inr e \<longleftrightarrow>
    (\<exists>rest p. trim v = host e @ CHR '':'' # rest \<and> CHR '':'' \<notin> set rest \<and>
       host e \<noteq> [] \<and> rest \<noteq> [] \<and> stoul rest = Inr p \<and> 1 \<le> unat p \<and> unat p \<le> 65535 \<and>
       port e = ucast p)"
  (is "?L \<longleftrightarrow> ?R")
proof
  assume ?L
  then obtain pos n where pos: "str_rfind CHR '':'' (trim v) = Some pos" "0 < pos"
      "pos + 1 < length (trim v)" "stoul (drop (pos + 1) (trim v)) = Inr n"
    and n: "n \<noteq> (0 :: u64)" "n \<le> 65535" and e: "e = \<lparr>host = take pos (trim v), port = ucast n\<rparr>"
    by (auto simp: parse_endpoint_def Let_def bind_res_Inr not_le not_less split: option.splits if_splits)
  from str_rfind_Some [OF pos(1)] have "trim v = take pos (trim v) @ CHR '':'' # drop (pos + 1) (trim v)"
    "CHR '':'' \<notin> set (drop (pos + 1) (trim v))"
    by (simp_all add: id_take_nth_drop [symmetric])
      (metis id_take_nth_drop)
  moreover have "1 \<le> unat n" "unat n \<le> 65535"
    using n by (auto simp: word_le_nat_alt unat_eq_0 Suc_le_eq intro: gr0I)
  ultimately show ?R using pos e
    by (intro exI [of _ "drop (pos + 1) (trim v)"] exI [of _ n]) auto
next
  assume ?R
  then obtain rest p where r: "trim v = host e @ CHR '':'' # rest" "CHR '':'' \<notin> set rest"
      "host e \<noteq> []" "rest \<noteq> []" "stoul rest = Inr p" "port e = ucast p"
    and p: "1 \<le> unat p" "unat p \<le> 65535" by blast
  have "p \<noteq> 0" "p \<le> 65535"
    using p by (auto simp: word_le_nat_alt)
  with r show ?L
    by (cases e) (simp add: parse_endpoint_def str_rfind_append not_less)
qed

text \<open>
  A number in the file is taken modulo \<open>2 ^ 32\<close>: the loader reads 64 bits and keeps
  the low 32. So two different numbers set the same value, and a number from \<open>2 ^ 64\<close>
  on is refused as out of range.
\<close>

theorem workers_truncated:
  "apply_key line cfg ''workers'' (show_nat n) =
    (if n < 2 ^ 64 then Inr (cfg\<lparr>worker_count := of_nat (n mod 2 ^ 32)\<rparr>)
     else Inl (OutOfRange ''stoul''))"
proof -
  have "ucast (of_nat n :: u64) = (of_nat (n mod 2 ^ 32) :: u32)" if "n < 2 ^ 64"
    using that by (simp add: word_unat_eq_iff unsigned_ucast_eq unat_of_nat take_bit_eq_mod)
  then show ?thesis
    by (simp add: apply_key_def read_u32_def stoul_show_nat)
qed

text \<open>
  The policy names are read whatever their case and the white space around them, each policy
  under its three spellings and nothing else; the printed name of a policy is one of them.
\<close>

theorem policy_names:
  "(parse_policy v = Inr p \<longleftrightarrow> lower (trim v) \<in> set (case p of
      RoundRobin \<Rightarrow> [''round-robin'', ''round_robin'', ''rr'']
    | LeastConnections \<Rightarrow> [''least-connections'', ''least_connections'', ''lc'']
    | PowerOfTwoChoices \<Rightarrow> [''power-of-two-choices'', ''power_of_two_choices'', ''p2c''])) \<and>
   parse_policy (policy_to_string p) = Inr p"
  by (cases p) (auto simp: parse_policy_def [of v] Let_def simp del: policy_to_string.simps)

definition repository_conf :: string where
  "repository_conf = unlines
     [''# Lines beginning with # are ignored.'',
      ''# Supported policies: round-robin, least-connections'',
      ''listen=0.0.0.0:9000'',
      ''admin=127.0.0.1:9100'',
      ''policy=least-connections'',
      ''workers=0'',
      ''file_limit=25000'',
      ''connect_timeout_ms=3000'',
      ''idle_timeout_ms=60000'',
      ''health_interval_ms=2000'',
      ''health_timeout_ms=500'',
      ''passive_failure_threshold=3'',
      '''',
      ''backend=127.0.0.1:9101'',
      ''backend=127.0.0.1:9102'']"

lemmas text_eval =
  str_find_def str_rfind_def trim_def isspace_def code_def lower_def tolower_def read_u32_def
  stoul_def strip_sign_def isdigit_def dec_value_def digit_val_def Let_def

lemmas config_eval = load_line_def apply_key_def parse_endpoint_def parse_policy_def text_eval

lemma repository_lines:
  "load_line n c ''# Lines beginning with # are ignored.'' = Inr c"
  "load_line n c ''# Supported policies: round-robin, least-connections'' = Inr c"
  "load_line n c ''listen=0.0.0.0:9000'' = Inr (c\<lparr>listen := \<lparr>host = ''0.0.0.0'', port = 9000\<rparr>\<rparr>)"
  "load_line n c ''admin=127.0.0.1:9100'' = Inr (c\<lparr>admin := \<lparr>host = ''127.0.0.1'', port = 9100\<rparr>\<rparr>)"
  "load_line n c ''policy=least-connections'' = Inr (c\<lparr>policy := LeastConnections\<rparr>)"
  "load_line n c ''workers=0'' = Inr (c\<lparr>worker_count := 0\<rparr>)"
  "load_line n c ''file_limit=25000'' = Inr (c\<lparr>file_limit := 25000\<rparr>)"
  "load_line n c ''connect_timeout_ms=3000'' = Inr (c\<lparr>connect_timeout_ms := 3000\<rparr>)"
  "load_line n c ''idle_timeout_ms=60000'' = Inr (c\<lparr>idle_timeout_ms := 60000\<rparr>)"
  "load_line n c ''health_interval_ms=2000'' = Inr (c\<lparr>health_interval_ms := 2000\<rparr>)"
  "load_line n c ''health_timeout_ms=500'' = Inr (c\<lparr>health_timeout_ms := 500\<rparr>)"
  "load_line n c ''passive_failure_threshold=3'' = Inr (c\<lparr>passive_failure_threshold := 3\<rparr>)"
  "load_line n c '''' = Inr c"
  by (simp_all add: config_eval)

lemma repository_backends:
  "load_line n c ''backend=127.0.0.1:9101'' =
    Inr (c\<lparr>backends := backends c @ [\<lparr>host = ''127.0.0.1'', port = 9101\<rparr>]\<rparr>)"
  "load_line n c ''backend=127.0.0.1:9102'' =
    Inr (c\<lparr>backends := backends c @ [\<lparr>host = ''127.0.0.1'', port = 9102\<rparr>]\<rparr>)"
  by (simp_all add: config_eval)

lemma getlines_repository:
  "\<forall>l \<in> set ls. newline \<notin> set l \<Longrightarrow>
    load_config_file [p \<mapsto> unlines ls] p =
      bind_res (load_lines 0 default_config ls) (\<lambda>config.
        if backends config = [] then Inl (RuntimeError ''config must define at least one backend'')
        else Inr config)"
  by (simp add: load_config_file_def getlines_unlines)

text \<open>
  The configuration file of the repository, \<open>config/backends.conf\<close>, loads, and to
  this configuration: its comments and empty lines are skipped and the two backends come in the
  order of the file.
\<close>

theorem repository_conf_loads:
  "load_config_file [''config/backends.conf'' \<mapsto> repository_conf] ''config/backends.conf'' =
    Inr (default_config\<lparr>policy := LeastConnections,
      backends := [\<lparr>host = ''127.0.0.1'', port = 9101\<rparr>, \<lparr>host = ''127.0.0.1'', port = 9102\<rparr>]\<rparr>)"
  unfolding repository_conf_def
  by (subst getlines_repository)
    (simp_all add: newline_def repository_lines repository_backends, simp add: default_config_def)

end
