(* ===== verification/LB_Scheduler.thy ===== *)
theory LB_Scheduler
  imports LB_Config
begin

text \<open>
  The scheduler: \<open>include/lb/scheduler.hpp\<close> and \<open>src/scheduler.cpp\<close>. The
  state is the class's fields, one list per vector of atomics; an operation is one atomic
  transition of it (the interleavings inside an operation are the matter of
  \<open>LB_Atomics\<close>). An operation that throws returns the unchanged state with the
  exception. The draws of \<open>std::uniform_int_distribution\<close> in power-of-two-choices are
  a parameter: \<open>draw k\<close> is the \<open>k\<close>-th number the distribution returns during the
  call, and that it lies in the range the distribution was built with is a hypothesis where it
  matters.
\<close>

section \<open>State\<close>

datatype backend_state = Up | Down | Draining

record selected_backend =
  sel_index :: nat
  sel_endpoint :: endpoint

record scheduler =
  s_backends :: "endpoint list"
  s_policy :: policy
  s_next :: u64
  s_active :: "u64 list"
  s_total :: "u64 list"
  s_errors :: "u64 list"
  s_failures :: "u32 list"
  s_states :: "backend_state list"

fun state_to_string :: "backend_state \<Rightarrow> string" where
  "state_to_string Up = ''UP''"
| "state_to_string Down = ''DOWN''"
| "state_to_string Draining = ''DRAINING''"

definition new_scheduler :: "endpoint list \<Rightarrow> policy \<Rightarrow> scheduler" where
  "new_scheduler bs p = \<lparr>
     s_backends = bs,
     s_policy = p,
     s_next = 0,
     s_active = replicate (length bs) 0,
     s_total = replicate (length bs) 0,
     s_errors = replicate (length bs) 0,
     s_failures = replicate (length bs) 0,
     s_states = replicate (length bs) Up\<rparr>"

definition index_error :: exn where
  "index_error = OutOfRange ''backend index out of range''"

section \<open>Accessors\<close>

definition backend_count :: "scheduler \<Rightarrow> nat" where
  "backend_count s = length (s_backends s)"

definition checked_get :: "'a list \<Rightarrow> nat \<Rightarrow> 'a res" where
  "checked_get xs i = (if i \<ge> length xs then Inl index_error else Inr (xs ! i))"

definition active_connections :: "scheduler \<Rightarrow> nat \<Rightarrow> u64 res" where
  "active_connections s i = checked_get (s_active s) i"

definition total_connections :: "scheduler \<Rightarrow> nat \<Rightarrow> u64 res" where
  "total_connections s i = checked_get (s_total s) i"

definition error_count :: "scheduler \<Rightarrow> nat \<Rightarrow> u64 res" where
  "error_count s i = checked_get (s_errors s) i"

definition consecutive_failures :: "scheduler \<Rightarrow> nat \<Rightarrow> u32 res" where
  "consecutive_failures s i = checked_get (s_failures s) i"

definition state_at :: "scheduler \<Rightarrow> nat \<Rightarrow> backend_state res" where
  "state_at s i = checked_get (s_states s) i"

definition backend_endpoint :: "scheduler \<Rightarrow> nat \<Rightarrow> endpoint res" where
  "backend_endpoint s i = checked_get (s_backends s) i"

text \<open>
  \<open>routable\<close> is only called with indexes in range, where \<open>state\<close> does not throw.
\<close>

definition routable :: "scheduler \<Rightarrow> nat \<Rightarrow> bool" where
  "routable s i \<longleftrightarrow> state_at s i = Inr Up"

section \<open>Selection\<close>

text \<open>
  The round-robin loop: \<open>start + offset\<close> is computed in \<open>size_t\<close>, where it wraps
  around at \<open>2 ^ 64\<close>, before the remainder is taken.
\<close>

definition rr_index :: "scheduler \<Rightarrow> u64 \<Rightarrow> nat \<Rightarrow> nat" where
  "rr_index s start offset = unat (start + of_nat offset) mod length (s_backends s)"

definition rr_scan :: "scheduler \<Rightarrow> u64 \<Rightarrow> nat option" where
  "rr_scan s start =
     find (routable s) (map (rr_index s start) [0..<length (s_backends s)])"

text \<open>
  What \<open>distribution(rng)\<close> returns: any sequence of numbers below the number of backends, here
  the remainders of an arbitrary sequence.
\<close>

definition drawn :: "scheduler \<Rightarrow> (nat \<Rightarrow> nat) \<Rightarrow> nat \<Rightarrow> nat" where
  "drawn s draw k = draw k mod length (s_backends s)"

text \<open>The attempts of power-of-two-choices, from attempt \<open>k\<close> on with \<open>m\<close> left.\<close>

fun p2c_scan :: "scheduler \<Rightarrow> (nat \<Rightarrow> nat) \<Rightarrow> nat \<Rightarrow> nat \<Rightarrow> nat option" where
  "p2c_scan s draw k 0 = None"
| "p2c_scan s draw k (Suc m) =
     (let first = draw (2 * k); second = draw (2 * k + 1) in
      if \<not> routable s first \<and> \<not> routable s second then p2c_scan s draw (Suc k) m
      else if routable s first \<and> \<not> routable s second then Some first
      else if \<not> routable s first \<and> routable s second then Some second
      else Some (if s_active s ! first \<le> s_active s ! second then first else second))"

definition lc_better :: "scheduler \<Rightarrow> nat option \<Rightarrow> nat \<Rightarrow> nat option" where
  "lc_better s selected i =
     (if \<not> routable s i then selected
      else case selected of None \<Rightarrow> Some i
        | Some j \<Rightarrow> if s_active s ! i < s_active s ! j then Some i else selected)"

definition lc_scan :: "scheduler \<Rightarrow> nat option" where
  "lc_scan s = foldl (lc_better s) None [0..<length (s_active s)]"

definition selected_at :: "scheduler \<Rightarrow> nat \<Rightarrow> selected_backend" where
  "selected_at s i = \<lparr>sel_index = i, sel_endpoint = s_backends s ! i\<rparr>"

definition select :: "(nat \<Rightarrow> nat) \<Rightarrow> scheduler \<Rightarrow> selected_backend option \<times> scheduler" where
  "select draw s =
     (if s_backends s = [] then (None, s)
      else if s_policy s = RoundRobin then
        (map_option (selected_at s) (rr_scan s (s_next s)), s\<lparr>s_next := s_next s + 1\<rparr>)
      else case (if s_policy s = PowerOfTwoChoices \<and> length (s_backends s) > 1
                 then p2c_scan s (drawn s draw) 0 (length (s_backends s) * 2) else None) of
          Some i \<Rightarrow> (Some (selected_at s i), s)
        | None \<Rightarrow> (map_option (selected_at s) (lc_scan s), s))"

section \<open>Updates\<close>

definition mark_open :: "nat \<Rightarrow> scheduler \<Rightarrow> scheduler out" where
  "mark_open i s =
     (if i \<ge> length (s_active s) then Throw index_error s
      else Ok (s\<lparr>s_active := (s_active s)[i := s_active s ! i + 1],
                s_total := (s_total s)[i := s_total s ! i + 1]\<rparr>))"

definition saturating_dec :: "u64 \<Rightarrow> u64" where
  "saturating_dec current = (if current > 0 then current - 1 else current)"

definition mark_closed :: "nat \<Rightarrow> scheduler \<Rightarrow> scheduler out" where
  "mark_closed i s =
     (if i \<ge> length (s_active s) then Throw index_error s
      else Ok (s\<lparr>s_active := (s_active s)[i := saturating_dec (s_active s ! i)]\<rparr>))"

definition mark_failure :: "nat \<Rightarrow> scheduler \<Rightarrow> scheduler out" where
  "mark_failure i s =
     (if i \<ge> length (s_errors s) then Throw index_error s
      else Ok (s\<lparr>s_errors := (s_errors s)[i := s_errors s ! i + 1],
                s_failures := (s_failures s)[i := s_failures s ! i + 1]\<rparr>))"

definition set_state :: "nat \<Rightarrow> backend_state \<Rightarrow> scheduler \<Rightarrow> scheduler out" where
  "set_state i st s =
     (if i \<ge> length (s_states s) then Throw index_error s
      else Ok (s\<lparr>s_states := (s_states s)[i := st]\<rparr>))"

definition mark_healthy :: "nat \<Rightarrow> scheduler \<Rightarrow> scheduler out" where
  "mark_healthy i s =
     (if i \<ge> length (s_states s) then Throw index_error s
      else let s1 = s\<lparr>s_failures := (s_failures s)[i := 0]\<rparr> in
           if state_at s1 i = Inr Down then set_state i Up s1 else Ok s1)"

section \<open>Well-formedness\<close>

text \<open>All vectors have one slot per backend, and a vector's size fits \<open>size_t\<close>.\<close>

definition wf_scheduler :: "scheduler \<Rightarrow> bool" where
  "wf_scheduler s \<longleftrightarrow> length (s_backends s) < 2 ^ 64 \<and>
     length (s_active s) = length (s_backends s) \<and>
     length (s_total s) = length (s_backends s) \<and>
     length (s_errors s) = length (s_backends s) \<and>
     length (s_failures s) = length (s_backends s) \<and>
     length (s_states s) = length (s_backends s)"

lemma wf_new_scheduler: "length bs < 2 ^ 64 \<Longrightarrow> wf_scheduler (new_scheduler bs p)"
  by (simp add: wf_scheduler_def new_scheduler_def)

lemma routable_iff: "routable s i \<longleftrightarrow> i < length (s_states s) \<and> s_states s ! i = Up"
  by (auto simp: routable_def state_at_def checked_get_def)

lemma routable_bound: "wf_scheduler s \<Longrightarrow> routable s i \<Longrightarrow> i < length (s_backends s)"
  by (simp add: routable_iff wf_scheduler_def)

section \<open>The scans\<close>

lemma rr_index_bound: "s_backends s \<noteq> [] \<Longrightarrow> rr_index s start k < length (s_backends s)"
  by (simp add: rr_index_def)

lemma rr_scan_Some:
  "rr_scan s start = Some i \<longleftrightarrow>
    (\<exists>k < length (s_backends s). i = rr_index s start k \<and> routable s i \<and>
       (\<forall>j < k. \<not> routable s (rr_index s start j)))"
  by (auto simp: rr_scan_def find_Some_iff)

lemma rr_scan_None:
  "rr_scan s start = None \<longleftrightarrow> (\<forall>k < length (s_backends s). \<not> routable s (rr_index s start k))"
  by (auto simp: rr_scan_def find_None_iff)

lemma rr_index_no_wrap:
  assumes "unat start + k < 2 ^ 64"
  shows "rr_index s start k = (unat start + k) mod length (s_backends s)"
proof -
  have "unat (of_nat k :: u64) = k" by (rule unat_of_nat_u64) (use assms in simp)
  with assms show ?thesis by (simp add: rr_index_def unat_word_ariths)
qed

text \<open>Below the wrap-around, the offsets of one scan reach every index.\<close>

lemma rr_index_covers:
  assumes "unat start + length (s_backends s) \<le> 2 ^ 64" and "i < length (s_backends s)"
  shows "\<exists>k < length (s_backends s). rr_index s start k = i"
proof -
  let ?n = "length (s_backends s)"
  define k where "k = (i + ?n - unat start mod ?n) mod ?n"
  have k: "k < ?n" using assms(2) by (auto simp: k_def intro!: mod_less_divisor)
  have "(unat start + k) mod ?n = (unat start mod ?n + (i + ?n - unat start mod ?n)) mod ?n"
    unfolding k_def by (metis mod_add_eq mod_mod_trivial)
  also have "unat start mod ?n + (i + ?n - unat start mod ?n) = i + ?n"
    using mod_less_divisor [of ?n "unat start"] assms(2) by linarith
  finally have "(unat start + k) mod ?n = i" using assms(2) by simp
  moreover have "rr_index s start k = (unat start + k) mod ?n"
    by (rule rr_index_no_wrap) (use assms(1) k in linarith)
  ultimately show ?thesis using k by auto
qed

lemma p2c_scan_routable: "p2c_scan s draw k m = Some i \<Longrightarrow> routable s i"
  by (induction s draw k m rule: p2c_scan.induct) (auto simp: Let_def split: if_splits)

text \<open>What the least-connections scan knows after the first \<open>n\<close> indexes.\<close>

definition least_upto :: "scheduler \<Rightarrow> nat \<Rightarrow> nat option \<Rightarrow> bool" where
  "least_upto s n sel \<longleftrightarrow>
     (case sel of
        None \<Rightarrow> \<forall>i < n. \<not> routable s i
      | Some i \<Rightarrow> i < n \<and> routable s i \<and>
          (\<forall>j < n. routable s j \<longrightarrow> s_active s ! i \<le> s_active s ! j) \<and>
          (\<forall>j < i. routable s j \<longrightarrow> s_active s ! i < s_active s ! j))"

lemma least_upto_step: "least_upto s n sel \<Longrightarrow> least_upto s (Suc n) (lc_better s sel n)"
  by (auto simp: least_upto_def lc_better_def less_Suc_eq split: option.splits)

lemma lc_scan_least: "least_upto s (length (s_active s)) (lc_scan s)"
proof -
  have "least_upto s n (foldl (lc_better s) None [0..<n])" for n
  proof (induction n)
    case 0
    then show ?case by (simp add: least_upto_def)
  next
    case (Suc n)
    then show ?case by (simp add: least_upto_step)
  qed
  then show ?thesis by (simp add: lc_scan_def)
qed

lemma saturating_dec_inc: "x \<noteq> - 1 \<Longrightarrow> saturating_dec (x + 1) = x"
  using eq_neg_iff_add_eq_0 [of x 1] by (simp add: saturating_dec_def word_gt_0)

section \<open>The interface the rest of the program uses\<close>

text \<open>
  What the runtime, the workers and the health checks rely on when they count connections and
  failures: a pool of indexed backends. An operation on an index in range succeeds, keeps the
  pool well-formed and changes what it names and nothing else; outside the range it throws and
  changes nothing. The laws are stated on the observations \<open>active\<close>, \<open>fails\<close>
  and \<open>st\<close>, so any representation of the pool can provide them.
\<close>

locale backend_pool =
  fixes ok :: "'s \<Rightarrow> bool"
    and size_of :: "'s \<Rightarrow> nat"
    and active :: "'s \<Rightarrow> nat \<Rightarrow> u64"
    and fails :: "'s \<Rightarrow> nat \<Rightarrow> u32"
    and st :: "'s \<Rightarrow> nat \<Rightarrow> backend_state"
    and open_op :: "nat \<Rightarrow> 's \<Rightarrow> 's out"
    and close_op :: "nat \<Rightarrow> 's \<Rightarrow> 's out"
    and fail_op :: "nat \<Rightarrow> 's \<Rightarrow> 's out"
    and heal_op :: "nat \<Rightarrow> 's \<Rightarrow> 's out"
    and set_op :: "nat \<Rightarrow> backend_state \<Rightarrow> 's \<Rightarrow> 's out"
  assumes open_law: "ok s \<Longrightarrow> i < size_of s \<Longrightarrow> \<exists>t. open_op i s = Ok t \<and> ok t \<and>
      size_of t = size_of s \<and> active t = (active s)(i := active s i + 1) \<and>
      fails t = fails s \<and> st t = st s"
    and close_law: "ok s \<Longrightarrow> i < size_of s \<Longrightarrow> \<exists>t. close_op i s = Ok t \<and> ok t \<and>
      size_of t = size_of s \<and> active t = (active s)(i := saturating_dec (active s i)) \<and>
      fails t = fails s \<and> st t = st s"
    and fail_law: "ok s \<Longrightarrow> i < size_of s \<Longrightarrow> \<exists>t. fail_op i s = Ok t \<and> ok t \<and>
      size_of t = size_of s \<and> active t = active s \<and>
      fails t = (fails s)(i := fails s i + 1) \<and> st t = st s"
    and heal_law: "ok s \<Longrightarrow> i < size_of s \<Longrightarrow> \<exists>t. heal_op i s = Ok t \<and> ok t \<and>
      size_of t = size_of s \<and> active t = active s \<and> fails t = (fails s)(i := 0) \<and>
      st t = (if st s i = Down then (st s)(i := Up) else st s)"
    and set_law: "ok s \<Longrightarrow> i < size_of s \<Longrightarrow> \<exists>t. set_op i x s = Ok t \<and> ok t \<and>
      size_of t = size_of s \<and> active t = active s \<and> fails t = fails s \<and>
      st t = (st s)(i := x)"
begin

text \<open>The pool counts \<open>f i\<close> open connections on every backend \<open>i\<close>.\<close>

definition counts :: "'s \<Rightarrow> (nat \<Rightarrow> nat) \<Rightarrow> bool" where
  "counts s f \<longleftrightarrow> (\<forall>i < size_of s. unat (active s i) = f i)"

lemma counts_open:
  assumes "ok s" "i < size_of s" "counts s f" "f i < 2 ^ 64 - 1"
  shows "\<exists>t. open_op i s = Ok t \<and> ok t \<and> size_of t = size_of s \<and> counts t (f(i := Suc (f i)))"
  using open_law [OF assms(1,2)] assms(2,3,4) by (auto simp: counts_def unat_plus_1_u64)

lemma counts_close:
  assumes "ok s" "i < size_of s" "counts s f"
  shows "\<exists>t. close_op i s = Ok t \<and> ok t \<and> size_of t = size_of s \<and> counts t (f(i := f i - 1))"
proof -
  have "unat (saturating_dec (active s i)) = unat (active s i) - 1"
    by (auto simp: saturating_dec_def unat_sub_if' word_gt_0 unat_eq_0 [symmetric] word_less_nat_alt)
  then show ?thesis
    using close_law [OF assms(1,2)] assms(2,3) by (auto simp: counts_def)
qed

lemma counts_others:
  assumes "ok s" "i < size_of s" "counts s f"
  shows "\<exists>t. fail_op i s = Ok t \<and> ok t \<and> size_of t = size_of s \<and> counts t f"
    and "\<exists>t. heal_op i s = Ok t \<and> ok t \<and> size_of t = size_of s \<and> counts t f"
    and "\<exists>t. set_op i x s = Ok t \<and> ok t \<and> size_of t = size_of s \<and> counts t f"
  using fail_law [OF assms(1,2)] heal_law [OF assms(1,2)] set_law [OF assms(1,2), of x] assms(3)
  by (auto simp: counts_def)

text \<open>A connection that is opened and closed leaves every count as it was.\<close>

lemma open_close:
  assumes "ok s" "i < size_of s" "active s i \<noteq> - 1"
  shows "\<exists>t. chain (open_op i s) (close_op i) = Ok t \<and> ok t \<and> active t = active s"
proof -
  from open_law [OF assms(1,2)] obtain u where u: "open_op i s = Ok u" "ok u" "size_of u = size_of s"
    "active u = (active s)(i := active s i + 1)" by blast
  from close_law [of u i] u assms(2) obtain t where "close_op i u = Ok t" "ok t"
    "active t = (active u)(i := saturating_dec (active u i))" by auto
  moreover have "(active u)(i := saturating_dec (active u i)) = active s"
    using u(4) saturating_dec_inc [OF assms(3)] by simp
  ultimately show ?thesis using u(1) by simp
qed

end

definition slot :: "'a list \<Rightarrow> 'a \<Rightarrow> nat \<Rightarrow> 'a" where
  "slot xs d i = (if i < length xs then xs ! i else d)"

lemma slot_update: "i < length xs \<Longrightarrow> slot (xs[i := v]) d = (slot xs d)(i := v)"
  by (auto simp: slot_def)

definition active_of :: "scheduler \<Rightarrow> nat \<Rightarrow> u64" where
  "active_of s = slot (s_active s) 0"

definition failures_of :: "scheduler \<Rightarrow> nat \<Rightarrow> u32" where
  "failures_of s = slot (s_failures s) 0"

definition state_in :: "scheduler \<Rightarrow> nat \<Rightarrow> backend_state" where
  "state_in s = slot (s_states s) Up"

lemmas scheduler_op_defs = mark_open_def mark_closed_def mark_failure_def mark_healthy_def set_state_def

lemmas scheduler_views = active_of_def failures_of_def state_in_def

interpretation sched: backend_pool wf_scheduler backend_count active_of failures_of state_in
  mark_open mark_closed mark_failure mark_healthy set_state
proof unfold_locales
  fix s i x
  assume wf: "wf_scheduler s" and i: "i < backend_count s"
  note this' = wf [unfolded wf_scheduler_def] i [unfolded backend_count_def]
  show "\<exists>t. mark_open i s = Ok t \<and> wf_scheduler t \<and> backend_count t = backend_count s \<and>
      active_of t = (active_of s)(i := active_of s i + 1) \<and>
      failures_of t = failures_of s \<and> state_in t = state_in s"
    using this' by (auto simp: mark_open_def wf_scheduler_def backend_count_def scheduler_views
        slot_update) (simp add: slot_def)
  show "\<exists>t. mark_closed i s = Ok t \<and> wf_scheduler t \<and> backend_count t = backend_count s \<and>
      active_of t = (active_of s)(i := saturating_dec (active_of s i)) \<and>
      failures_of t = failures_of s \<and> state_in t = state_in s"
    using this' by (auto simp: mark_closed_def wf_scheduler_def backend_count_def scheduler_views
        slot_update) (simp add: slot_def)
  show "\<exists>t. mark_failure i s = Ok t \<and> wf_scheduler t \<and> backend_count t = backend_count s \<and>
      active_of t = active_of s \<and>
      failures_of t = (failures_of s)(i := failures_of s i + 1) \<and> state_in t = state_in s"
    using this' by (auto simp: mark_failure_def wf_scheduler_def backend_count_def scheduler_views
        slot_update) (simp add: slot_def)
  show "\<exists>t. mark_healthy i s = Ok t \<and> wf_scheduler t \<and> backend_count t = backend_count s \<and>
      active_of t = active_of s \<and> failures_of t = (failures_of s)(i := 0) \<and>
      state_in t = (if state_in s i = Down then (state_in s)(i := Up) else state_in s)"
    using this' by (auto simp: mark_healthy_def set_state_def Let_def state_at_def
        checked_get_def wf_scheduler_def backend_count_def scheduler_views slot_update)
      (simp_all add: slot_def)
  show "\<exists>t. set_state i x s = Ok t \<and> wf_scheduler t \<and> backend_count t = backend_count s \<and>
      active_of t = active_of s \<and> failures_of t = failures_of s \<and>
      state_in t = (state_in s)(i := x)"
    using this' by (auto simp: set_state_def wf_scheduler_def backend_count_def scheduler_views
        slot_update)
qed

section \<open>Properties of selection\<close>

lemma select_Some:
  "select draw s = (Some b, s') \<Longrightarrow>
    routable s (sel_index b) \<and> b = selected_at s (sel_index b)"
  using lc_scan_least [of s]
  by (auto simp: select_def rr_scan_Some selected_at_def least_upto_def p2c_scan_routable
      split: if_splits option.splits)

lemma select_lc:
  "s_policy s = LeastConnections \<Longrightarrow> s_backends s \<noteq> [] \<Longrightarrow>
    select draw s = (map_option (selected_at s) (lc_scan s), s)"
  by (simp add: select_def)

lemma select_rr:
  "s_policy s = RoundRobin \<Longrightarrow> s_backends s \<noteq> [] \<Longrightarrow>
    select draw s = (map_option (selected_at s) (rr_scan s (s_next s)), s\<lparr>s_next := s_next s + 1\<rparr>)"
  by (simp add: select_def)

text \<open>
  C10. Whatever the policy, the counters and the random draws, a backend that \<open>select\<close>
  returns is one of the configured backends, is up, and comes with its own endpoint.
\<close>

theorem select_sound:
  assumes "wf_scheduler s" and "select draw s = (Some b, s')"
  shows "sel_index b < backend_count s \<and> state_at s (sel_index b) = Inr Up \<and>
    sel_endpoint b = s_backends s ! sel_index b"
  using select_Some [OF assms(2)] routable_bound [OF assms(1)]
  by (auto simp: routable_def selected_at_def backend_count_def) (metis selected_backend.select_convs(2))

definition three_backends :: "endpoint list" where
  "three_backends = [\<lparr>host = ''127.0.0.1'', port = 9101\<rparr>, \<lparr>host = ''127.0.0.1'', port = 9102\<rparr>,
     \<lparr>host = ''127.0.0.1'', port = 9103\<rparr>]"

definition only_last_up :: scheduler where
  "only_last_up = (new_scheduler three_backends RoundRobin)\<lparr>s_states := [Down, Draining, Up]\<rparr>"

lemmas scheduler_eval = select_def rr_scan_def rr_index_def lc_scan_def lc_better_def routable_def
  state_at_def checked_get_def new_scheduler_def three_backends_def only_last_up_def
  selected_at_def upt_rec

lemma only_last_up_wf: "wf_scheduler only_last_up"
  by (simp add: only_last_up_def wf_scheduler_def new_scheduler_def three_backends_def)

lemma only_last_up_select: "select (\<lambda>_. 0) only_last_up =
    (Some \<lparr>sel_index = 2, sel_endpoint = \<lparr>host = ''127.0.0.1'', port = 9103\<rparr>\<rparr>,
     only_last_up\<lparr>s_next := 1\<rparr>)"
  by (simp add: scheduler_eval)

theorem select_sound_witness:
  "(2::nat) < backend_count only_last_up \<and> state_at only_last_up 2 = Inr Up \<and>
    \<lparr>host = ''127.0.0.1'', port = 9103\<rparr> = s_backends only_last_up ! 2"
  using select_sound [OF only_last_up_wf only_last_up_select] by simp

text \<open>
  C11. \<open>select\<close> gives up only when there is nothing to select: it returns no backend exactly
  when no backend is up. For round-robin this needs the rotation counter not to wrap around
  during the scan; the other two policies need nothing, because power-of-two-choices falls back
  to a full scan when all its draws miss.
\<close>

theorem select_complete:
  assumes wf: "wf_scheduler s"
    and no_wrap: "s_policy s \<noteq> RoundRobin \<or> unat (s_next s) + backend_count s \<le> 2 ^ 64"
  shows "fst (select draw s) = None \<longleftrightarrow> (\<forall>i < backend_count s. state_at s i \<noteq> Inr Up)"
proof -
  have lc: "lc_scan s = None \<longleftrightarrow> (\<forall>i < backend_count s. \<not> routable s i)"
    using lc_scan_least [of s] wf
    by (auto simp: least_upto_def wf_scheduler_def backend_count_def split: option.splits)
  have rr: "rr_scan s (s_next s) = None \<longleftrightarrow> (\<forall>i < backend_count s. \<not> routable s i)"
    if "s_policy s = RoundRobin" "s_backends s \<noteq> []"
    using that no_wrap rr_index_covers [of "s_next s" s] rr_index_bound [of s "s_next s"]
    by (simp add: rr_scan_None backend_count_def) metis
  have p2c: "p2c_scan s (drawn s draw) 0 (length (s_backends s) * 2) = Some i \<Longrightarrow>
      \<exists>i < backend_count s. routable s i" for i
    using p2c_scan_routable routable_bound [OF wf] by (metis backend_count_def)
  show ?thesis
    using lc rr p2c by (auto simp: select_def routable_def backend_count_def split: option.splits)
qed

theorem select_complete_witness:
  "fst (select (\<lambda>_. 0) (only_last_up\<lparr>s_policy := PowerOfTwoChoices\<rparr>)) = None \<longleftrightarrow>
    (\<forall>i < backend_count (only_last_up\<lparr>s_policy := PowerOfTwoChoices\<rparr>).
       state_at (only_last_up\<lparr>s_policy := PowerOfTwoChoices\<rparr>) i \<noteq> Inr Up)"
  by (rule select_complete)
    (simp_all add: only_last_up_def wf_scheduler_def new_scheduler_def three_backends_def)

text \<open>
  The rotation counter wraps around. At its last value the sum \<open>start + offset\<close> is
  taken modulo \<open>2 ^ 64\<close> before the remainder, so with three backends the scan visits
  indexes 0, 0 and 1: a call finds no backend although the third one is up.
\<close>

theorem rr_wrap_misses_backend:
  "let s = only_last_up\<lparr>s_next := - 1\<rparr> in
    fst (select draw s) = None \<and> state_at s 2 = Inr Up \<and>
    map (rr_index s (s_next s)) [0, 1, 2] = [0, 0, 1]"
  by (simp add: scheduler_eval unat_max_u64)

text \<open>
  C22. Least-connections returns a backend with the fewest open connections among those that are
  up, and among equals the one with the lowest index. It changes nothing.
\<close>

theorem least_connections_least:
  assumes "wf_scheduler s" and "s_policy s = LeastConnections" and "select draw s = (Some b, s')"
  shows "s' = s \<and>
    (\<forall>j < backend_count s. state_at s j = Inr Up \<longrightarrow>
       s_active s ! sel_index b \<le> s_active s ! j \<and>
       (j < sel_index b \<longrightarrow> s_active s ! sel_index b < s_active s ! j))"
proof -
  have "s_backends s \<noteq> []" using assms(3) by (auto simp: select_def)
  from select_lc [OF assms(2) this, of draw] assms(3)
  have sel: "map_option (selected_at s) (lc_scan s) = Some b" and same: "s' = s"
    by (metis prod.inject)+
  from sel obtain i where i: "lc_scan s = Some i" "b = selected_at s i"
    by (auto simp: map_option_eq_Some)
  have n: "length (s_active s) = backend_count s"
    using assms(1) by (simp add: wf_scheduler_def backend_count_def)
  have least: "\<forall>j < backend_count s. routable s j \<longrightarrow> s_active s ! i \<le> s_active s ! j"
      "\<forall>j < i. routable s j \<longrightarrow> s_active s ! i < s_active s ! j"
    using lc_scan_least [of s] unfolding least_upto_def i(1) n by simp_all
  have "sel_index b = i" by (simp add: i(2) selected_at_def)
  with same least show ?thesis by (simp only: routable_def) blast
qed

definition loaded :: scheduler where
  "loaded = (new_scheduler three_backends LeastConnections)\<lparr>s_active := [7, 2, 2]\<rparr>"

theorem least_connections_least_witness:
  "s_active loaded ! 1 < s_active loaded ! 0 \<and> s_active loaded ! 1 \<le> s_active loaded ! 2"
proof -
  have wf: "wf_scheduler loaded" and lc: "s_policy loaded = LeastConnections"
    by (simp_all add: loaded_def wf_scheduler_def new_scheduler_def three_backends_def)
  have sel: "select (\<lambda>_. 0) loaded = (Some (selected_at loaded 1), loaded)"
    by (simp add: scheduler_eval loaded_def)
  have "sel_index (selected_at loaded 1) = 1" by (simp add: selected_at_def)
  with least_connections_least [OF wf lc sel] have
    least: "\<forall>j < backend_count loaded. state_at loaded j = Inr Up \<longrightarrow>
      s_active loaded ! 1 \<le> s_active loaded ! j \<and> (j < 1 \<longrightarrow> s_active loaded ! 1 < s_active loaded ! j)"
    by (simp only: simp_thms)
  have up: "j < 3 \<Longrightarrow> j < backend_count loaded \<and> state_at loaded j = Inr Up" for j
    by (auto simp: loaded_def new_scheduler_def three_backends_def backend_count_def
        state_at_def checked_get_def less_Suc_eq numeral_3_eq_3)
  show ?thesis
    using least [THEN spec, of 0] least [THEN spec, of 2] up [of 0] up [of 2] by (intro conjI; simp)
qed

text \<open>
  One round-robin call, as long as the counter does not wrap: it takes the first backend
  that is up in the cyclic order that starts at the counter, and it always advances the counter
  by one, also when it finds nothing.
\<close>

theorem round_robin_next:
  assumes "wf_scheduler s" and "s_policy s = RoundRobin" and "s_backends s \<noteq> []"
    and "unat (s_next s) + backend_count s \<le> 2 ^ 64"
  shows "snd (select draw s) = s\<lparr>s_next := s_next s + 1\<rparr> \<and>
    (\<forall>b. fst (select draw s) = Some b \<longleftrightarrow>
      (\<exists>k < backend_count s. b = selected_at s ((unat (s_next s) + k) mod backend_count s) \<and>
        state_at s (sel_index b) = Inr Up \<and>
        (\<forall>j < k. state_at s ((unat (s_next s) + j) mod backend_count s) \<noteq> Inr Up)))"
proof -
  have idx: "rr_index s (s_next s) k = (unat (s_next s) + k) mod backend_count s"
    if "k < backend_count s" for k
    using rr_index_no_wrap [of "s_next s" k s] assms(4) that by (simp add: backend_count_def)
  have "fst (select draw s) = Some b \<longleftrightarrow>
      (\<exists>i. b = selected_at s i \<and> rr_scan s (s_next s) = Some i)" for b
    by (auto simp: select_rr assms)
  moreover have "rr_scan s (s_next s) = Some i \<longleftrightarrow>
      (\<exists>k < backend_count s. i = (unat (s_next s) + k) mod backend_count s \<and> routable s i \<and>
        (\<forall>j < k. \<not> routable s ((unat (s_next s) + j) mod backend_count s)))" for i
    using idx by (auto simp: rr_scan_Some backend_count_def)
  ultimately show ?thesis
    by (auto simp: select_rr assms routable_def selected_at_def)
qed

theorem round_robin_next_witness:
  "snd (select (\<lambda>_. 0) only_last_up) = only_last_up\<lparr>s_next := 1\<rparr>"
  using round_robin_next [OF only_last_up_wf, of "\<lambda>_. 0"]
  by (simp add: only_last_up_def new_scheduler_def three_backends_def backend_count_def)

text \<open>Consecutive calls, with the indexes they return.\<close>

fun select_times :: "nat \<Rightarrow> scheduler \<Rightarrow> nat option list" where
  "select_times 0 s = []"
| "select_times (Suc m) s =
     (let (b, s') = select (\<lambda>_. 0) s in map_option sel_index b # select_times m s')"

definition all_up :: "scheduler \<Rightarrow> bool" where
  "all_up s \<longleftrightarrow> (\<forall>i < backend_count s. routable s i)"

lemma rr_all_up:
  assumes "all_up s" "s_policy s = RoundRobin" "s_backends s \<noteq> []"
  shows "select draw s = (Some (selected_at s (unat (s_next s) mod backend_count s)),
    s\<lparr>s_next := s_next s + 1\<rparr>)"
proof -
  have "rr_index s (s_next s) 0 = unat (s_next s) mod backend_count s"
    by (simp add: rr_index_def backend_count_def)
  moreover have "routable s (unat (s_next s) mod backend_count s)"
    using assms by (simp add: all_up_def backend_count_def)
  ultimately have "rr_scan s (s_next s) = Some (unat (s_next s) mod backend_count s)"
    using assms(3) by (auto simp: rr_scan_Some intro!: exI [of _ "0::nat"])
  then show ?thesis by (simp add: select_rr assms)
qed

lemma select_times_rr:
  assumes "all_up s" "s_policy s = RoundRobin" "s_backends s \<noteq> []" "unat (s_next s) + m \<le> 2 ^ 64"
  shows "select_times m s = map (\<lambda>k. Some ((unat (s_next s) + k) mod backend_count s)) [0..<m]"
  using assms
proof (induction m arbitrary: s)
  case 0
  then show ?case by simp
next
  case (Suc m)
  let ?s = "s\<lparr>s_next := s_next s + 1\<rparr>"
  have same: "all_up ?s" "s_policy ?s = RoundRobin" "s_backends ?s \<noteq> []"
    using Suc.prems by (auto simp: all_up_def routable_def state_at_def backend_count_def)
  have "select_times m ?s = map (\<lambda>k. Some ((unat (s_next s) + Suc k) mod backend_count s)) [0..<m]"
  proof (cases m)
    case 0
    then show ?thesis by simp
  next
    case (Suc m')
    with Suc.prems(4) have next': "unat (s_next ?s) = Suc (unat (s_next s))"
      by (simp add: unat_plus_1_u64)
    with Suc.prems(4) have "unat (s_next ?s) + m \<le> 2 ^ 64" by simp
    from Suc.IH [OF same this] next' show ?thesis by (simp add: backend_count_def)
  qed
  then show ?case
    using Suc.prems by (simp add: rr_all_up selected_at_def upt_conv_Cons map_Suc_upt [symmetric]
        del: upt_Suc)
qed

lemma window_rotation: "map (\<lambda>k. (a + k) mod n) [0..<n] = rotate a [0..<n]"
  by (rule nth_equalityI) (auto simp: nth_rotate add.commute)

lemma count_list_distinct: "distinct xs \<Longrightarrow> count_list xs x = (if x \<in> set xs then 1 else 0)"
  by (induction xs) auto

lemma count_window: "i < n \<Longrightarrow> count_list (map (\<lambda>k. (a + k) mod n) [0..<n]) i = 1"
  by (simp add: window_rotation count_list_distinct)

lemma count_windows: "i < n \<Longrightarrow> count_list (map (\<lambda>k. (a + k) mod n) [0..<q * n]) i = q"
proof (induction q)
  case 0
  then show ?case by simp
next
  case (Suc q)
  have "[0..<Suc q * n] = [0..<q * n] @ [q * n..<q * n + n]"
    by (subst upt_add_eq_append [symmetric]) (simp_all add: add.commute)
  also have "[q * n..<q * n + n] = map (\<lambda>k. k + q * n) [0..<n]"
    by (subst map_add_upt) (simp add: add.commute)
  finally have "map (\<lambda>k. (a + k) mod n) [0..<Suc q * n] =
      map (\<lambda>k. (a + k) mod n) [0..<q * n] @ map (\<lambda>k. (a + k) mod n) [0..<n]"
    by (simp add: comp_def add.assoc [symmetric] del: upt_Suc mult_Suc)
  with Suc show ?case by (simp add: count_window del: upt_Suc mult_Suc)
qed

lemma count_list_map_Some: "count_list (map Some xs) (Some i) = count_list xs i"
  by (induction xs) auto

text \<open>
  C12. Round-robin is fair: while every backend is up, any \<open>q * n\<close> consecutive calls on
  \<open>n\<close> backends return every backend exactly \<open>q\<close> times, whatever the counter was at
  the start, as long as it does not wrap around on the way.
\<close>

theorem round_robin_fair:
  assumes "all_up s" and "s_policy s = RoundRobin" and "i < backend_count s"
    and "unat (s_next s) + q * backend_count s \<le> 2 ^ 64"
  shows "count_list (select_times (q * backend_count s) s) (Some i) = q"
proof -
  have ne: "s_backends s \<noteq> []" using assms(3) by (auto simp: backend_count_def)
  let ?idx = "map (\<lambda>k. (unat (s_next s) + k) mod backend_count s) [0..<q * backend_count s]"
  have "select_times (q * backend_count s) s = map Some ?idx"
    by (simp add: select_times_rr [OF assms(1,2) ne assms(4)])
  then show ?thesis
    by (simp only: count_list_map_Some count_windows [OF assms(3)])
qed

theorem round_robin_fair_witness:
  "count_list (select_times (5 * backend_count (new_scheduler three_backends RoundRobin))
     (new_scheduler three_backends RoundRobin)) (Some 2) = 5"
  by (rule round_robin_fair)
    (auto simp: all_up_def routable_iff backend_count_def new_scheduler_def three_backends_def
      nth_Cons' split: if_splits)

text \<open>The attempt \<open>k\<close> of power-of-two-choices draws a backend that is up.\<close>

definition p2c_hit :: "scheduler \<Rightarrow> (nat \<Rightarrow> nat) \<Rightarrow> nat \<Rightarrow> bool" where
  "p2c_hit s draw k \<longleftrightarrow> routable s (draw (2 * k)) \<or> routable s (draw (2 * k + 1))"

definition p2c_best :: "scheduler \<Rightarrow> (nat \<Rightarrow> nat) \<Rightarrow> nat \<Rightarrow> nat \<Rightarrow> bool" where
  "p2c_best s draw k i \<longleftrightarrow> i \<in> {draw (2 * k), draw (2 * k + 1)} \<and> routable s i \<and>
     (\<forall>j \<in> {draw (2 * k), draw (2 * k + 1)}. routable s j \<longrightarrow> s_active s ! i \<le> s_active s ! j)"

lemma p2c_scan_spec:
  "case p2c_scan s draw k m of
     None \<Rightarrow> \<forall>a. k \<le> a \<and> a < k + m \<longrightarrow> \<not> p2c_hit s draw a
   | Some i \<Rightarrow> \<exists>a. k \<le> a \<and> a < k + m \<and> (\<forall>b. k \<le> b \<and> b < a \<longrightarrow> \<not> p2c_hit s draw b) \<and>
       p2c_best s draw a i"
proof (induction s draw k m rule: p2c_scan.induct)
  case (1 s draw k)
  then show ?case by auto
next
  case (2 s draw k m)
  show ?case
  proof (cases "p2c_hit s draw k")
    case True
    then have "case p2c_scan s draw k (Suc m) of None \<Rightarrow> False | Some i \<Rightarrow> p2c_best s draw k i"
      by (auto simp: Let_def p2c_hit_def p2c_best_def)
    then show ?thesis
      by (auto split: option.splits intro!: exI [of _ k])
  next
    case False
    then have "p2c_scan s draw k (Suc m) = p2c_scan s draw (Suc k) m"
      by (simp add: p2c_hit_def Let_def)
    moreover have "(k \<le> a \<and> a < k + Suc m) \<longleftrightarrow> (a = k \<or> Suc k \<le> a \<and> a < Suc k + m)" for a
      by auto
    ultimately show ?thesis
      using "2.IH" False by (auto simp: p2c_hit_def Let_def Suc_le_eq split: option.splits)
        (metis le_neq_implies_less)+
  qed
qed

text \<open>
  In general the first attempt that draws a backend that is up decides, and of its two draws the one
  that is up and has fewer open connections wins; one draw that is up is enough, while the README
  speaks of two. Only when all \<open>2 n\<close> attempts draw nothing but backends that are not up does the
  call choose like least-connections.
\<close>

lemma p2c_decides:
  assumes "s_policy s = PowerOfTwoChoices" and "backend_count s > 1"
    and "select draw s = (Some b, s')"
  shows "s' = s \<and>
    ((\<exists>k < 2 * backend_count s. p2c_best s (drawn s draw) k (sel_index b) \<and> (\<forall>j < k. \<not> p2c_hit s (drawn s draw) j)) \<or>
     (\<forall>k < 2 * backend_count s. \<not> p2c_hit s (drawn s draw) k) \<and> lc_scan s = Some (sel_index b))"
proof -
  let ?scan = "p2c_scan s (drawn s draw) 0 (length (s_backends s) * 2)"
  have "s_backends s \<noteq> []" "1 < length (s_backends s)" using assms(2) by (auto simp: backend_count_def)
  then have sel: "select draw s = (case ?scan of Some i \<Rightarrow> (Some (selected_at s i), s)
      | None \<Rightarrow> (map_option (selected_at s) (lc_scan s), s))"
    using assms(1) by (simp add: select_def)
  show ?thesis
  proof (cases ?scan)
    case None
    then have "\<forall>k < 2 * backend_count s. \<not> p2c_hit s (drawn s draw) k"
      using p2c_scan_spec [where s = s and draw = "drawn s draw" and k = 0 and m = "length (s_backends s) * 2"]
      by (simp add: backend_count_def mult.commute)
    with None sel assms(3) show ?thesis
      by (cases "lc_scan s") (auto simp: selected_at_def)
  next
    case (Some i)
    with sel assms(3) have "sel_index b = i" "s' = s" by (auto simp: selected_at_def)
    with Some show ?thesis
      using p2c_scan_spec [where s = s and draw = "drawn s draw" and k = 0 and m = "length (s_backends s) * 2"]
      by (auto simp: backend_count_def mult.commute)
  qed
qed

lemma p2c_scan_pair:
  assumes "a \<le> k" and "k < a + m" and "\<forall>j. a \<le> j \<and> j < k \<longrightarrow> \<not> p2c_hit s draw j"
    and "routable s (draw (2 * k))" "routable s (draw (2 * k + 1))"
  shows "p2c_scan s draw a m =
    Some (if s_active s ! draw (2 * k) \<le> s_active s ! draw (2 * k + 1) then draw (2 * k) else draw (2 * k + 1))"
  using assms(1-3)
proof (induction m arbitrary: a)
  case (Suc m)
  show ?case
  proof (cases "a = k")
    case True
    with assms(4,5) show ?thesis by (simp add: Let_def)
  next
    case False
    with Suc.prems have "\<not> p2c_hit s draw a" "p2c_scan s draw (Suc a) m =
        Some (if s_active s ! draw (2 * k) \<le> s_active s ! draw (2 * k + 1) then draw (2 * k) else draw (2 * k + 1))"
      using Suc.IH [of "Suc a"] by auto
    then show ?thesis by (simp add: p2c_hit_def Let_def)
  qed
qed simp

text \<open>
  C21. Power-of-two-choices is what its name says. On two or more backends the call draws pairs of
  backends. When two backends that are up have been drawn, and no earlier pair had one that is up, it
  returns the one of the two with fewer open connections, the first one when they have
  equally many, and changes nothing. In particular, when all backends are up the first two draws decide.
\<close>

theorem power_of_two_choices:
  assumes "s_policy s = PowerOfTwoChoices" and "backend_count s > 1" and "k < 2 * backend_count s"
    and "\<forall>j < k. \<not> routable s (drawn s draw (2 * j)) \<and> \<not> routable s (drawn s draw (2 * j + 1))"
    and "drawn s draw (2 * k) = first" and "drawn s draw (2 * k + 1) = second"
    and "routable s first" and "routable s second"
  shows "select draw s = (Some \<lparr>sel_index = (if s_active s ! first \<le> s_active s ! second then first else second),
      sel_endpoint = s_backends s ! (if s_active s ! first \<le> s_active s ! second then first else second)\<rparr>, s)"
proof -
  have n: "s_backends s \<noteq> []" "1 < length (s_backends s)" using assms(2) by (auto simp: backend_count_def)
  have "p2c_scan s (drawn s draw) 0 (length (s_backends s) * 2) =
      Some (if s_active s ! first \<le> s_active s ! second then first else second)"
    using p2c_scan_pair [of 0 k "length (s_backends s) * 2" s "drawn s draw"] assms
    by (simp add: p2c_hit_def backend_count_def mult.commute)
  with n assms(1) show ?thesis by (simp add: select_def selected_at_def)
qed

definition p2c_loaded :: scheduler where
  "p2c_loaded = (new_scheduler three_backends PowerOfTwoChoices)
     \<lparr>s_active := [4, 9, 1], s_states := [Up, Up, Down]\<rparr>"

text \<open>First twice the backend that is down, then the other two.\<close>

definition draws :: "nat \<Rightarrow> nat" where
  "draws k = (if k < 2 then 2 else if k = 2 then 1 else 0)"

theorem power_of_two_choices_witness:
  "select draws p2c_loaded = (Some \<lparr>sel_index = 0, sel_endpoint = three_backends ! 0\<rparr>, p2c_loaded)"
proof -
  have s: "s_policy p2c_loaded = PowerOfTwoChoices" "backend_count p2c_loaded = 3" "s_active p2c_loaded = [4, 9, 1]"
    "s_backends p2c_loaded = three_backends"
    by (simp_all add: p2c_loaded_def new_scheduler_def backend_count_def three_backends_def)
  have r: "\<not> routable p2c_loaded 2" "routable p2c_loaded 1" "routable p2c_loaded 0"
    by (simp_all add: p2c_loaded_def routable_iff)
  have d: "drawn p2c_loaded draws 0 = 2" "drawn p2c_loaded draws 1 = 2" "drawn p2c_loaded draws 2 = 1"
    "drawn p2c_loaded draws 3 = 0"
    by (simp_all add: drawn_def draws_def s(4) three_backends_def)
  show ?thesis
    using power_of_two_choices [of p2c_loaded 1 draws 1 0] s r d by simp
qed

section \<open>Properties of the counters\<close>

lemmas accessor_defs = active_connections_def total_connections_def error_count_def
  consecutive_failures_def state_at_def backend_endpoint_def checked_get_def

text \<open>
  Every operation and every accessor checks its index: outside the pool all of them refuse
  with \<open>out_of_range\<close>, and the operations change nothing.
\<close>

theorem index_refused:
  assumes "wf_scheduler s" and "i \<ge> backend_count s"
  shows "mark_open i s = Throw index_error s \<and> mark_closed i s = Throw index_error s \<and>
      mark_failure i s = Throw index_error s \<and> mark_healthy i s = Throw index_error s \<and>
      set_state i x s = Throw index_error s \<and>
      active_connections s i = Inl index_error \<and> total_connections s i = Inl index_error \<and>
      error_count s i = Inl index_error \<and> consecutive_failures s i = Inl index_error \<and>
      state_at s i = Inl index_error \<and> backend_endpoint s i = Inl index_error"
  using assms
  by (simp add: scheduler_op_defs wf_scheduler_def backend_count_def accessor_defs)

theorem index_refused_witness:
  "mark_open 3 only_last_up = Throw index_error only_last_up"
  using index_refused [OF only_last_up_wf, of 3]
  by (simp add: backend_count_def only_last_up_def new_scheduler_def three_backends_def)

text \<open>The operations as data, and a history of them from some state.\<close>

datatype pool_event =
    Opened nat
  | Closed nat
  | Failed nat
  | Healed nat
  | StateSet nat backend_state

fun event_index :: "pool_event \<Rightarrow> nat" where
  "event_index (Opened i) = i"
| "event_index (Closed i) = i"
| "event_index (Failed i) = i"
| "event_index (Healed i) = i"
| "event_index (StateSet i _) = i"

fun apply_event :: "pool_event \<Rightarrow> scheduler \<Rightarrow> scheduler out" where
  "apply_event (Opened i) s = mark_open i s"
| "apply_event (Closed i) s = mark_closed i s"
| "apply_event (Failed i) s = mark_failure i s"
| "apply_event (Healed i) s = mark_healthy i s"
| "apply_event (StateSet i x) s = set_state i x s"

fun apply_events :: "pool_event list \<Rightarrow> scheduler \<Rightarrow> scheduler out" where
  "apply_events [] s = Ok s"
| "apply_events (e # es) s = chain (apply_event e s) (apply_events es)"

text \<open>In every prefix of the history, no backend has more closes than opens.\<close>

fun balanced_from :: "nat \<Rightarrow> nat \<Rightarrow> pool_event list \<Rightarrow> bool" where
  "balanced_from i n [] = True"
| "balanced_from i n (e # es) =
     (if e = Opened i then balanced_from i (Suc n) es
      else if e = Closed i then n > 0 \<and> balanced_from i (n - 1) es
      else balanced_from i n es)"

lemma apply_event_in_range:
  assumes "wf_scheduler s" and "event_index e < backend_count s"
  shows "\<exists>t. apply_event e s = Ok t \<and> wf_scheduler t \<and> backend_count t = backend_count s \<and>
    (\<forall>i < backend_count s.
       active_of t i = (if e = Opened i then active_of s i + 1
         else if e = Closed i then saturating_dec (active_of s i) else active_of s i) \<and>
       s_total t ! i = (if e = Opened i then s_total s ! i + 1 else s_total s ! i) \<and>
       s_errors t ! i = (if e = Failed i then s_errors s ! i + 1 else s_errors s ! i))"
  using assms
  by (cases e) (auto simp: scheduler_op_defs wf_scheduler_def backend_count_def Let_def accessor_defs
      active_of_def slot_def nth_list_update)

lemma saturating_dec_of_nat:
  assumes "0 < n" "n < 2 ^ 64"
  shows "saturating_dec (of_nat n) = of_nat (n - 1)"
proof -
  from assms(1) obtain m where n: "n = Suc m" by (cases n) auto
  have "unat (of_nat m :: u64) = m" by (rule unat_of_nat_u64) (use assms(2) n in simp)
  then have "(of_nat m :: u64) \<noteq> - 1"
    using assms(2) n unat_max_u64 by fastforce
  from saturating_dec_inc [OF this] show ?thesis by (simp add: n add.commute)
qed

lemma events_account:
  assumes "wf_scheduler s" and "\<forall>e \<in> set es. event_index e < backend_count s"
    and "i < backend_count s" and "active_of s i = of_nat n" and "balanced_from i n es"
    and "n + length es < 2 ^ 64"
  shows "\<exists>t. apply_events es s = Ok t \<and> wf_scheduler t \<and> backend_count t = backend_count s \<and>
    active_of t i = of_nat (n + count_list es (Opened i) - count_list es (Closed i)) \<and>
    s_total t ! i = s_total s ! i + of_nat (count_list es (Opened i)) \<and>
    s_errors t ! i = s_errors s ! i + of_nat (count_list es (Failed i))"
  using assms
proof (induction es arbitrary: s n)
  case Nil
  then show ?case by simp
next
  case (Cons e es)
  have "event_index e < backend_count s" using Cons.prems(2) by simp
  from apply_event_in_range [OF Cons.prems(1) this] obtain u where
    u: "apply_event e s = Ok u" "wf_scheduler u" "backend_count u = backend_count s" and
    all: "\<forall>i < backend_count s.
       active_of u i = (if e = Opened i then active_of s i + 1
         else if e = Closed i then saturating_dec (active_of s i) else active_of s i) \<and>
       s_total u ! i = (if e = Opened i then s_total s ! i + 1 else s_total s ! i) \<and>
       s_errors u ! i = (if e = Failed i then s_errors s ! i + 1 else s_errors s ! i)"
    by blast
  note eff = all [rule_format, OF Cons.prems(3), THEN conjunct1]
    all [rule_format, OF Cons.prems(3), THEN conjunct2, THEN conjunct1]
    all [rule_format, OF Cons.prems(3), THEN conjunct2, THEN conjunct2]
  define m where "m = (if e = Opened i then Suc n else if e = Closed i then n - 1 else n)"
  have "active_of u i = of_nat m"
    using eff(1) Cons.prems(4-6) by (auto simp: m_def saturating_dec_of_nat split: if_splits)
  moreover have "balanced_from i m es" "m + length es < 2 ^ 64"
    using Cons.prems(5,6) by (auto simp: m_def split: if_splits)
  ultimately obtain t where t: "apply_events es u = Ok t" "wf_scheduler t"
    "backend_count t = backend_count s"
    "active_of t i = of_nat (m + count_list es (Opened i) - count_list es (Closed i))"
    "s_total t ! i = s_total u ! i + of_nat (count_list es (Opened i))"
    "s_errors t ! i = s_errors u ! i + of_nat (count_list es (Failed i))"
    using Cons.IH [of u m] u Cons.prems(2,3) by auto
  moreover have "m + count_list es (Opened i) - count_list es (Closed i) =
      n + count_list (e # es) (Opened i) - count_list (e # es) (Closed i)"
    using Cons.prems(5) by (auto simp: m_def split: if_splits)
  ultimately show ?case using u(1) eff(2,3) by auto
qed

text \<open>
  The counters count. Take any history of operations on a new scheduler, with indexes in
  range: it never throws; the total and the error counter of a backend are its numbers of opens
  and of failures modulo \<open>2 ^ 64\<close>; and if no prefix of the history closes more of its
  connections than were opened, its active counter is exactly the opens minus the closes.
\<close>

theorem counters_count:
  assumes "length bs < 2 ^ 64" and "\<forall>e \<in> set es. event_index e < length bs" and "i < length bs"
    and "balanced_from i 0 es" and "length es < 2 ^ 64"
  shows "\<exists>t. apply_events es (new_scheduler bs p) = Ok t \<and> wf_scheduler t \<and>
    active_connections t i = Inr (of_nat (count_list es (Opened i) - count_list es (Closed i))) \<and>
    total_connections t i = Inr (of_nat (count_list es (Opened i))) \<and>
    error_count t i = Inr (of_nat (count_list es (Failed i)))"
proof -
  let ?s = "new_scheduler bs p"
  have "active_of ?s i = of_nat 0" "s_total ?s ! i = 0" "s_errors ?s ! i = 0" "backend_count ?s = length bs"
    using assms(3) by (simp_all add: active_of_def slot_def new_scheduler_def backend_count_def)
  with events_account [OF wf_new_scheduler [OF assms(1)], of es p i 0] assms obtain t where
    t: "apply_events es ?s = Ok t" "wf_scheduler t" "backend_count t = length bs"
    "active_of t i = of_nat (count_list es (Opened i) - count_list es (Closed i))"
    "s_total t ! i = of_nat (count_list es (Opened i))"
    "s_errors t ! i = of_nat (count_list es (Failed i))"
    by auto
  with assms(3) show ?thesis
    by (auto simp: accessor_defs wf_scheduler_def backend_count_def active_of_def slot_def)
qed

theorem counters_count_witness:
  "\<exists>t. apply_events [Opened 0, Opened 1, Closed 0, Opened 1, Failed 1] (new_scheduler three_backends RoundRobin)
      = Ok t \<and> active_connections t 1 = Inr 2"
  using counters_count [of three_backends "[Opened 0, Opened 1, Closed 0, Opened 1, Failed 1]" 1 RoundRobin]
  by (auto simp: three_backends_def)

text \<open>
  Closing more connections than were opened does not underflow: the counter of a backend
  with no open connection stays at zero, however many closes follow, and opening and closing
  one connection gives the counters back.
\<close>

theorem close_never_underflows:
  "wf_scheduler s \<and> i < backend_count s \<Longrightarrow>
    (active_of s i = 0 \<longrightarrow> (\<exists>t. apply_events (replicate k (Closed i)) s = Ok t \<and> active_of t = active_of s)) \<and>
    (active_of s i \<noteq> - 1 \<longrightarrow> (\<exists>t. chain (mark_open i s) (mark_closed i) = Ok t \<and> active_of t = active_of s))"
proof (intro conjI impI)
  assume s: "wf_scheduler s \<and> i < backend_count s" and zero: "active_of s i = 0"
  show "\<exists>t. apply_events (replicate k (Closed i)) s = Ok t \<and> active_of t = active_of s"
    using s zero
  proof (induction k arbitrary: s)
    case 0
    then show ?case by simp
  next
    case (Suc k)
    then obtain u where "mark_closed i s = Ok u" "wf_scheduler u" "backend_count u = backend_count s"
      "active_of u = (active_of s)(i := saturating_dec (active_of s i))"
      using sched.close_law by blast
    with Suc.prems(2) have "active_of u = active_of s" by (auto simp: saturating_dec_def)
    with Suc \<open>mark_closed i s = Ok u\<close> \<open>wf_scheduler u\<close> \<open>backend_count u = backend_count s\<close>
    show ?case by (metis apply_event.simps(2) apply_events.simps(2) out_simps(3) replicate_Suc)
  qed
next
  assume "wf_scheduler s \<and> i < backend_count s" "active_of s i \<noteq> - 1"
  then show "\<exists>t. chain (mark_open i s) (mark_closed i) = Ok t \<and> active_of t = active_of s"
    using sched.open_close by blast
qed

theorem close_never_underflows_witness:
  "\<exists>t. apply_events (replicate 3 (Closed 0)) only_last_up = Ok t \<and> active_of t = active_of only_last_up"
proof -
  have "wf_scheduler only_last_up \<and> 0 < backend_count only_last_up" "active_of only_last_up 0 = 0"
    using only_last_up_wf
    by (simp_all add: only_last_up_def new_scheduler_def three_backends_def backend_count_def
        active_of_def slot_def)
  with close_never_underflows show ?thesis by blast
qed

end
