(* ===== verification/LB_Atomics.thy ===== *)
theory LB_Atomics
  imports LB_Scheduler
begin

text \<open>
  The lock-free updates of one shared atomic word, at the granularity of single atomic accesses.
  \<open>Scheduler::mark_closed\<close>, \<open>RuntimeState::record_connection_close\<close> and
  \<open>update_peak\<close> are loops around \<open>compare_exchange_weak\<close>; the other updates
  are one \<open>fetch_add\<close>. Any number of threads run one such update each on the same word,
  interleaved in any way, and a weak compare-exchange may fail for no reason. The component
  models treat each of these updates as one atomic step; this theory shows that they may.
\<close>

section \<open>The updates\<close>

datatype atomic_op = FetchAdd u64 | DecLoop | PeakLoop u64

text \<open>
  What a thread does with the value it has loaded: \<open>None\<close> when the loop condition is
  false and it leaves, \<open>Some v\<close> when it tries to store \<open>v\<close>.
\<close>

fun attempt :: "atomic_op \<Rightarrow> u64 \<Rightarrow> u64 option" where
  "attempt (FetchAdd k) current = Some (current + k)"
| "attempt DecLoop current = (if current > 0 then Some (current - 1) else None)"
| "attempt (PeakLoop v) current = (if v > current then Some v else None)"

definition update_peak :: "u64 \<Rightarrow> u64 \<Rightarrow> u64" where
  "update_peak v peak = (if v > peak then v else peak)"

text \<open>The effect of the whole update when nothing interferes.\<close>

fun atomic_effect :: "atomic_op \<Rightarrow> u64 \<Rightarrow> u64" where
  "atomic_effect (FetchAdd k) c = c + k"
| "atomic_effect DecLoop c = saturating_dec c"
| "atomic_effect (PeakLoop v) c = update_peak v c"

lemma atomic_effect_attempt:
  "atomic_effect p c = (case attempt p c of None \<Rightarrow> c | Some v \<Rightarrow> v)"
  by (cases p) (auto simp: saturating_dec_def update_peak_def)

section \<open>Threads and their steps\<close>

text \<open>
  A thread has not started, holds the value \<open>current\<close> it last loaded, or has returned.
  The log is a ghost: the threads in the order in which their updates took effect.
\<close>

datatype thread_pc = Start | Loop u64 | Done

record shared =
  cell :: u64
  pcs :: "nat \<Rightarrow> thread_pc"
  log :: "nat list"

definition initial :: "u64 \<Rightarrow> shared" where
  "initial v = \<lparr>cell = v, pcs = (\<lambda>_. Start), log = []\<rparr>"

definition load_into :: "atomic_op \<Rightarrow> nat \<Rightarrow> shared \<Rightarrow> shared" where
  "load_into p t s =
     s\<lparr>pcs := (pcs s)(t := Loop (cell s)),
       log := (if attempt p (cell s) = None then log s @ [t] else log s)\<rparr>"

inductive atomic_step :: "nat \<Rightarrow> (nat \<Rightarrow> atomic_op) \<Rightarrow> shared \<Rightarrow> shared \<Rightarrow> bool"
  for n prog where
  fetch_add: "t < n \<Longrightarrow> prog t = FetchAdd k \<Longrightarrow> pcs s t = Start \<Longrightarrow>
     atomic_step n prog s
       (s\<lparr>cell := cell s + k, pcs := (pcs s)(t := Done), log := log s @ [t]\<rparr>)"
| load: "t < n \<Longrightarrow> prog t \<in> {DecLoop} \<union> range PeakLoop \<Longrightarrow> pcs s t = Start \<Longrightarrow>
     atomic_step n prog s (load_into (prog t) t s)"
| leave: "t < n \<Longrightarrow> pcs s t = Loop current \<Longrightarrow> attempt (prog t) current = None \<Longrightarrow>
     atomic_step n prog s (s\<lparr>pcs := (pcs s)(t := Done)\<rparr>)"
| exchange: "t < n \<Longrightarrow> pcs s t = Loop current \<Longrightarrow> attempt (prog t) current = Some v \<Longrightarrow>
     cell s = current \<Longrightarrow>
     atomic_step n prog s (s\<lparr>cell := v, pcs := (pcs s)(t := Done), log := log s @ [t]\<rparr>)"
| fail: "t < n \<Longrightarrow> pcs s t = Loop current \<Longrightarrow> attempt (prog t) current = Some v \<Longrightarrow>
     atomic_step n prog s (load_into (prog t) t s)"

section \<open>Linearisation\<close>

text \<open>A thread whose update has taken effect, also when it has not returned yet.\<close>

fun effective :: "atomic_op \<Rightarrow> thread_pc \<Rightarrow> bool" where
  "effective p Start = False"
| "effective p (Loop current) = (attempt p current = None)"
| "effective p Done = True"

definition replay :: "(nat \<Rightarrow> atomic_op) \<Rightarrow> nat list \<Rightarrow> u64 \<Rightarrow> u64" where
  "replay prog ts v = fold (\<lambda>t. atomic_effect (prog t)) ts v"

lemma replay_simps [simp]:
  "replay prog [] v = v"
  "replay prog (t # ts) v = replay prog ts (atomic_effect (prog t) v)"
  by (simp_all add: replay_def)

lemma replay_snoc: "replay prog (ts @ [t]) v = atomic_effect (prog t) (replay prog ts v)"
  by (simp add: replay_def)

definition linear :: "nat \<Rightarrow> (nat \<Rightarrow> atomic_op) \<Rightarrow> u64 \<Rightarrow> shared \<Rightarrow> bool" where
  "linear n prog v s \<longleftrightarrow>
     cell s = replay prog (log s) v \<and> distinct (log s) \<and>
     set (log s) = {t. t < n \<and> effective (prog t) (pcs s t)}"

lemma linear_initial: "linear n prog v (initial v)"
  by (simp add: linear_def initial_def replay_def)

lemma linear_load:
  assumes "linear n prog v s" "t < n" "\<not> effective (prog t) (pcs s t)"
  shows "linear n prog v (load_into (prog t) t s)"
  using assms
  by (cases "attempt (prog t) (cell s)")
    (auto simp: linear_def load_into_def replay_snoc atomic_effect_attempt)

lemma linear_effect:
  assumes "linear n prog v s" "t < n" "\<not> effective (prog t) (pcs s t)"
  shows "linear n prog v (s\<lparr>cell := atomic_effect (prog t) (cell s),
    pcs := (pcs s)(t := Done), log := log s @ [t]\<rparr>)"
proof -
  have "t \<notin> set (log s)" using assms(1,3) by (simp add: linear_def)
  moreover have "insert t {u. u < n \<and> effective (prog u) (pcs s u)} =
      {u. u < n \<and> effective (prog u) (((pcs s)(t := Done)) u)}"
    using assms(2) by auto
  ultimately show ?thesis using assms(1) by (simp add: linear_def replay_snoc)
qed

lemma linear_step:
  assumes "atomic_step n prog s s'" and "linear n prog v s"
  shows "linear n prog v s'"
  using assms(1)
proof (cases rule: atomic_step.cases)
  case (fetch_add t k)
  with assms(2) linear_effect [of n prog v s t] show ?thesis by simp
next
  case (load t)
  with assms(2) show ?thesis by (simp add: linear_load)
next
  case (leave t current)
  then have "effective (prog u) (((pcs s)(t := Done)) u) = effective (prog u) (pcs s u)" for u
    by simp
  with assms(2) leave(1) show ?thesis by (simp add: linear_def del: fun_upd_apply)
next
  case (exchange t current w)
  with assms(2) linear_effect [of n prog v s t] show ?thesis
    by (simp add: atomic_effect_attempt)
next
  case (fail t current w)
  with assms(2) show ?thesis by (simp add: linear_load)
qed

interpretation cas: step_invariant "atomic_step n prog" "linear n prog v"
  by unfold_locales (rule linear_step)

lemma reachable_linear: "(atomic_step n prog)\<^sup>*\<^sup>* (initial v) s \<Longrightarrow> linear n prog v s"
  by (rule cas.run_keeps [OF _ linear_initial])

lemma reachable_order:
  assumes "(atomic_step n prog)\<^sup>*\<^sup>* (initial v) s" and "\<forall>t < n. pcs s t = Done"
  shows "\<exists>order. distinct order \<and> set order = {0..<n} \<and> cell s = replay prog order v"
proof -
  have "{t. t < n \<and> effective (prog t) (pcs s t)} = {0..<n}" using assms(2) by auto
  with reachable_linear [OF assms(1)] show ?thesis unfolding linear_def by blast
qed

section \<open>Properties\<close>

lemma log_grows: "atomic_step n prog s s' \<Longrightarrow> \<exists>w. log s' = log s @ w"
  by (cases rule: atomic_step.cases) (auto simp: load_into_def)

lemma log_grows_run: "(atomic_step n prog)\<^sup>*\<^sup>* s s' \<Longrightarrow> \<exists>w. log s' = log s @ w"
  by (induction rule: rtranclp_induct) (auto dest!: log_grows)

text \<open>
  C15. The updates are linearisable: however the threads interleave and however often a weak
  compare-exchange fails, when all have returned the word holds the value that the same updates
  give when they run one after the other, whole, in some order. The order respects time: at any
  moment \<open>m\<close> of the run, the updates that have returned come before those that have not
  started.
\<close>

theorem updates_linearisable:
  assumes "(atomic_step n prog)\<^sup>*\<^sup>* (initial v) m" and "(atomic_step n prog)\<^sup>*\<^sup>* m s"
    and "\<forall>t < n. pcs s t = Done"
  shows "\<exists>before after. distinct (before @ after) \<and> set (before @ after) = {0..<n} \<and>
    cell s = replay prog (before @ after) v \<and>
    {t. t < n \<and> pcs m t = Done} \<subseteq> set before \<and> {t. pcs m t = Start} \<inter> set before = {}"
proof -
  from log_grows_run [OF assms(2)] obtain w where w: "log s = log m @ w" by blast
  have "{t. t < n \<and> effective (prog t) (pcs s t)} = {0..<n}" using assms(3) by auto
  with reachable_linear [OF rtranclp_trans [OF assms(1,2)]] w
  have "distinct (log m @ w)" "set (log m @ w) = {0..<n}" "cell s = replay prog (log m @ w) v"
    unfolding linear_def by auto
  moreover have "set (log m) = {t. t < n \<and> effective (prog t) (pcs m t)}"
    using reachable_linear [OF assms(1)] by (simp add: linear_def)
  ultimately show ?thesis by (intro exI [of _ "log m"] exI [of _ w]) auto
qed

definition two_closers :: "nat \<Rightarrow> atomic_op" where
  "two_closers t = DecLoop"

definition contended_end :: shared where
  "contended_end = \<lparr>cell = 0, pcs = (\<lambda>_. Start)(0 := Done, 1 := Done), log = [0, 1]\<rparr>"

text \<open>
  Two threads close the last two connections: both load 2, one stores 1, the other fails,
  loads 1 and stores 0.
\<close>

lemma contended_run: "(atomic_step 2 two_closers)\<^sup>*\<^sup>* (initial (of_nat 2)) contended_end"
proof -
  let ?s1 = "\<lparr>cell = 2, pcs = (\<lambda>_. Start)(0 := Loop 2), log = []\<rparr>"
  let ?s2 = "\<lparr>cell = 2, pcs = (\<lambda>_. Start)(0 := Loop 2, 1 := Loop 2), log = []\<rparr>"
  let ?s3 = "\<lparr>cell = 1, pcs = (\<lambda>_. Start)(0 := Done, 1 := Loop 2), log = [0]\<rparr>"
  let ?s4 = "\<lparr>cell = 1, pcs = (\<lambda>_. Start)(0 := Done, 1 := Loop 1), log = [0]\<rparr>"
  have "atomic_step 2 two_closers (initial (of_nat 2)) ?s1"
    using atomic_step.load [of 0 2 two_closers "initial (of_nat 2)"]
    by (simp add: two_closers_def initial_def load_into_def)
  moreover have "atomic_step 2 two_closers ?s1 ?s2"
    using atomic_step.load [of 1 2 two_closers ?s1]
    by (simp add: two_closers_def load_into_def)
  moreover have "atomic_step 2 two_closers ?s2 ?s3"
    using atomic_step.exchange [of 0 2 ?s2 2 two_closers 1]
    by (simp add: two_closers_def fun_upd_twist)
  moreover have "atomic_step 2 two_closers ?s3 ?s4"
    using atomic_step.fail [of 1 2 ?s3 2 two_closers 1]
    by (simp add: two_closers_def load_into_def)
  moreover have "atomic_step 2 two_closers ?s4 contended_end"
    using atomic_step.exchange [of 1 2 ?s4 1 two_closers 0]
    by (simp add: two_closers_def contended_end_def)
  ultimately show ?thesis
    by (meson converse_rtranclp_into_rtranclp rtranclp.rtrancl_refl)
qed

lemma contended_done: "\<forall>t < 2. pcs contended_end t = Done"
  by (simp add: contended_end_def less_Suc_eq numeral_2_eq_2)

theorem updates_linearisable_witness:
  "\<exists>before after. distinct (before @ after) \<and> set (before @ after) = {0..<2} \<and>
    cell contended_end = replay two_closers (before @ after) (of_nat 2) \<and>
    {t. t < 2 \<and> pcs (initial (of_nat 2)) t = Done} \<subseteq> set before \<and>
    {t. pcs (initial (of_nat 2)) t = Start} \<inter> set before = {}"
  by (rule updates_linearisable [OF _ contended_run contended_done]) simp

lemma replay_balance:
  assumes "\<forall>t \<in> set ts. prog t = FetchAdd 1 \<or> prog t = DecLoop"
    and "length (filter (\<lambda>t. prog t = DecLoop) ts) \<le> m" and "m + length ts < 2 ^ 64"
  shows "replay prog ts (of_nat m) =
    of_nat (m + length (filter (\<lambda>t. prog t = FetchAdd 1) ts) - length (filter (\<lambda>t. prog t = DecLoop) ts))"
  using assms
proof (induction ts arbitrary: m)
  case Nil
  then show ?case by simp
next
  case (Cons t ts)
  show ?case
  proof (cases "prog t = DecLoop")
    case True
    with Cons.prems have "0 < m" "m < 2 ^ 64" by auto
    with True Cons.prems Cons.IH [of "m - 1"] show ?thesis
      by (simp add: saturating_dec_of_nat del: of_nat_diff)
  next
    case False
    with Cons.prems have add: "prog t = FetchAdd 1" by simp
    have "(of_nat m + 1 :: u64) = of_nat (Suc m)" by simp
    with add Cons.prems Cons.IH [of "Suc m"] show ?thesis
      by (simp del: of_nat_Suc of_nat_add of_nat_diff)
  qed
qed

text \<open>
  The connection counters stay exact under contention. If every thread either adds one
  connection or closes one, and the word starts with at least as many connections as will be
  closed, then in every interleaving it ends at the start plus the opens minus the closes: no
  close is lost, none is counted twice, and the word never wraps below zero.
\<close>

theorem connection_count_exact:
  assumes "(atomic_step n prog)\<^sup>*\<^sup>* (initial (of_nat m)) s" and "\<forall>t < n. pcs s t = Done"
    and "\<forall>t < n. prog t = FetchAdd 1 \<or> prog t = DecLoop"
    and "card {t. t < n \<and> prog t = DecLoop} \<le> m" and "m + n < 2 ^ 64"
  shows "cell s = of_nat (m + card {t. t < n \<and> prog t = FetchAdd 1} - card {t. t < n \<and> prog t = DecLoop})"
proof -
  from reachable_order [OF assms(1,2)] obtain ts where
    ts: "distinct ts" "set ts = {0..<n}" "cell s = replay prog ts (of_nat m)" by blast
  have count: "length (filter P ts) = card {t. t < n \<and> P t}" for P
  proof -
    have "set (filter P ts) = {t. t < n \<and> P t}" using ts(2) by auto
    then show ?thesis using distinct_card [of "filter P ts"] ts(1) by simp
  qed
  have "length ts = n" using ts(1,2) distinct_card [of ts] by simp
  with ts(2,3) assms(3-5) show ?thesis
    using replay_balance [of ts prog m] by (simp add: count)
qed

theorem connection_count_exact_witness:
  "cell contended_end = of_nat (2 + card {t. t < (2::nat) \<and> two_closers t = FetchAdd 1} -
     card {t. t < (2::nat) \<and> two_closers t = DecLoop})"
  by (rule connection_count_exact [OF contended_run contended_done])
    (simp_all add: two_closers_def)

text \<open>What the peak loop guarantees at every moment of every run.\<close>

definition peak_inv :: "nat \<Rightarrow> (nat \<Rightarrow> u64) \<Rightarrow> u64 \<Rightarrow> shared \<Rightarrow> bool" where
  "peak_inv n vals v s \<longleftrightarrow>
     v \<le> cell s \<and> (cell s = v \<or> (\<exists>t < n. cell s = vals t)) \<and>
     (\<forall>t c. pcs s t = Loop c \<longrightarrow> c \<le> cell s) \<and>
     (\<forall>t < n. pcs s t = Done \<longrightarrow> vals t \<le> cell s)"

lemma peak_step:
  assumes "atomic_step n (\<lambda>t. PeakLoop (vals t)) s s'" and inv: "peak_inv n vals v s"
  shows "peak_inv n vals v s'"
  using assms(1)
proof (cases rule: atomic_step.cases)
  case (fetch_add t k)
  then show ?thesis by simp
next
  case (load t)
  with inv show ?thesis by (simp add: peak_inv_def load_into_def)
next
  case (leave t current)
  then have "vals t \<le> current" by (simp split: if_splits)
  with inv leave show ?thesis by (auto simp: peak_inv_def intro: order_trans)
next
  case (exchange t current w)
  then have w: "w = vals t" "vals t > cell s" by (auto split: if_splits)
  with inv exchange show ?thesis
    by (auto simp: peak_inv_def intro: order_trans less_imp_le) (metis less_imp_le order_trans)+
next
  case (fail t current w)
  with inv show ?thesis by (simp add: peak_inv_def load_into_def)
qed

interpretation peak: step_invariant "atomic_step n (\<lambda>t. PeakLoop (vals t))" "peak_inv n vals v"
  by unfold_locales (rule peak_step)

lemma peak_initial: "peak_inv n vals v (initial v)"
  by (simp add: peak_inv_def initial_def)

text \<open>
  The peak is the maximum. Whatever the interleaving, the peak word never falls below its
  start, always holds its start or one of the values some thread brought, and is at least the
  value of every thread that has returned; so when all have returned it is the largest of them.
\<close>

theorem peak_is_maximum:
  assumes "(atomic_step n (\<lambda>t. PeakLoop (vals t)))\<^sup>*\<^sup>* (initial v) s"
  shows "cell s \<in> insert v (vals ` {0..<n}) \<and> v \<le> cell s \<and>
    (\<forall>t < n. pcs s t = Done \<longrightarrow> vals t \<le> cell s) \<and>
    ((\<forall>t < n. pcs s t = Done) \<longrightarrow> cell s = Max (insert v (vals ` {0..<n})))"
proof -
  from peak.run_keeps [OF assms peak_initial] have inv: "peak_inv n vals v s" .
  then have "cell s = Max (insert v (vals ` {0..<n}))" if "\<forall>t < n. pcs s t = Done"
    using that by (intro Max_eqI [symmetric]) (auto simp: peak_inv_def)
  with inv show ?thesis by (auto simp: peak_inv_def)
qed

theorem peak_is_maximum_witness:
  "cell (initial 5) \<in> insert 5 ((\<lambda>t. of_nat t) ` {0..<3}) \<and> (5 :: u64) \<le> cell (initial 5)"
  using peak_is_maximum [of 3 "\<lambda>t. of_nat t" 5 "initial 5"] by simp

text \<open>
  Thread \<open>t\<close> moves: a step changes where it stands. Every step is the step of one thread, so this is a
  step of \<open>t\<close>; and it is not a weak compare-exchange that fails although the word holds the value
  expected, which leaves the thread where it was.
\<close>

definition moves :: "nat \<Rightarrow> (nat \<Rightarrow> atomic_op) \<Rightarrow> nat \<Rightarrow> shared \<Rightarrow> shared \<Rightarrow> bool" where
  "moves n prog t s s' \<longleftrightarrow> atomic_step n prog s s' \<and> pcs s' t \<noteq> pcs s t"

text \<open>The moves that are left, at most, and the value that the word will have.\<close>

definition to_go :: "atomic_op \<Rightarrow> nat \<Rightarrow> shared \<Rightarrow> nat" where
  "to_go p t s = (case pcs s t of
     Start \<Rightarrow> 2
   | Loop c \<Rightarrow> if attempt p c = None \<or> c = cell s then 1 else 2
   | Done \<Rightarrow> 0)"

definition outcome :: "atomic_op \<Rightarrow> nat \<Rightarrow> shared \<Rightarrow> u64" where
  "outcome p t s = (if effective p (pcs s t) then cell s else atomic_effect p (cell s))"

lemma move_step:
  assumes "moves n prog t s s'"
  shows "to_go (prog t) t s' < to_go (prog t) t s \<and> outcome (prog t) t s' = outcome (prog t) t s \<and>
    (\<forall>u. u \<noteq> t \<longrightarrow> pcs s' u = pcs s u)"
proof -
  have step: "atomic_step n prog s s'" and pc: "pcs s' t \<noteq> pcs s t" using assms by (simp_all add: moves_def)
  from step show ?thesis
  proof (cases rule: atomic_step.cases)
    case (fetch_add u k)
    with pc have "u = t" by (auto split: if_splits)
    with fetch_add show ?thesis by (simp add: to_go_def outcome_def)
  next
    case (load u)
    with pc have "u = t" by (auto simp: load_into_def split: if_splits)
    with load show ?thesis by (auto simp: to_go_def outcome_def load_into_def atomic_effect_attempt)
  next
    case (leave u c)
    with pc have "u = t" by (auto split: if_splits)
    with leave show ?thesis by (simp add: to_go_def outcome_def)
  next
    case (exchange u c v)
    with pc have "u = t" by (auto split: if_splits)
    with exchange show ?thesis by (simp add: to_go_def outcome_def atomic_effect_attempt)
  next
    case (fail u c v)
    with pc have "u = t" "c \<noteq> cell s" by (auto simp: load_into_def split: if_splits)
    with fail show ?thesis by (auto simp: to_go_def outcome_def load_into_def atomic_effect_attempt)
  qed
qed

lemma move_run:
  "(moves n prog t ^^ k) s s' \<Longrightarrow> to_go (prog t) t s' + k \<le> to_go (prog t) t s \<and>
    outcome (prog t) t s' = outcome (prog t) t s \<and> (\<forall>u. u \<noteq> t \<longrightarrow> pcs s' u = pcs s u)"
proof (induction k arbitrary: s')
  case (Suc k)
  then obtain m where m: "(moves n prog t ^^ k) s m" "moves n prog t m s'" by auto
  from Suc.IH [OF m(1)] move_step [OF m(2)] show ?case by auto
qed simp

lemma move_possible:
  assumes "t < n" and "pcs s t \<noteq> Done"
  shows "\<exists>s'. moves n prog t s s'"
proof (cases "pcs s t")
  case Start
  show ?thesis
  proof (cases "prog t")
    case (FetchAdd k)
    with Start show ?thesis
      by (intro exI [of _ "s\<lparr>cell := cell s + k, pcs := (pcs s)(t := Done), log := log s @ [t]\<rparr>"])
        (simp add: moves_def atomic_step.fetch_add [OF assms(1)])
  qed (use Start in \<open>auto simp: moves_def load_into_def intro!: exI [of _ "load_into (prog t) t s"]
      atomic_step.load [OF assms(1)]\<close>)
next
  case (Loop c)
  show ?thesis
  proof (cases "attempt (prog t) c")
    case None
    with Loop show ?thesis
      by (intro exI [of _ "s\<lparr>pcs := (pcs s)(t := Done)\<rparr>"]) (simp add: moves_def atomic_step.leave [OF assms(1)])
  next
    case (Some v)
    show ?thesis
    proof (cases "cell s = c")
      case True
      with Loop Some show ?thesis
        by (intro exI [of _ "s\<lparr>cell := v, pcs := (pcs s)(t := Done), log := log s @ [t]\<rparr>"])
          (simp add: moves_def atomic_step.exchange [OF assms(1)])
    next
      case False
      with Loop atomic_step.fail [OF assms(1) Loop, of prog, OF Some] show ?thesis
        by (intro exI [of _ "load_into (prog t) t s"]) (simp add: moves_def load_into_def)
    qed
  qed
qed (use assms(2) in simp)

text \<open>
  C27. The loops end, and no thread can be held up by another. From any state, whatever the other
  threads were doing when they stopped, let thread \<open>t\<close> run alone, without spurious failures of the
  exchange. Every run of it has at most two moves, and only \<open>t\<close> moves; as long as \<open>t\<close> has not returned
  there is a further move; and when it has returned, its update has taken effect exactly once: on
  the value that the word had, or before, when the loop condition was already false for the
  value that \<open>t\<close> held.
\<close>

theorem solo_progress:
  assumes "t < n" and "(moves n prog t ^^ k) s s'"
  shows "k \<le> 2 \<and> (\<forall>u. u \<noteq> t \<longrightarrow> pcs s' u = pcs s u) \<and>
    (if pcs s' t = Done
     then cell s' = (if effective (prog t) (pcs s t) then cell s else atomic_effect (prog t) (cell s))
     else (\<exists>s''. moves n prog t s' s''))"
proof -
  have "to_go (prog t) t s \<le> 2" by (simp add: to_go_def split: thread_pc.split)
  with move_run [OF assms(2)] have "k \<le> 2" "outcome (prog t) t s' = outcome (prog t) t s"
    "\<forall>u. u \<noteq> t \<longrightarrow> pcs s' u = pcs s u" by auto
  with move_possible [OF assms(1), of s' prog] show ?thesis by (auto simp: outcome_def)
qed

text \<open>A thread that holds the stale value 2 while the word is 1 takes two moves: it loads 1 and stores 0.\<close>

definition stale_closer :: shared where
  "stale_closer = \<lparr>cell = 1, pcs = (\<lambda>_. Start)(0 := Done, 1 := Loop 2), log = [0]\<rparr>"

theorem solo_progress_witness:
  "(moves 2 two_closers 1 ^^ 2) stale_closer contended_end \<and> cell contended_end = atomic_effect DecLoop 1"
proof -
  let ?m = "\<lparr>cell = 1, pcs = (\<lambda>_. Start)(0 := Done, 1 := Loop 1), log = [0]\<rparr>"
  have "moves 2 two_closers 1 stale_closer ?m"
    using atomic_step.fail [of 1 2 stale_closer 2 two_closers 1]
    by (simp add: moves_def two_closers_def load_into_def stale_closer_def)
  moreover have "moves 2 two_closers 1 ?m contended_end"
    using atomic_step.exchange [of 1 2 ?m 1 two_closers 0]
    by (simp add: moves_def two_closers_def contended_end_def)
  ultimately have "(moves 2 two_closers 1 ^^ 2) stale_closer contended_end"
    by (auto simp: numeral_2_eq_2 OO_def)
  from this solo_progress [OF _ this] show ?thesis
    by (simp add: contended_end_def stale_closer_def two_closers_def)
qed

end
