(* ===== verification/LB_Runtime.thy ===== *)
theory LB_Runtime
  imports LB_Atomics
begin

text \<open>
  The shared runtime state: \<open>include/lb/runtime.hpp\<close> and the recording operations of
  \<open>src/runtime.cpp\<close>. It owns the configuration, the scheduler, the global metrics and
  the per-backend byte counters; the workers, the health checks and the admin server reach all
  of them through it. An operation runs its accesses in the order of the source, and when one of
  them throws, the writes before it stay.
\<close>

section \<open>State\<close>

record metrics =
  m_started_at :: int
  m_active :: u64
  m_total :: u64
  m_peak :: u64
  m_bytes_clients :: u64
  m_bytes_backends :: u64
  m_errors :: u64
  m_connect_timeouts :: u64
  m_idle_timeouts :: u64

record backend_runtime =
  b_endpoint :: endpoint
  b_bytes_client :: u64
  b_bytes_backend :: u64
  b_latency_us :: u64

record runtime =
  r_config :: app_config
  r_sched :: scheduler
  r_metrics :: metrics
  r_backends :: "backend_runtime list"

definition new_metrics :: "int \<Rightarrow> metrics" where
  "new_metrics now = \<lparr>m_started_at = now, m_active = 0, m_total = 0, m_peak = 0,
     m_bytes_clients = 0, m_bytes_backends = 0, m_errors = 0,
     m_connect_timeouts = 0, m_idle_timeouts = 0\<rparr>"

definition new_runtime :: "int \<Rightarrow> app_config \<Rightarrow> scheduler \<Rightarrow> runtime" where
  "new_runtime now config sched = \<lparr>
     r_config = config,
     r_sched = sched,
     r_metrics = new_metrics now,
     r_backends = map (\<lambda>e. \<lparr>b_endpoint = e, b_bytes_client = 0, b_bytes_backend = 0,
       b_latency_us = 0\<rparr>) (backends config)\<rparr>"

section \<open>Operations\<close>

text \<open>An operation on the scheduler that the runtime points to.\<close>

definition with_sched :: "(scheduler \<Rightarrow> scheduler out) \<Rightarrow> runtime \<Rightarrow> runtime out" where
  "with_sched f r = map_out (\<lambda>s. r\<lparr>r_sched := s\<rparr>) (f (r_sched r))"

text \<open>\<open>RuntimeState::backend(i)\<close> with an update of the entry it returns.\<close>

definition with_backend ::
    "nat \<Rightarrow> (backend_runtime \<Rightarrow> backend_runtime) \<Rightarrow> runtime \<Rightarrow> runtime out" where
  "with_backend i f r =
     (if i \<ge> length (r_backends r) then Throw index_error r
      else Ok (r\<lparr>r_backends := (r_backends r)[i := f (r_backends r ! i)]\<rparr>))"

definition count_open :: "metrics \<Rightarrow> metrics" where
  "count_open m =
     (let active = m_active m + 1 in
      m\<lparr>m_active := active, m_total := m_total m + 1, m_peak := update_peak active (m_peak m)\<rparr>)"

definition record_connection_open :: "nat \<Rightarrow> runtime \<Rightarrow> runtime out" where
  "record_connection_open i r =
     chain (with_sched (mark_open i) r) (\<lambda>r. Ok (r\<lparr>r_metrics := count_open (r_metrics r)\<rparr>))"

definition record_connection_close :: "nat \<Rightarrow> runtime \<Rightarrow> runtime out" where
  "record_connection_close i r =
     chain (with_sched (mark_closed i) r) (\<lambda>r. Ok (r\<lparr>r_metrics :=
       (r_metrics r)\<lparr>m_active := saturating_dec (m_active (r_metrics r))\<rparr>\<rparr>))"

definition record_bytes_from_client :: "nat \<Rightarrow> u64 \<Rightarrow> runtime \<Rightarrow> runtime out" where
  "record_bytes_from_client i count r =
     with_backend i (\<lambda>b. b\<lparr>b_bytes_client := b_bytes_client b + count\<rparr>)
       (r\<lparr>r_metrics := (r_metrics r)\<lparr>m_bytes_clients := m_bytes_clients (r_metrics r) + count\<rparr>\<rparr>)"

definition record_bytes_from_backend :: "nat \<Rightarrow> u64 \<Rightarrow> runtime \<Rightarrow> runtime out" where
  "record_bytes_from_backend i count r =
     with_backend i (\<lambda>b. b\<lparr>b_bytes_backend := b_bytes_backend b + count\<rparr>)
       (r\<lparr>r_metrics := (r_metrics r)\<lparr>m_bytes_backends := m_bytes_backends (r_metrics r) + count\<rparr>\<rparr>)"

definition record_backend_failure :: "nat \<Rightarrow> runtime \<Rightarrow> runtime out" where
  "record_backend_failure i r =
     with_sched (mark_failure i)
       (r\<lparr>r_metrics := (r_metrics r)\<lparr>m_errors := m_errors (r_metrics r) + 1\<rparr>\<rparr>)"

definition record_connect_latency :: "nat \<Rightarrow> u64 \<Rightarrow> runtime \<Rightarrow> runtime out" where
  "record_connect_latency i latency_us r = with_backend i (\<lambda>b. b\<lparr>b_latency_us := latency_us\<rparr>) r"

definition set_backend_state :: "nat \<Rightarrow> backend_state \<Rightarrow> runtime \<Rightarrow> runtime out" where
  "set_backend_state i st r = with_sched (set_state i st) r"

definition heal_backend :: "nat \<Rightarrow> runtime \<Rightarrow> runtime out" where
  "heal_backend i r = with_sched (mark_healthy i) r"

definition count_connect_timeout :: "runtime \<Rightarrow> runtime" where
  "count_connect_timeout r =
     r\<lparr>r_metrics := (r_metrics r)\<lparr>m_connect_timeouts := m_connect_timeouts (r_metrics r) + 1\<rparr>\<rparr>"

definition count_idle_timeout :: "runtime \<Rightarrow> runtime" where
  "count_idle_timeout r =
     r\<lparr>r_metrics := (r_metrics r)\<lparr>m_idle_timeouts := m_idle_timeouts (r_metrics r) + 1\<rparr>\<rparr>"

section \<open>Well-formedness, and the pool the runtime provides\<close>

definition wf_runtime :: "runtime \<Rightarrow> bool" where
  "wf_runtime r \<longleftrightarrow> wf_scheduler (r_sched r) \<and> length (r_backends r) = backend_count (r_sched r)"

definition pool_size :: "runtime \<Rightarrow> nat" where
  "pool_size r = length (r_backends r)"

definition runtime_active :: "runtime \<Rightarrow> nat \<Rightarrow> u64" where
  "runtime_active r = active_of (r_sched r)"

definition runtime_fails :: "runtime \<Rightarrow> nat \<Rightarrow> u32" where
  "runtime_fails r = failures_of (r_sched r)"

definition runtime_state :: "runtime \<Rightarrow> nat \<Rightarrow> backend_state" where
  "runtime_state r = state_in (r_sched r)"

lemmas runtime_views = runtime_active_def runtime_fails_def runtime_state_def pool_size_def

lemmas runtime_op_defs = record_connection_open_def record_connection_close_def
  record_backend_failure_def record_bytes_from_client_def record_bytes_from_backend_def
  record_connect_latency_def set_backend_state_def heal_backend_def with_sched_def with_backend_def

lemma wf_new_runtime:
  assumes "length (backends config) < 2 ^ 64"
  shows "wf_runtime (new_runtime now config (new_scheduler (backends config) (policy config)))"
  using assms
  by (simp add: wf_runtime_def new_runtime_def wf_new_scheduler backend_count_def)
    (simp add: new_scheduler_def)

interpretation rt: backend_pool wf_runtime pool_size runtime_active runtime_fails runtime_state
  record_connection_open record_connection_close record_backend_failure heal_backend
  set_backend_state
proof unfold_locales
  fix r i x
  assume "wf_runtime r" and "i < pool_size r"
  then have wf: "wf_scheduler (r_sched r)" "length (r_backends r) = backend_count (r_sched r)"
    and i: "i < backend_count (r_sched r)"
    by (simp_all add: wf_runtime_def pool_size_def)
  show "\<exists>t. record_connection_open i r = Ok t \<and> wf_runtime t \<and> pool_size t = pool_size r \<and>
      runtime_active t = (runtime_active r)(i := runtime_active r i + 1) \<and>
      runtime_fails t = runtime_fails r \<and> runtime_state t = runtime_state r"
    using sched.open_law [OF wf(1) i] wf(2)
    by (auto simp: record_connection_open_def with_sched_def wf_runtime_def runtime_views)
  show "\<exists>t. record_connection_close i r = Ok t \<and> wf_runtime t \<and> pool_size t = pool_size r \<and>
      runtime_active t = (runtime_active r)(i := saturating_dec (runtime_active r i)) \<and>
      runtime_fails t = runtime_fails r \<and> runtime_state t = runtime_state r"
    using sched.close_law [OF wf(1) i] wf(2)
    by (auto simp: record_connection_close_def with_sched_def wf_runtime_def runtime_views)
  show "\<exists>t. record_backend_failure i r = Ok t \<and> wf_runtime t \<and> pool_size t = pool_size r \<and>
      runtime_active t = runtime_active r \<and>
      runtime_fails t = (runtime_fails r)(i := runtime_fails r i + 1) \<and>
      runtime_state t = runtime_state r"
    using sched.fail_law [OF wf(1) i] wf(2)
    by (auto simp: record_backend_failure_def with_sched_def wf_runtime_def runtime_views)
  show "\<exists>t. heal_backend i r = Ok t \<and> wf_runtime t \<and> pool_size t = pool_size r \<and>
      runtime_active t = runtime_active r \<and> runtime_fails t = (runtime_fails r)(i := 0) \<and>
      runtime_state t =
        (if runtime_state r i = Down then (runtime_state r)(i := Up) else runtime_state r)"
    using sched.heal_law [OF wf(1) i] wf(2)
    by (auto simp: heal_backend_def with_sched_def wf_runtime_def runtime_views)
  show "\<exists>t. set_backend_state i x r = Ok t \<and> wf_runtime t \<and> pool_size t = pool_size r \<and>
      runtime_active t = runtime_active r \<and> runtime_fails t = runtime_fails r \<and>
      runtime_state t = (runtime_state r)(i := x)"
    using sched.set_law [OF wf(1) i, of x] wf(2)
    by (auto simp: set_backend_state_def with_sched_def wf_runtime_def runtime_views)
qed

section \<open>The global metrics agree with the backends\<close>

definition metrics_agree :: "runtime \<Rightarrow> bool" where
  "metrics_agree r \<longleftrightarrow>
     m_total (r_metrics r) = sum_list (s_total (r_sched r)) \<and>
     m_errors (r_metrics r) = sum_list (s_errors (r_sched r)) \<and>
     m_bytes_clients (r_metrics r) = sum_list (map b_bytes_client (r_backends r)) \<and>
     m_bytes_backends (r_metrics r) = sum_list (map b_bytes_backend (r_backends r))"

datatype runtime_op =
    ConnOpen nat
  | ConnClose nat
  | BytesFromClient nat u64
  | BytesFromBackend nat u64
  | BackendFailure nat
  | ConnectLatency nat u64
  | SetState nat backend_state
  | MarkHealthy nat

fun runtime_op_index :: "runtime_op \<Rightarrow> nat" where
  "runtime_op_index (ConnOpen i) = i"
| "runtime_op_index (ConnClose i) = i"
| "runtime_op_index (BytesFromClient i _) = i"
| "runtime_op_index (BytesFromBackend i _) = i"
| "runtime_op_index (BackendFailure i) = i"
| "runtime_op_index (ConnectLatency i _) = i"
| "runtime_op_index (SetState i _) = i"
| "runtime_op_index (MarkHealthy i) = i"

fun run_op :: "runtime_op \<Rightarrow> runtime \<Rightarrow> runtime out" where
  "run_op (ConnOpen i) r = record_connection_open i r"
| "run_op (ConnClose i) r = record_connection_close i r"
| "run_op (BytesFromClient i n) r = record_bytes_from_client i n r"
| "run_op (BytesFromBackend i n) r = record_bytes_from_backend i n r"
| "run_op (BackendFailure i) r = record_backend_failure i r"
| "run_op (ConnectLatency i n) r = record_connect_latency i n r"
| "run_op (SetState i st) r = set_backend_state i st r"
| "run_op (MarkHealthy i) r = heal_backend i r"

fun run_ops :: "runtime_op list \<Rightarrow> runtime \<Rightarrow> runtime out" where
  "run_ops [] r = Ok r"
| "run_ops (p # ps) r = chain (run_op p r) (run_ops ps)"

lemma sum_list_update_u64:
  fixes xs :: "u64 list"
  shows "i < length xs \<Longrightarrow> sum_list (xs[i := xs ! i + v]) = sum_list xs + v"
  by (induction xs arbitrary: i) (auto simp: add_ac split: nat.split)

lemma sum_map_update_u64:
  fixes f :: "'a \<Rightarrow> u64"
  assumes "i < length xs" "f y = f (xs ! i) + v"
  shows "sum_list (map f (xs[i := y])) = sum_list (map f xs) + v"
  using assms sum_list_update_u64 [of i "map f xs" v] by (simp add: map_update)

lemma sum_map_same:
  assumes "i < length xs" "f y = f (xs ! i)"
  shows "sum_list (map f (xs[i := y])) = sum_list (map f xs)"
  using assms by (metis list_update_id map_update nth_map)

lemma run_op_keeps:
  assumes "wf_runtime r" and "metrics_agree r" and "runtime_op_index p < pool_size r"
  shows "\<exists>t. run_op p r = Ok t \<and> wf_runtime t \<and> metrics_agree t \<and> pool_size t = pool_size r"
  using assms
  by (cases p) (auto simp: runtime_op_defs scheduler_op_defs wf_runtime_def wf_scheduler_def Let_def
      backend_count_def pool_size_def metrics_agree_def count_open_def accessor_defs
      sum_list_update_u64 sum_map_update_u64 sum_map_same)

lemma run_ops_keep:
  "wf_runtime r \<Longrightarrow> metrics_agree r \<Longrightarrow> \<forall>p \<in> set ps. runtime_op_index p < pool_size r \<Longrightarrow>
    \<exists>t. run_ops ps r = Ok t \<and> wf_runtime t \<and> metrics_agree t \<and> pool_size t = pool_size r"
proof (induction ps arbitrary: r)
  case Nil
  then show ?case by simp
next
  case (Cons p ps)
  then obtain u where "run_op p r = Ok u" "wf_runtime u" "metrics_agree u" "pool_size u = pool_size r"
    using run_op_keeps [of r p] by auto
  with Cons.IH [of u] Cons.prems show ?case by auto
qed

definition fresh_runtime :: "int \<Rightarrow> app_config \<Rightarrow> runtime" where
  "fresh_runtime now config = new_runtime now config (new_scheduler (backends config) (policy config))"

lemma fresh_runtime_agrees: "metrics_agree (fresh_runtime now config)"
  by (simp add: metrics_agree_def fresh_runtime_def new_runtime_def new_metrics_def new_scheduler_def
      sum_list_replicate comp_def)

lemma pool_size_fresh [simp]: "pool_size (fresh_runtime now config) = length (backends config)"
  by (simp add: pool_size_def fresh_runtime_def new_runtime_def)

section \<open>Properties\<close>

text \<open>
  The global metrics are the sums of the per-backend ones. Any sequence of recording
  operations on a new runtime, with indexes of configured backends, runs without an exception,
  and after it the global totals of connections, of failures and of bytes in each direction are,
  modulo \<open>2 ^ 64\<close>, the sums over the backends.
\<close>

theorem global_metrics_are_sums:
  assumes "length (backends config) < 2 ^ 64"
    and "\<forall>p \<in> set ps. runtime_op_index p < length (backends config)"
  shows "\<exists>r. run_ops ps (fresh_runtime now config) = Ok r \<and> wf_runtime r \<and>
    m_total (r_metrics r) = sum_list (s_total (r_sched r)) \<and>
    m_errors (r_metrics r) = sum_list (s_errors (r_sched r)) \<and>
    m_bytes_clients (r_metrics r) = sum_list (map b_bytes_client (r_backends r)) \<and>
    m_bytes_backends (r_metrics r) = sum_list (map b_bytes_backend (r_backends r))"
proof -
  have "wf_runtime (fresh_runtime now config)"
    unfolding fresh_runtime_def by (rule wf_new_runtime [OF assms(1)])
  from run_ops_keep [OF this fresh_runtime_agrees] assms(2) show ?thesis
    by (auto simp: metrics_agree_def)
qed

theorem global_metrics_are_sums_witness:
  "\<exists>r. run_ops [ConnOpen 0, BytesFromClient 0 5, BackendFailure 1, ConnClose 0]
      (fresh_runtime 0 sample_config) = Ok r \<and> m_errors (r_metrics r) = sum_list (s_errors (r_sched r))"
  using global_metrics_are_sums [of sample_config
      "[ConnOpen 0, BytesFromClient 0 5, BackendFailure 1, ConnClose 0]" 0]
  by (auto simp: sample_config_def)

text \<open>
  What the gauges promise: the number of active connections is the sum over the backends, and
  the peak has seen it.
\<close>

definition gauges_agree :: "runtime \<Rightarrow> bool" where
  "gauges_agree r \<longleftrightarrow>
     unat (m_active (r_metrics r)) = sum_list (map unat (s_active (r_sched r))) \<and>
     m_active (r_metrics r) \<le> m_peak (r_metrics r)"

text \<open>A close has a connection to close, and an open does not overflow the gauge.\<close>

definition gauge_step_ok :: "runtime_op \<Rightarrow> runtime \<Rightarrow> bool" where
  "gauge_step_ok p r \<longleftrightarrow> runtime_op_index p < pool_size r \<and>
     (case p of ConnClose i \<Rightarrow> runtime_active r i > 0
      | ConnOpen i \<Rightarrow> m_active (r_metrics r) \<noteq> - 1 | _ \<Rightarrow> True)"

fun gauge_run_ok :: "runtime_op list \<Rightarrow> runtime \<Rightarrow> bool" where
  "gauge_run_ok [] r = True"
| "gauge_run_ok (p # ps) r = (gauge_step_ok p r \<and> gauge_run_ok ps (state_of (run_op p r)))"

lemma member_le_sum_unat: "i < length xs \<Longrightarrow> unat (xs ! i) \<le> sum_list (map unat xs)"
  by (simp add: member_le_sum_list)

lemma unat_succ: "x \<noteq> - 1 \<Longrightarrow> unat (x + 1 :: u64) = Suc (unat x)"
  using unat_max_u64 by (auto simp: unat_plus_1_u64 word_unat_eq_iff)

lemma unat_saturating_dec: "unat (saturating_dec x) = unat x - 1"
  by (auto simp: saturating_dec_def word_gt_0 unat_minus_one)

lemma sum_unat_update:
  "i < length xs \<Longrightarrow>
    sum_list (map unat (xs[i := y])) + unat (xs ! i) = sum_list (map unat xs) + unat y"
  using sum_list_update_nat [of i "map unat xs" "unat y"] by (simp add: map_update)

lemma gauge_open:
  assumes "wf_runtime r" "gauges_agree r" "gauge_step_ok (ConnOpen i) r"
  shows "gauges_agree (state_of (run_op (ConnOpen i) r))"
proof -
  let ?xs = "s_active (r_sched r)" and ?m = "r_metrics r"
  have i: "i < length ?xs" and room: "m_active ?m \<noteq> - 1"
    using assms by (auto simp: gauge_step_ok_def wf_runtime_def wf_scheduler_def backend_count_def pool_size_def)
  have sum: "unat (m_active ?m) = sum_list (map unat ?xs)"
    using assms(2) by (simp add: gauges_agree_def)
  have "?xs ! i \<noteq> - 1"
    using member_le_sum_unat [OF i] sum room unat_max_u64 unat_u64_less [of "m_active ?m"]
    by (auto simp: word_unat_eq_iff)
  with sum_unat_update [OF i, of "?xs ! i + 1"] sum room
  have "unat (m_active ?m + 1) = sum_list (map unat (?xs[i := ?xs ! i + 1]))"
    by (simp add: unat_succ)
  with i show ?thesis
    by (auto simp: record_connection_open_def with_sched_def mark_open_def gauges_agree_def
        count_open_def Let_def update_peak_def)
qed

lemma gauge_close:
  assumes "wf_runtime r" "gauges_agree r" "gauge_step_ok (ConnClose i) r"
  shows "gauges_agree (state_of (run_op (ConnClose i) r))"
proof -
  let ?xs = "s_active (r_sched r)" and ?m = "r_metrics r"
  have i: "i < length ?xs" and pos: "?xs ! i > 0"
    using assms by (auto simp: gauge_step_ok_def wf_runtime_def wf_scheduler_def backend_count_def
        pool_size_def runtime_active_def active_of_def slot_def)
  have sum: "unat (m_active ?m) = sum_list (map unat ?xs)" "m_active ?m \<le> m_peak ?m"
    using assms(2) by (simp_all add: gauges_agree_def)
  have "unat (?xs ! i) > 0" using pos by (simp add: word_less_nat_alt)
  with sum_unat_update [OF i, of "saturating_dec (?xs ! i)"] sum(1) member_le_sum_unat [OF i]
  have "unat (saturating_dec (m_active ?m)) = sum_list (map unat (?xs[i := saturating_dec (?xs ! i)]))"
    by (simp add: unat_saturating_dec)
  moreover have "saturating_dec (m_active ?m) \<le> m_peak ?m"
    using sum(2) by (simp add: word_le_nat_alt unat_saturating_dec)
  ultimately show ?thesis using i
    by (simp add: record_connection_close_def with_sched_def mark_closed_def gauges_agree_def)
qed

lemma gauge_step:
  assumes "wf_runtime r" "gauges_agree r" "gauge_step_ok p r"
  shows "gauges_agree (state_of (run_op p r))"
proof (cases p)
  case (ConnOpen i)
  with assms show ?thesis by (simp only: gauge_open)
next
  case (ConnClose i)
  with assms show ?thesis by (simp only: gauge_close)
qed (use assms in \<open>auto simp: runtime_op_defs scheduler_op_defs gauges_agree_def Let_def\<close>)

text \<open>
  The connection gauge is exact. As long as closes have a connection to close, the global
  number of active connections is the sum of the active connections of the backends after every
  prefix of the operations, and the recorded peak is at least as large.
\<close>

theorem connection_gauge_exact:
  assumes "wf_runtime r" and "metrics_agree r" and "gauges_agree r" and "gauge_run_ok ps r"
  shows "\<exists>t. run_ops ps r = Ok t \<and> gauges_agree t"
  using assms
proof (induction ps arbitrary: r)
  case Nil
  then show ?case by simp
next
  case (Cons p ps)
  then have ok: "gauge_step_ok p r" by simp
  then obtain u where u: "run_op p r = Ok u" "wf_runtime u" "metrics_agree u"
    using run_op_keeps [OF Cons.prems(1,2), of p] by (auto simp: gauge_step_ok_def)
  with gauge_step [OF Cons.prems(1,3) ok] Cons.prems(4) Cons.IH [of u] show ?case by simp
qed

theorem connection_gauge_exact_witness:
  "\<exists>t. run_ops [ConnOpen 0, ConnOpen 1, ConnClose 0] (fresh_runtime 0 sample_config) = Ok t \<and>
    gauges_agree t"
proof (rule connection_gauge_exact)
  show "wf_runtime (fresh_runtime 0 sample_config)"
    unfolding fresh_runtime_def by (rule wf_new_runtime) (simp add: sample_config_def)
  show "metrics_agree (fresh_runtime 0 sample_config)" by (rule fresh_runtime_agrees)
  show "gauges_agree (fresh_runtime 0 sample_config)"
    by (simp add: gauges_agree_def fresh_runtime_def new_runtime_def new_metrics_def new_scheduler_def
        sample_config_def)
  show "gauge_run_ok [ConnOpen 0, ConnOpen 1, ConnClose 0] (fresh_runtime 0 sample_config)"
    by (simp add: gauge_step_ok_def fresh_runtime_def new_runtime_def new_metrics_def new_scheduler_def
        sample_config_def runtime_op_defs scheduler_op_defs pool_size_def runtime_active_def
        active_of_def slot_def count_open_def Let_def)
qed

text \<open>
  A recording with an index outside the pool throws \<open>out_of_range\<close>, but not always
  before it has changed anything: opens, closes, latencies and states leave the runtime as it
  was, while the byte and failure recordings have already added to the global metric, which then
  no longer is the sum over the backends.
\<close>

theorem out_of_range_recordings:
  assumes "wf_runtime r" and "i \<ge> pool_size r"
  shows "record_connection_open i r = Throw index_error r \<and>
    record_connection_close i r = Throw index_error r \<and>
    set_backend_state i st r = Throw index_error r \<and>
    record_connect_latency i n r = Throw index_error r \<and>
    record_bytes_from_client i n r = Throw index_error
      (r\<lparr>r_metrics := (r_metrics r)\<lparr>m_bytes_clients := m_bytes_clients (r_metrics r) + n\<rparr>\<rparr>) \<and>
    (metrics_agree r \<and> n \<noteq> 0 \<longrightarrow> \<not> metrics_agree (state_of (record_bytes_from_client i n r))) \<and>
    (metrics_agree r \<longrightarrow> \<not> metrics_agree (state_of (record_backend_failure i r)))"
  using assms
  by (auto simp: runtime_op_defs scheduler_op_defs wf_runtime_def wf_scheduler_def backend_count_def
      pool_size_def metrics_agree_def)

theorem out_of_range_recordings_witness:
  "record_connection_open 2 (fresh_runtime 0 sample_config) =
    Throw index_error (fresh_runtime 0 sample_config)"
proof -
  have "wf_runtime (fresh_runtime 0 sample_config)"
    unfolding fresh_runtime_def by (rule wf_new_runtime) (simp add: sample_config_def)
  from out_of_range_recordings [OF this, of 2] show ?thesis by (simp add: sample_config_def)
qed

end
