(* ===== verification/LB_Kernel.thy ===== *)
theory LB_Kernel
  imports LB_Runtime
begin

text \<open>
  The operating system as the sources see it. The kernel is not part of the repository, so what
  it answers is a parameter: the fields below the first line of the record are its answers, given
  as functions of the number of calls made so far or as scripts of the results that the calls on
  a descriptor will return. The fields after them record what the calls did: the open
  descriptors, the epoll interest list, and the bytes that went through each descriptor since it
  was opened. A script that has run out answers \<open>EAGAIN\<close>: a nonblocking descriptor with
  nothing more to say. \<open>WFail\<close> is an error that \<open>write\<close> returns: for a write that raises
  \<open>SIGPIPE\<close> the process ends with the call, and the model has no step for it.
\<close>

type_synonym fd = int
type_synonym bytes = string

datatype read_result = RData bytes | RAgain | RIntr | RFail
datatype write_result = WTake nat | WAgain | WIntr | WFail
datatype accept_result = AClient | AAgain | AIntr | AFail

text \<open>One address of \<open>getaddrinfo\<close>'s list, with what the calls on it return.\<close>

record attempt =
  a_socket :: bool      \<comment> \<open>\<open>socket\<close> gives a descriptor\<close>
  a_reuseaddr :: int    \<comment> \<open>\<open>setsockopt(SO_REUSEADDR)\<close>\<close>
  a_reuseport :: int    \<comment> \<open>\<open>setsockopt(SO_REUSEPORT)\<close>\<close>
  a_getfl :: int        \<comment> \<open>\<open>fcntl(F_GETFL)\<close>\<close>
  a_setfl :: int        \<comment> \<open>\<open>fcntl(F_SETFL)\<close>\<close>
  a_connect :: bool     \<comment> \<open>\<open>connect\<close> returns 0 or fails with \<open>EINPROGRESS\<close>\<close>
  a_bind :: int
  a_listen :: int

record kern =
  k_alloc :: "fd set \<Rightarrow> fd"                       \<comment> \<open>the descriptor given when these are open\<close>
  k_limit :: nat                                  \<comment> \<open>\<open>RLIMIT_NOFILE\<close>\<close>
  k_clock :: "nat \<Rightarrow> int"                         \<comment> \<open>\<open>steady_clock\<close>, nanoseconds\<close>
  k_draw :: "nat \<Rightarrow> nat \<Rightarrow> nat"                   \<comment> \<open>random draws of one \<open>select\<close>\<close>
  k_getaddrinfo :: "nat \<Rightarrow> bool \<Rightarrow> endpoint \<Rightarrow> string + attempt list"
                                                  \<comment> \<open>\<open>getaddrinfo\<close>, \<open>AI_PASSIVE\<close> or not\<close>
  k_poll :: "nat \<Rightarrow> int \<Rightarrow> int"                   \<comment> \<open>\<open>poll\<close> of a connecting socket, by its timeout\<close>
  k_ctl :: "nat \<Rightarrow> bool"                          \<comment> \<open>\<open>epoll_ctl\<close> succeeds\<close>
  k_soerror :: "nat \<Rightarrow> int option"                \<comment> \<open>\<open>getsockopt(SO_ERROR)\<close>, \<open>None\<close> on failure\<close>
  k_strerror :: "nat \<Rightarrow> string"
  k_order :: "fd set \<Rightarrow> fd list"                  \<comment> \<open>iteration order of the hash map\<close>
  k_accepts :: "accept_result list"
  k_reads :: "fd \<Rightarrow> read_result list"
  k_writes :: "fd \<Rightarrow> write_result list"
  k_calls :: nat
  k_open :: "fd set"
  k_armed :: "fd \<rightharpoonup> u32"
  k_rcvd :: "fd \<Rightarrow> bytes"
  k_sent :: "fd \<Rightarrow> bytes"

section \<open>Calls\<close>

definition tick :: "kern \<Rightarrow> kern" where
  "tick k = k\<lparr>k_calls := Suc (k_calls k)\<rparr>"

definition clock_now :: "kern \<Rightarrow> int" where
  "clock_now k = k_clock k (k_calls k)"

definition sys_open :: "kern \<Rightarrow> fd \<times> kern" where
  "sys_open k =
     (let fd = k_alloc k (k_open k) in
      (fd, k\<lparr>k_open := insert fd (k_open k), k_armed := (k_armed k)(fd := None),
             k_rcvd := (k_rcvd k)(fd := []), k_sent := (k_sent k)(fd := [])\<rparr>))"

definition table_full :: "kern \<Rightarrow> bool" where
  "table_full k \<longleftrightarrow> card (k_open k) \<ge> k_limit k"

definition sys_close :: "fd \<Rightarrow> kern \<Rightarrow> kern" where
  "sys_close fd k = k\<lparr>k_open := k_open k - {fd}, k_armed := (k_armed k)(fd := None)\<rparr>"

definition sys_read :: "fd \<Rightarrow> kern \<Rightarrow> read_result \<times> kern" where
  "sys_read fd k =
     (case k_reads k fd of
        [] \<Rightarrow> (RAgain, k)
      | r # rs \<Rightarrow>
          (r, k\<lparr>k_reads := (k_reads k)(fd := rs),
                k_rcvd := (case r of RData bs \<Rightarrow> (k_rcvd k)(fd := k_rcvd k fd @ bs) | _ \<Rightarrow> k_rcvd k)\<rparr>))"

text \<open>\<open>write\<close> takes at most what it is offered.\<close>

definition sys_write :: "fd \<Rightarrow> bytes \<Rightarrow> kern \<Rightarrow> write_result \<times> kern" where
  "sys_write fd data k =
     (case k_writes k fd of
        [] \<Rightarrow> (WAgain, k)
      | r # rs \<Rightarrow>
          (let k1 = k\<lparr>k_writes := (k_writes k)(fd := rs)\<rparr> in
           case r of
             WTake room \<Rightarrow>
               (WTake (min room (length data)),
                k1\<lparr>k_sent := (k_sent k)(fd := k_sent k fd @ take room data)\<rparr>)
           | _ \<Rightarrow> (r, k1)))"

definition ctl_add :: "fd \<Rightarrow> u32 \<Rightarrow> kern \<Rightarrow> kern" where
  "ctl_add fd events k = tick (if k_ctl k (k_calls k) then k\<lparr>k_armed := (k_armed k)(fd \<mapsto> events)\<rparr> else k)"

definition ctl_mod :: "fd \<Rightarrow> u32 \<Rightarrow> kern \<Rightarrow> kern" where
  "ctl_mod fd events k = ctl_add fd events k"

definition throw_errno :: "string \<Rightarrow> kern \<Rightarrow> exn" where
  "throw_errno message k = RuntimeError (message @ '': '' @ k_strerror k (k_calls k))"

section \<open>What the sources rely on\<close>

text \<open>
  Documented behaviour of the kernel and of the hash map: a new descriptor is not one that is
  open, descriptors are not negative, the descriptor limit is an \<open>int\<close>, and iterating over
  a map visits each key once.
\<close>

definition kern_ok :: "kern \<Rightarrow> bool" where
  "kern_ok k \<longleftrightarrow>
     (\<forall>S. finite S \<longrightarrow> k_alloc k S \<notin> S \<and> 0 \<le> k_alloc k S) \<and> k_limit k < 2 ^ 31 \<and>
     (\<forall>S. finite S \<longrightarrow> distinct (k_order k S) \<and> set (k_order k S) = S) \<and>
     finite (k_open k) \<and> (\<forall>fd \<in> k_open k. 0 \<le> fd) \<and> card (k_open k) \<le> k_limit k"

definition sample_kern :: kern where
  "sample_kern = \<lparr>
     k_alloc = (\<lambda>S. if S = {} then 0 else max 0 (Max S + 1)),
     k_limit = 1024,
     k_clock = (\<lambda>n. 1000000 * int n),
     k_draw = (\<lambda>_ _. 0),
     k_getaddrinfo = (\<lambda>_ _ _. Inr [\<lparr>a_socket = True, a_reuseaddr = 0, a_reuseport = 0, a_getfl = 0,
       a_setfl = 0, a_connect = True, a_bind = 0, a_listen = 0\<rparr>]),
     k_poll = (\<lambda>_ _. 1),
     k_ctl = (\<lambda>_. True),
     k_soerror = (\<lambda>_. Some 0),
     k_strerror = (\<lambda>_. ''error''),
     k_order = sorted_list_of_set,
     k_accepts = [],
     k_reads = (\<lambda>_. []),
     k_writes = (\<lambda>_. []),
     k_calls = 0,
     k_open = {3, 4, 5},
     k_armed = Map.empty,
     k_rcvd = (\<lambda>_. []),
     k_sent = (\<lambda>_. [])\<rparr>"

lemma sample_alloc: "finite S \<Longrightarrow> (if S = {} then 0 else max 0 (Max S + 1)) \<notin> (S :: int set)"
proof
  assume "finite S" and mem: "(if S = {} then 0 else max 0 (Max S + 1)) \<in> S"
  then have "S \<noteq> {}" and "max 0 (Max S + 1) \<in> S" by (auto split: if_splits)
  with Max_ge [OF \<open>finite S\<close>, of "max 0 (Max S + 1)"] show False by simp
qed

lemma sample_kern_ok: "kern_ok sample_kern"
  using sample_alloc by (simp add: kern_ok_def sample_kern_def)

text \<open>Only the open descriptors matter for the rest of \<open>kern_ok\<close>.\<close>

lemma kern_ok_cong:
  "k_alloc k' = k_alloc k \<Longrightarrow> k_limit k' = k_limit k \<Longrightarrow> k_order k' = k_order k \<Longrightarrow>
    k_open k' = k_open k \<Longrightarrow> kern_ok k' = kern_ok k"
  by (simp add: kern_ok_def)

lemma kern_ok_open:
  assumes "kern_ok k" and "\<not> table_full k"
  shows "kern_ok (snd (sys_open k))" and "fst (sys_open k) \<notin> k_open k"
proof -
  show fresh: "fst (sys_open k) \<notin> k_open k"
    using assms(1) by (simp add: kern_ok_def sys_open_def Let_def)
  then have "card (insert (fst (sys_open k)) (k_open k)) \<le> k_limit k"
    using assms by (simp add: kern_ok_def table_full_def)
  moreover have "0 \<le> fst (sys_open k)" using assms(1) by (simp add: kern_ok_def sys_open_def Let_def)
  ultimately show "kern_ok (snd (sys_open k))"
    using assms(1) by (simp add: kern_ok_def sys_open_def Let_def)
qed

lemma kern_ok_close: "kern_ok k \<Longrightarrow> kern_ok (sys_close fd k)"
  using card_Diff1_le [of "k_open k" fd] by (simp add: kern_ok_def sys_close_def)

lemma kern_ok_calls [simp]:
  "kern_ok (tick k) = kern_ok k"
  "kern_ok (ctl_add fd events k) = kern_ok k"
  "kern_ok (ctl_mod fd events k) = kern_ok k"
  by (rule kern_ok_cong; simp add: tick_def ctl_add_def ctl_mod_def)+

lemma kern_ok_read: "sys_read fd k = (r, k') \<Longrightarrow> kern_ok k' = kern_ok k"
  by (rule kern_ok_cong) (auto simp: sys_read_def split: list.splits)

lemma kern_ok_write: "sys_write fd d k = (r, k') \<Longrightarrow> kern_ok k' = kern_ok k"
  by (rule kern_ok_cong) (auto simp: sys_write_def Let_def split: list.splits write_result.splits)

end
