(* ===== verification/LB_Net.thy ===== *)
theory LB_Net
  imports LB_Kernel
begin

text \<open>
  The socket helpers at the top of \<open>src/server.cpp\<close>: the option setters that throw, the
  two loops over the addresses of an endpoint, the descriptor limit, the health probe and the
  worker count. Each address of \<open>getaddrinfo\<close>'s result comes with what the calls on it
  return; \<open>unique_ptr\<close> frees the list on every path, so it does not appear.
\<close>

section \<open>Names\<close>

definition resolve_endpoint :: "endpoint \<Rightarrow> bool \<Rightarrow> kern \<Rightarrow> attempt list res" where
  "resolve_endpoint e passive k =
     (case k_getaddrinfo k (k_calls k) passive e of
        Inl text \<Rightarrow>
          Inl (RuntimeError (''getaddrinfo('' @ endpoint_label e @ '') failed: '' @ text))
      | Inr addresses \<Rightarrow> Inr addresses)"

section \<open>Options\<close>

definition set_nonblocking :: "attempt \<Rightarrow> kern \<Rightarrow> exn option" where
  "set_nonblocking a k =
     (if a_getfl a = -1 then Some (throw_errno ''fcntl(F_GETFL) failed'' k)
      else if a_setfl a = -1 then Some (throw_errno ''fcntl(F_SETFL) failed'' k)
      else None)"

definition set_reuse_options :: "bool \<Rightarrow> attempt \<Rightarrow> kern \<Rightarrow> exn option" where
  "set_reuse_options reuse_port a k =
     (if a_reuseaddr a = -1 then Some (throw_errno ''setsockopt(SO_REUSEADDR) failed'' k)
      else if reuse_port \<and> a_reuseport a = -1
      then Some (throw_errno ''setsockopt(SO_REUSEPORT) failed'' k)
      else None)"

section \<open>Connecting and listening\<close>

fun connect_loop :: "attempt list \<Rightarrow> kern \<Rightarrow> fd option res \<times> kern" where
  "connect_loop [] k = (Inr None, k)"
| "connect_loop (a # rest) k =
     (if \<not> a_socket a \<or> table_full k then connect_loop rest k
      else let (fd, k1) = sys_open k in
        case set_nonblocking a k1 of
          Some e \<Rightarrow> (Inl e, sys_close fd k1)
        | None \<Rightarrow>
            if a_connect a then (Inr (Some fd), k1)
            else connect_loop rest (sys_close fd k1))"

text \<open>\<open>None\<close> is the return value \<open>-1\<close>.\<close>

definition connect_backend :: "endpoint \<Rightarrow> kern \<Rightarrow> fd option res \<times> kern" where
  "connect_backend e k =
     (case resolve_endpoint e False k of
        Inl ex \<Rightarrow> (Inl ex, tick k)
      | Inr addresses \<Rightarrow> connect_loop addresses (tick k))"

fun listen_loop :: "bool \<Rightarrow> attempt list \<Rightarrow> kern \<Rightarrow> fd option res \<times> kern" where
  "listen_loop reuse_port [] k = (Inr None, k)"
| "listen_loop reuse_port (a # rest) k =
     (if \<not> a_socket a \<or> table_full k then listen_loop reuse_port rest k
      else let (fd, k1) = sys_open k in
        case (case set_reuse_options reuse_port a k1 of
                Some e \<Rightarrow> Some e | None \<Rightarrow> set_nonblocking a k1) of
          Some e \<Rightarrow> (Inl e, sys_close fd k1)
        | None \<Rightarrow>
            if a_bind a = 0 \<and> a_listen a = 0 then (Inr (Some fd), k1)
            else listen_loop reuse_port rest (sys_close fd k1))"

definition make_listener :: "endpoint \<Rightarrow> bool \<Rightarrow> kern \<Rightarrow> fd res \<times> kern" where
  "make_listener e reuse_port k =
     (case resolve_endpoint e True k of
        Inl ex \<Rightarrow> (Inl ex, tick k)
      | Inr addresses \<Rightarrow>
          (case listen_loop reuse_port addresses (tick k) of
             (Inl ex, k1) \<Rightarrow> (Inl ex, k1)
           | (Inr (Some fd), k1) \<Rightarrow> (Inr fd, k1)
           | (Inr None, k1) \<Rightarrow>
               (Inl (throw_errno (''failed to bind listener '' @ endpoint_label e) k1), k1)))"

section \<open>Limits\<close>

text \<open>
  \<open>limits\<close> is \<open>getrlimit\<close>'s answer, soft and hard limit; the result is the soft
  limit that \<open>setrlimit\<close> is asked for, if it is called.
\<close>

definition raise_file_limit :: "(u64 \<times> u64) option \<Rightarrow> u32 \<Rightarrow> u64 option" where
  "raise_file_limit limits target =
     (case limits of
        None \<Rightarrow> None
      | Some (soft, hard) \<Rightarrow> if soft \<ge> ucast target then None else Some (min hard (ucast target)))"

definition resolved_worker_count :: "u32 \<Rightarrow> u32 \<Rightarrow> u32" where
  "resolved_worker_count detected configured =
     (if configured > 0 then configured else max 1 detected)"

section \<open>The health probe\<close>

text \<open>
  \<open>duration_cast<microseconds>\<close> of a duration in nanoseconds truncates towards zero, and
  the count is converted to \<open>uint64_t\<close>.
\<close>

definition latency_us :: "int \<Rightarrow> u64" where
  "latency_us ns = of_int (if ns < 0 then - ((- ns) div 1000) else ns div 1000)"

text \<open>
  The result is whether the probe succeeded and the latency it stored, if it came that far. The
  timeout is cast to \<open>int\<close>: from \<open>2 ^ 31\<close> on it is negative, which to \<open>poll\<close> means
  no timeout at all.
\<close>

definition tcp_probe :: "endpoint \<Rightarrow> u32 \<Rightarrow> kern \<Rightarrow> (bool \<times> u64 option) res \<times> kern" where
  "tcp_probe e timeout_ms k =
     (let started = clock_now k in
      case connect_backend e (tick k) of
        (Inl ex, k1) \<Rightarrow> (Inl ex, k1)
      | (Inr None, k1) \<Rightarrow> (Inr (False, None), k1)
      | (Inr (Some fd), k1) \<Rightarrow>
          if k_poll k1 (k_calls k1) (sint timeout_ms) \<le> 0 then (Inr (False, None), sys_close fd k1)
          else
            let ok = (k_soerror k1 (k_calls k1) = Some 0);
                k2 = tick (sys_close fd k1)
            in (Inr (ok, Some (latency_us (clock_now k2 - started))), tick k2))"

section \<open>Properties\<close>

lemma sys_close_open [simp]:
  "kern_ok k \<Longrightarrow> \<not> table_full k \<Longrightarrow> k_open (sys_close (fst (sys_open k)) (snd (sys_open k))) = k_open k"
  using kern_ok_open [of k] by (auto simp: sys_close_def sys_open_def Let_def)

lemma open_fields [simp]:
  "k_open (snd (sys_open k)) = insert (fst (sys_open k)) (k_open k)"
  by (simp add: sys_open_def Let_def)

lemma tick_open [simp]: "k_open (tick k) = k_open k"
  by (simp add: tick_def)

text \<open>The call either opened one descriptor and returned it, or changed no descriptor.\<close>

definition opened_at_most_one :: "fd set \<Rightarrow> fd option res \<Rightarrow> fd set \<Rightarrow> bool" where
  "opened_at_most_one before r after \<longleftrightarrow>
     (case r of Inr (Some fd) \<Rightarrow> fd \<notin> before \<and> after = insert fd before | _ \<Rightarrow> after = before)"

lemma connect_loop_open:
  "kern_ok k \<Longrightarrow> connect_loop as k = (r, k') \<Longrightarrow>
    kern_ok k' \<and> opened_at_most_one (k_open k) r (k_open k')"
proof (induction as arbitrary: k)
  case Nil
  then show ?case by (auto simp: opened_at_most_one_def)
next
  case (Cons a as)
  show ?case
  proof (cases "\<not> a_socket a \<or> table_full k")
    case True
    with Cons show ?thesis by auto
  next
    case False
    obtain fd k1 where o: "sys_open k = (fd, k1)" by fastforce
    have ok: "kern_ok k1" "fd \<notin> k_open k" "kern_ok (sys_close fd k1)" "k_open (sys_close fd k1) = k_open k"
      "k_open k1 = insert fd (k_open k)"
      using kern_ok_open [OF Cons.prems(1)] False o sys_close_open [OF Cons.prems(1)] open_fields [of k]
        kern_ok_close [of k1 fd] by auto
    show ?thesis
      using Cons.prems(2) Cons.IH [OF ok(3), unfolded ok(4)] False o ok
      by (auto simp: opened_at_most_one_def [of _ "Inl _"] opened_at_most_one_def [of _ "Inr (Some _)"]
          split: option.splits if_splits)
  qed
qed

lemma connect_backend_open:
  "kern_ok k \<Longrightarrow> connect_backend e k = (r, k') \<Longrightarrow>
    kern_ok k' \<and> opened_at_most_one (k_open k) r (k_open k')"
  using connect_loop_open [of "tick k" _ r k']
  by (auto simp: connect_backend_def opened_at_most_one_def [of _ "Inl _"] split: sum.splits)

lemma listen_loop_open:
  "kern_ok k \<Longrightarrow> listen_loop rp as k = (r, k') \<Longrightarrow>
    kern_ok k' \<and> opened_at_most_one (k_open k) r (k_open k')"
proof (induction as arbitrary: k)
  case Nil
  then show ?case by (auto simp: opened_at_most_one_def)
next
  case (Cons a as)
  show ?case
  proof (cases "\<not> a_socket a \<or> table_full k")
    case True
    with Cons show ?thesis by auto
  next
    case False
    obtain fd k1 where o: "sys_open k = (fd, k1)" by fastforce
    have ok: "kern_ok k1" "fd \<notin> k_open k" "kern_ok (sys_close fd k1)" "k_open (sys_close fd k1) = k_open k"
      "k_open k1 = insert fd (k_open k)"
      using kern_ok_open [OF Cons.prems(1)] False o sys_close_open [OF Cons.prems(1)] open_fields [of k]
        kern_ok_close [of k1 fd] by auto
    show ?thesis
      using Cons.prems(2) Cons.IH [OF ok(3), unfolded ok(4)] False o ok
      by (auto simp: opened_at_most_one_def [of _ "Inl _"] opened_at_most_one_def [of _ "Inr (Some _)"]
          split: option.splits if_splits)
  qed
qed

text \<open>
  C28. No descriptor leaks from the address loops. Connecting to a backend and opening a listener
  either return one new descriptor, and open exactly that one, or return none or throw, and leave
  the set of open descriptors as it was, whichever addresses fail and at which call; a health
  probe leaves the set unchanged in every case.
\<close>

theorem no_descriptor_leak:
  assumes "kern_ok k"
  shows "(case connect_backend b k of
       (Inr (Some fd), k') \<Rightarrow> fd \<notin> k_open k \<and> k_open k' = insert fd (k_open k)
     | (_, k') \<Rightarrow> k_open k' = k_open k) \<and>
    (case make_listener e reuse_port k of
       (Inr fd, k') \<Rightarrow> fd \<notin> k_open k \<and> k_open k' = insert fd (k_open k)
     | (Inl _, k') \<Rightarrow> k_open k' = k_open k) \<and>
    k_open (snd (tcp_probe b timeout k)) = k_open k"
proof (intro conjI)
  obtain r k' where c: "connect_backend b k = (r, k')" by fastforce
  from connect_backend_open [OF assms c] c
  show "case connect_backend b k of
       (Inr (Some fd), k') \<Rightarrow> fd \<notin> k_open k \<and> k_open k' = insert fd (k_open k)
     | (_, k') \<Rightarrow> k_open k' = k_open k"
    by (auto simp: opened_at_most_one_def split: sum.splits option.splits)
  show "case make_listener e reuse_port k of
       (Inr fd, k') \<Rightarrow> fd \<notin> k_open k \<and> k_open k' = insert fd (k_open k)
     | (Inl _, k') \<Rightarrow> k_open k' = k_open k"
  proof (cases "resolve_endpoint e True k")
    case (Inr as)
    obtain r1 k1 where l: "listen_loop reuse_port as (tick k) = (r1, k1)" by fastforce
    with listen_loop_open [OF _ l] assms Inr show ?thesis
      by (auto simp: make_listener_def opened_at_most_one_def split: sum.splits option.splits)
  qed (simp add: make_listener_def)
  obtain r2 k2 where c2: "connect_backend b (tick k) = (r2, k2)" by fastforce
  with connect_backend_open [OF _ c2] assms show "k_open (snd (tcp_probe b timeout k)) = k_open k"
    by (auto simp: tcp_probe_def Let_def sys_close_def opened_at_most_one_def
        split: sum.splits option.splits)
qed

theorem no_descriptor_leak_witness:
  "k_open (snd (tcp_probe \<lparr>host = ''h'', port = 80\<rparr> 500 sample_kern)) = {3, 4, 5}"
  using no_descriptor_leak [OF sample_kern_ok, where b = "\<lparr>host = ''h'', port = 80\<rparr>" and timeout = 500] by (simp add: sample_kern_def)

text \<open>
  The descriptor limit is only ever raised: when \<open>setrlimit\<close> is called, it asks for
  more than the old soft limit or for the hard limit, never for more than the hard limit nor than
  the configured target; and the number of workers is never zero.
\<close>

theorem limits_sane:
  "(raise_file_limit (Some (soft, hard)) target = Some l \<longrightarrow>
     l \<le> hard \<and> l \<le> ucast target \<and> (soft \<le> hard \<longrightarrow> soft \<le> l) \<and> soft < ucast target) \<and>
   (soft \<ge> ucast target \<longrightarrow> raise_file_limit (Some (soft, hard)) target = None) \<and>
   resolved_worker_count detected configured > 0 \<and>
   (configured > 0 \<longrightarrow> resolved_worker_count detected configured = configured)"
  by (auto simp: raise_file_limit_def resolved_worker_count_def not_le max_def word_gt_0 not_less
      split: if_splits)

theorem limits_sane_witness:
  "raise_file_limit (Some (1024, 524288)) 25000 = Some 25000 \<and> (1024 :: u64) \<le> 25000"
  using limits_sane [of 1024 524288 25000 25000] by (simp add: raise_file_limit_def)

end
