(* ===== verification/LB_Worker.thy ===== *)
theory LB_Worker
  imports LB_Net
begin

unbundle bit_operations_syntax

text \<open>
  One worker of the load balancer: \<open>TcpLoadBalancer::Impl::Worker\<close> of
  \<open>src/server.cpp\<close>. Its state is the map of peers, the shared runtime and the kernel it
  talks to. Every member function is one definition, with its branches in the order of the
  source; it returns the new state, and the exception when one leaves the function. The loops of
  \<open>flush\<close>, \<open>read_available\<close> and \<open>accept_clients\<close> end because each round
  takes one answer of the kernel's script.
\<close>

section \<open>State\<close>

definition kBufferSize :: nat where
  "kBufferSize = 65536"

definition kHighWatermark :: nat where
  "kHighWatermark = 1048576"

record peer =
  p_fd :: fd
  p_paired :: fd
  p_backend :: nat
  p_backend_side :: bool
  p_connecting :: bool
  p_started :: int
  p_deadline :: int
  p_last :: int
  p_outbound :: bytes
  p_sent :: nat

record worker =
  w_peers :: "fd \<rightharpoonup> peer"
  w_rt :: runtime
  w_kern :: kern
  w_listener :: fd
  w_timer :: fd
  w_epoll :: fd

definition EPOLLIN :: u32 where "EPOLLIN = 1"
definition EPOLLOUT :: u32 where "EPOLLOUT = 4"
definition EPOLLERR :: u32 where "EPOLLERR = 8"
definition EPOLLHUP :: u32 where "EPOLLHUP = 16"
definition EPOLLRDHUP :: u32 where "EPOLLRDHUP = 8192"

lemmas epoll_defs = EPOLLIN_def EPOLLOUT_def EPOLLERR_def EPOLLHUP_def EPOLLRDHUP_def

definition has_flag :: "u32 \<Rightarrow> u32 \<Rightarrow> bool" where
  "has_flag flags f \<longleftrightarrow> flags AND f \<noteq> 0"

text \<open>Running an operation of the shared runtime from the worker.\<close>

definition on_rt :: "(runtime \<Rightarrow> runtime out) \<Rightarrow> worker \<Rightarrow> worker out" where
  "on_rt f w = map_out (\<lambda>r. w\<lparr>w_rt := r\<rparr>) (f (w_rt w))"

definition on_kern :: "(kern \<Rightarrow> kern) \<Rightarrow> worker \<Rightarrow> worker" where
  "on_kern f w = w\<lparr>w_kern := f (w_kern w)\<rparr>"

definition put_peer :: "fd \<Rightarrow> peer \<Rightarrow> worker \<Rightarrow> worker" where
  "put_peer fd p w = w\<lparr>w_peers := (w_peers w)(fd \<mapsto> p)\<rparr>"

section \<open>The interest in a descriptor\<close>

definition interest :: "(fd \<rightharpoonup> peer) \<Rightarrow> peer \<Rightarrow> u32" where
  "interest peers peer =
     (let events = EPOLLERR OR EPOLLHUP OR EPOLLRDHUP;
          events = (if p_connecting peer \<or> p_sent peer < length (p_outbound peer)
                    then events OR EPOLLOUT else events);
          pair_can_buffer = (case peers (p_paired peer) of
              None \<Rightarrow> False | Some q \<Rightarrow> length (p_outbound q) < kHighWatermark)
      in if \<not> p_connecting peer \<and> pair_can_buffer then events OR EPOLLIN else events)"

definition modify_fd :: "fd \<Rightarrow> worker \<Rightarrow> worker" where
  "modify_fd fd w =
     (case w_peers w fd of
        None \<Rightarrow> w
      | Some peer \<Rightarrow> on_kern (ctl_mod fd (interest (w_peers w) peer)) w)"

definition add_fd :: "fd \<Rightarrow> u32 \<Rightarrow> worker \<Rightarrow> worker out" where
  "add_fd fd events w =
     (if k_ctl (w_kern w) (k_calls (w_kern w)) then Ok (on_kern (ctl_add fd events) w)
      else Throw (throw_errno ''epoll_ctl(ADD) failed'' (w_kern w)) (on_kern (ctl_add fd events) w))"

section \<open>Closing\<close>

definition close_one :: "fd \<Rightarrow> worker \<Rightarrow> worker" where
  "close_one fd w =
     (case w_peers w fd of
        None \<Rightarrow> w
      | Some _ \<Rightarrow> (on_kern (sys_close fd) w)\<lparr>w_peers := (w_peers w)(fd := None)\<rparr>)"

definition maybe_eject :: "nat \<Rightarrow> worker \<Rightarrow> worker out" where
  "maybe_eject i w =
     (case consecutive_failures (r_sched (w_rt w)) i of
        Inl e \<Rightarrow> Throw e w
      | Inr failures \<Rightarrow>
          if failures \<ge> passive_failure_threshold (r_config (w_rt w))
          then on_rt (set_backend_state i Down) w else Ok w)"

definition close_pair :: "fd \<Rightarrow> bool \<Rightarrow> worker \<Rightarrow> worker out" where
  "close_pair fd backend_failure w =
     (case w_peers w fd of
        None \<Rightarrow> Ok w
      | Some peer \<Rightarrow>
          chain (on_rt (record_connection_close (p_backend peer))
                  (close_one (p_paired peer) (close_one fd w))) (\<lambda>w.
          if backend_failure
          then chain (on_rt (record_backend_failure (p_backend peer)) w) (maybe_eject (p_backend peer))
          else Ok w))"

section \<open>Moving bytes\<close>

definition drained :: "peer \<Rightarrow> peer" where
  "drained p = p\<lparr>p_outbound := [], p_sent := 0\<rparr>"

text \<open>
  \<open>flush\<close>: writes the pending output of a descriptor until it is all written, the socket
  blocks, or the peer is gone. The source does not suppress \<open>SIGPIPE\<close> here: the branch of \<open>WFail\<close> is
  what it does with the errors that \<open>write\<close> returns.
\<close>

function flush :: "fd \<Rightarrow> worker \<Rightarrow> worker out" where
  "flush fd w =
     (case w_peers w fd of
        None \<Rightarrow> Ok w
      | Some peer \<Rightarrow>
          if p_connecting peer \<or> p_sent peer \<ge> length (p_outbound peer) then
            Ok (if p_sent peer \<ge> length (p_outbound peer) then put_peer fd (drained peer) w else w)
          else
            (case sys_write fd (drop (p_sent peer) (p_outbound peer)) (w_kern w) of
               (WTake n, k) \<Rightarrow>
                 if n > 0 then
                   let peer1 = peer\<lparr>p_sent := p_sent peer + n, p_last := clock_now k\<rparr>;
                       w1 = w\<lparr>w_kern := tick k\<rparr>
                   in if p_sent peer1 = length (p_outbound peer1)
                      then Ok (modify_fd (p_paired peer) (put_peer fd (drained peer1) w1))
                      else flush fd (put_peer fd peer1 w1)
                 else close_pair fd (p_backend_side peer) (w\<lparr>w_kern := k\<rparr>)
             | (WAgain, k) \<Rightarrow> Ok (w\<lparr>w_kern := k\<rparr>)
             | (WIntr, k) \<Rightarrow> flush fd (w\<lparr>w_kern := k\<rparr>)
             | (WFail, k) \<Rightarrow> close_pair fd (p_backend_side peer) (w\<lparr>w_kern := k\<rparr>)))"
  by pat_completeness auto
termination
  by (relation "measure (\<lambda>(fd, w). length (k_writes (w_kern w) fd))")
    (auto simp: sys_write_def tick_def put_peer_def Let_def split: list.splits write_result.splits)

declare flush.simps [simp del]

text \<open>No operation but \<open>read\<close> takes from the read scripts.\<close>

lemma reads_frame [simp]:
  "k_reads (w_kern (put_peer fd p w)) = k_reads (w_kern w)"
  "k_reads (w_kern (modify_fd fd w)) = k_reads (w_kern w)"
  "k_reads (w_kern (close_one fd w)) = k_reads (w_kern w)"
  "k_reads (w_kern (state_of (maybe_eject i w))) = k_reads (w_kern w)"
  "k_reads (w_kern (state_of (on_rt f w))) = k_reads (w_kern w)"
  by (auto simp: put_peer_def modify_fd_def close_one_def maybe_eject_def on_rt_def on_kern_def
      ctl_mod_def ctl_add_def tick_def sys_close_def state_of_def map_out_def
      split: option.splits sum.splits out.splits)

lemma reads_chain:
  "k_reads (w_kern (state_of r)) = ks \<Longrightarrow>
    (\<And>s. k_reads (w_kern (state_of (f s))) = k_reads (w_kern s)) \<Longrightarrow>
    k_reads (w_kern (state_of (chain r f))) = ks"
  by (cases r) auto

lemma reads_close_pair [simp]:
  "k_reads (w_kern (state_of (close_pair fd b w))) = k_reads (w_kern w)"
  by (cases "w_peers w fd"; cases b) (auto simp: close_pair_def intro!: reads_chain)

lemma reads_write: "sys_write fd d k = (r, k') \<Longrightarrow> k_reads k' = k_reads k"
  by (auto simp: sys_write_def Let_def split: list.splits write_result.splits)

lemma reads_flush [simp]: "k_reads (w_kern (state_of (flush fd w))) = k_reads (w_kern w)"
proof (induction fd w rule: flush.induct)
  case (1 fd w)
  show ?case
  proof (cases "w_peers w fd")
    case None
    then show ?thesis by (simp add: flush.simps [of fd w])
  next
    case (Some p)
    obtain r k where wr: "sys_write fd (drop (p_sent p) (p_outbound p)) (w_kern w) = (r, k)" by fastforce
    note IH = "1.IH" [OF Some _ wr [symmetric]]
    show ?thesis
    proof (cases "p_connecting p \<or> p_sent p \<ge> length (p_outbound p)")
      case True
      with Some show ?thesis by (simp add: flush.simps [of fd w])
    next
      case False
      with Some wr IH reads_write [OF wr] show ?thesis
        by (cases r) (simp_all add: flush.simps [of fd w] Let_def tick_def)
    qed
  qed
qed

text \<open>
  \<open>read_available\<close>: reads from a descriptor into the output buffer of its peer until the
  socket has nothing more, the buffer of the peer is full, or the pair is gone.
\<close>

definition append_outbound :: "bytes \<Rightarrow> int \<Rightarrow> peer \<Rightarrow> peer" where
  "append_outbound bs now p = p\<lparr>p_last := now, p_outbound := p_outbound p @ bs\<rparr>"

definition record_bytes :: "bool \<Rightarrow> nat \<Rightarrow> nat \<Rightarrow> runtime \<Rightarrow> runtime out" where
  "record_bytes from_backend i n =
     (if from_backend then record_bytes_from_backend i (of_nat n)
      else record_bytes_from_client i (of_nat n))"

definition outbound_full :: "fd \<Rightarrow> worker \<Rightarrow> bool" where
  "outbound_full fd w \<longleftrightarrow>
     (case w_peers w fd of None \<Rightarrow> False | Some q \<Rightarrow> length (p_outbound q) \<ge> kHighWatermark)"

text \<open>What one successful read does, up to the decision whether to read again.\<close>

definition deliver :: "fd \<Rightarrow> bytes \<Rightarrow> peer \<Rightarrow> peer \<Rightarrow> worker \<Rightarrow> worker out" where
  "deliver fd bs source paired w =
     (let w1 = put_peer (p_paired source) (append_outbound bs (p_last source) paired) w in
      chain (on_rt (record_bytes (p_backend_side source) (p_backend source) (length bs)) w1) (\<lambda>w.
      chain (flush (p_paired source) w) (\<lambda>w.
      Ok (modify_fd (p_paired source) (modify_fd fd w)))))"

lemma reads_deliver:
  "k_reads (w_kern (state_of (deliver fd bs source paired w))) = k_reads (w_kern w)"
  by (auto simp: deliver_def Let_def intro!: reads_chain)

function read_available :: "fd \<Rightarrow> worker \<Rightarrow> worker out" where
  "read_available fd w =
     (case w_peers w fd of
        None \<Rightarrow> Ok w
      | Some peer \<Rightarrow>
          (case sys_read fd (w_kern w) of
             (RData bs, k) \<Rightarrow>
               if bs = [] then close_pair fd False (w\<lparr>w_kern := k\<rparr>)
               else
                 let source = peer\<lparr>p_last := clock_now k\<rparr>;
                     w1 = put_peer fd source (w\<lparr>w_kern := tick k\<rparr>)
                 in (case w_peers w1 (p_paired source) of
                       None \<Rightarrow> close_pair fd False w1
                     | Some paired \<Rightarrow>
                         (case deliver fd bs source paired w1 of
                            Throw e w2 \<Rightarrow> Throw e w2
                          | Ok w2 \<Rightarrow>
                              if outbound_full (p_paired source) w2 then Ok w2
                              else read_available fd w2))
           | (RAgain, k) \<Rightarrow> Ok (w\<lparr>w_kern := k\<rparr>)
           | (RIntr, k) \<Rightarrow> read_available fd (w\<lparr>w_kern := k\<rparr>)
           | (RFail, k) \<Rightarrow> close_pair fd (p_backend_side peer) (w\<lparr>w_kern := k\<rparr>)))"
  by pat_completeness auto
termination
  by (relation "measure (\<lambda>(fd, w). length (k_reads (w_kern w) fd))")
    (auto simp: sys_read_def tick_def put_peer_def split: list.splits
      dest!: arg_cong [where f = "\<lambda>r. k_reads (w_kern (state_of r))"] simp: reads_deliver,
      metis fun_upd_same lessI)

declare read_available.simps [simp del]

section \<open>Connecting\<close>

text \<open>
  \<open>finish_connect\<close>: the backend socket has become writable. \<open>getsockopt\<close> says
  whether the connection is there.
\<close>

definition connected :: "int \<Rightarrow> peer \<Rightarrow> peer" where
  "connected now p = p\<lparr>p_connecting := False, p_last := now\<rparr>"

definition finish_connect :: "fd \<Rightarrow> worker \<Rightarrow> worker out" where
  "finish_connect fd w =
     (case w_peers w fd of
        None \<Rightarrow> Ok w
      | Some peer \<Rightarrow>
          if k_soerror (w_kern w) (k_calls (w_kern w)) \<noteq> Some 0
          then close_pair fd True (on_kern tick w)
          else
            let w1 = on_kern tick w;
                now = clock_now (w_kern w1);
                peer1 = connected now peer;
                w2 = put_peer fd peer1 (on_kern tick w1)
            in chain (on_rt (record_connect_latency (p_backend peer1)
                              (latency_us (p_last peer1 - p_started peer1))) w2) (\<lambda>w.
               chain (on_rt (heal_backend (p_backend peer1)) w) (\<lambda>w.
               chain (flush fd w) (\<lambda>w.
               Ok (modify_fd fd w)))))"

definition new_peer :: "fd \<Rightarrow> fd \<Rightarrow> nat \<Rightarrow> bool \<Rightarrow> bool \<Rightarrow> int \<Rightarrow> int \<Rightarrow> peer" where
  "new_peer fd paired i backend_side connecting now deadline =
     \<lparr>p_fd = fd, p_paired = paired, p_backend = i, p_backend_side = backend_side,
      p_connecting = connecting, p_started = now, p_deadline = deadline, p_last = now,
      p_outbound = [], p_sent = 0\<rparr>"

text \<open>\<open>unordered_map::emplace\<close> keeps an entry that is there.\<close>

definition emplace :: "fd \<Rightarrow> peer \<Rightarrow> worker \<Rightarrow> worker" where
  "emplace fd p w = (case w_peers w fd of None \<Rightarrow> put_peer fd p w | Some _ \<Rightarrow> w)"

definition milliseconds :: "u32 \<Rightarrow> int" where
  "milliseconds n = uint n * 1000000"

definition attach_backend :: "fd \<Rightarrow> worker \<Rightarrow> worker out" where
  "attach_backend client_fd w =
     (let (selected, sched) = select (k_draw (w_kern w) (k_calls (w_kern w))) (r_sched (w_rt w));
          w = on_kern tick (w\<lparr>w_rt := (w_rt w)\<lparr>r_sched := sched\<rparr>\<rparr>)
      in case selected of
           None \<Rightarrow> Ok (on_kern (sys_close client_fd) w)
         | Some b \<Rightarrow>
             (case connect_backend (sel_endpoint b) (w_kern w) of
                (Inl e, k) \<Rightarrow> Throw e (w\<lparr>w_kern := k\<rparr>)
              | (Inr None, k) \<Rightarrow>
                  chain (on_rt (record_backend_failure (sel_index b)) (w\<lparr>w_kern := k\<rparr>)) (\<lambda>w.
                  chain (maybe_eject (sel_index b) w) (\<lambda>w.
                  Ok (on_kern (sys_close client_fd) w)))
              | (Inr (Some backend_fd), k) \<Rightarrow>
                  let now = clock_now k;
                      deadline = now + milliseconds (connect_timeout_ms (r_config (w_rt w)))
                  in chain (on_rt (record_connection_open (sel_index b)) (w\<lparr>w_kern := tick k\<rparr>)) (\<lambda>w.
                     let w1 = emplace client_fd
                                (new_peer client_fd backend_fd (sel_index b) False False now deadline) w;
                         w2 = emplace backend_fd
                                (new_peer backend_fd client_fd (sel_index b) True True now deadline) w1
                     in chain (add_fd client_fd (EPOLLIN OR EPOLLERR OR EPOLLHUP OR EPOLLRDHUP) w2) (\<lambda>w.
                        add_fd backend_fd (EPOLLOUT OR EPOLLERR OR EPOLLHUP OR EPOLLRDHUP) w))))"

text \<open>
  \<open>accept4\<close>: fails with \<open>EMFILE\<close> when the descriptor table is full.
\<close>

definition sys_accept :: "kern \<Rightarrow> accept_result \<times> fd \<times> kern" where
  "sys_accept k =
     (case k_accepts k of
        [] \<Rightarrow> (AAgain, -1, k)
      | r # rs \<Rightarrow>
          (let k1 = k\<lparr>k_accepts := rs\<rparr> in
           if r = AClient then
             (if table_full k then (AFail, -1, k1)
              else let (fd, k2) = sys_open k1 in (AClient, fd, k2))
           else (r, -1, k1)))"

lemma accepts_calls [simp]:
  "k_accepts (tick k) = k_accepts k"
  "k_accepts (sys_close fd k) = k_accepts k"
  "k_accepts (snd (sys_open k)) = k_accepts k"
  "k_accepts (ctl_add fd ev k) = k_accepts k"
  by (simp_all add: tick_def sys_close_def sys_open_def ctl_add_def Let_def)

lemma accepts_connect_loop: "connect_loop as k = (r, k') \<Longrightarrow> k_accepts k' = k_accepts k"
proof (induction as arbitrary: k)
  case Nil
  then show ?case by auto
next
  case (Cons a as)
  obtain fd k1 where "sys_open k = (fd, k1)" by fastforce
  with Cons accepts_calls(3) [of k] show ?case
    by (auto split: if_splits option.splits)
qed

lemma accepts_connect: "connect_backend e k = (r, k') \<Longrightarrow> k_accepts k' = k_accepts k"
  by (auto simp: connect_backend_def dest: accepts_connect_loop split: sum.splits)

lemma accepts_chain:
  "k_accepts (w_kern (state_of r)) = ks \<Longrightarrow>
    (\<And>s. k_accepts (w_kern (state_of (f s))) = k_accepts (w_kern s)) \<Longrightarrow>
    k_accepts (w_kern (state_of (chain r f))) = ks"
  by (cases r) auto

lemma accepts_frame [simp]:
  "k_accepts (w_kern (on_kern tick w)) = k_accepts (w_kern w)"
  "k_accepts (w_kern (on_kern (sys_close fd) w)) = k_accepts (w_kern w)"
  "k_accepts (w_kern (state_of (maybe_eject i w))) = k_accepts (w_kern w)"
  "k_accepts (w_kern (state_of (on_rt f w))) = k_accepts (w_kern w)"
  "k_accepts (w_kern (emplace fd p w)) = k_accepts (w_kern w)"
  "k_accepts (w_kern (state_of (add_fd fd ev w))) = k_accepts (w_kern w)"
  by (auto simp: on_kern_def maybe_eject_def on_rt_def emplace_def put_peer_def add_fd_def
      state_of_def map_out_def split: option.splits sum.splits out.splits)

lemma accepts_attach: "k_accepts (w_kern (state_of (attach_backend c w))) = k_accepts (w_kern w)"
  by (auto simp: attach_backend_def Let_def intro!: accepts_chain dest: accepts_connect
      split: option.splits sum.splits prod.splits)

lemma accepts_sys_accept:
  "sys_accept k = (r, fd, k') \<Longrightarrow> r \<noteq> AAgain \<Longrightarrow> length (k_accepts k') < length (k_accepts k)"
  by (auto simp: sys_accept_def sys_open_def Let_def split: list.splits if_splits)

lemma accepts_attach_Ok: "attach_backend c w = Ok w1 \<Longrightarrow> k_accepts (w_kern w1) = k_accepts (w_kern w)"
  using accepts_attach [of c w] by simp

function accept_clients :: "worker \<Rightarrow> worker out" where
  "accept_clients w =
     (case sys_accept (w_kern w) of
        (AAgain, _, k) \<Rightarrow> Ok (w\<lparr>w_kern := k\<rparr>)
      | (AIntr, _, k) \<Rightarrow> accept_clients (w\<lparr>w_kern := k\<rparr>)
      | (AFail, _, k) \<Rightarrow> Ok (w\<lparr>w_kern := k\<rparr>)
      | (AClient, client_fd, k) \<Rightarrow>
          (case attach_backend client_fd (w\<lparr>w_kern := k\<rparr>) of
             Throw e w1 \<Rightarrow> Throw e w1
           | Ok w1 \<Rightarrow> accept_clients w1))"
  by pat_completeness auto
termination
  by (relation "measure (\<lambda>w. length (k_accepts (w_kern w)))")
    (auto dest!: accepts_attach_Ok sym [of "(_, _, _)"] dest: accepts_sys_accept)

declare accept_clients.simps [simp del]

section \<open>Timeouts\<close>

text \<open>
  Whether a client-side peer has timed out at time \<open>now\<close>: \<open>Some True\<close> when its
  backend has not connected by the deadline, \<open>Some False\<close> when the pair has been idle.
\<close>

definition expiry :: "(fd \<rightharpoonup> peer) \<Rightarrow> int \<Rightarrow> int \<Rightarrow> fd \<Rightarrow> bool option" where
  "expiry peers now idle fd =
     (case peers fd of
        None \<Rightarrow> None
      | Some peer \<Rightarrow>
          if p_backend_side peer then None
          else case peers (p_paired peer) of
              None \<Rightarrow> if p_last peer + idle \<le> now then Some False else None
            | Some paired \<Rightarrow>
                if p_connecting paired
                then (if p_deadline paired \<le> now then Some True else None)
                else (if p_last peer + idle \<le> now then Some False else None))"

fun close_expired :: "(fd \<times> bool) list \<Rightarrow> worker \<Rightarrow> worker out" where
  "close_expired [] w = Ok w"
| "close_expired ((fd, backend_failure) # rest) w =
     chain (close_pair fd backend_failure
       (w\<lparr>w_rt := (if backend_failure then count_connect_timeout else count_idle_timeout) (w_rt w)\<rparr>))
       (close_expired rest)"

definition expired_list :: "(fd \<rightharpoonup> peer) \<Rightarrow> int \<Rightarrow> int \<Rightarrow> fd list \<Rightarrow> (fd \<times> bool) list" where
  "expired_list peers now idle order =
     List.map_filter (\<lambda>fd. map_option (Pair fd) (expiry peers now idle fd)) order"

text \<open>\<open>consume_timer\<close>: the number of expirations, eight bytes, is read until a read gives anything else.\<close>

function consume_timer :: "fd \<Rightarrow> kern \<Rightarrow> kern" where
  "consume_timer fd k =
     (case sys_read fd k of
        (RData bs, k1) \<Rightarrow> if length bs = 8 then consume_timer fd k1 else k1
      | (_, k1) \<Rightarrow> k1)"
  by pat_completeness auto
termination
  by (relation "measure (\<lambda>(fd, k). length (k_reads k fd))")
    (auto simp: sys_read_def split: list.splits)

declare consume_timer.simps [simp del]

definition reap_timeouts :: "worker \<Rightarrow> worker out" where
  "reap_timeouts w =
     (let now = clock_now (w_kern w);
          idle = milliseconds (idle_timeout_ms (r_config (w_rt w)));
          order = k_order (w_kern w) (dom (w_peers w))
      in close_expired (expired_list (w_peers w) now idle order) (on_kern tick w))"

section \<open>Events\<close>

type_synonym event = "fd \<times> u32"

text \<open>One entry of the array that \<open>epoll_wait\<close> fills.\<close>

definition handle_event :: "event \<Rightarrow> worker \<Rightarrow> worker out" where
  "handle_event ev w =
     (case ev of (fd, flags) \<Rightarrow>
        if fd = w_listener w then accept_clients w
        else if fd = w_timer w then reap_timeouts (on_kern (consume_timer fd) w)
        else case w_peers w fd of
            None \<Rightarrow> Ok w
          | Some peer \<Rightarrow>
              if has_flag flags (EPOLLERR OR EPOLLHUP OR EPOLLRDHUP)
              then close_pair fd (p_backend_side peer) w
              else
                chain (if p_connecting peer \<and> has_flag flags EPOLLOUT then finish_connect fd w else Ok w) (\<lambda>w.
                chain (if w_peers w fd \<noteq> None \<and> has_flag flags EPOLLIN then read_available fd w else Ok w) (\<lambda>w.
                if w_peers w fd \<noteq> None \<and> has_flag flags EPOLLOUT then flush fd w else Ok w)))"

fun handle_batch :: "event list \<Rightarrow> worker \<Rightarrow> worker out" where
  "handle_batch [] w = Ok w"
| "handle_batch (ev # evs) w = chain (handle_event ev w) (handle_batch evs)"

text \<open>What one round of the loop gets: a failed wait is logged and retried.\<close>

datatype wait_result = Ready "event list" | WaitIntr | WaitError

fun event_loop :: "wait_result list \<Rightarrow> worker \<Rightarrow> worker out" where
  "event_loop [] w = Ok w"
| "event_loop (WaitIntr # rest) w = event_loop rest w"
| "event_loop (WaitError # rest) w = event_loop rest w"
| "event_loop (Ready evs # rest) w = chain (handle_batch evs w) (event_loop rest)"

section \<open>Start and shutdown\<close>

fun close_all :: "fd list \<Rightarrow> worker \<Rightarrow> worker out" where
  "close_all [] w = Ok w"
| "close_all (fd # fds) w = chain (close_pair fd False w) (close_all fds)"

definition close_fd :: "fd \<Rightarrow> kern \<Rightarrow> kern" where
  "close_fd fd k = (if fd \<noteq> -1 then sys_close fd k else k)"

definition shutdown :: "worker \<Rightarrow> worker out" where
  "shutdown w =
     chain (close_all (k_order (w_kern w) (dom (w_peers w))) w) (\<lambda>w.
       Ok ((on_kern (close_fd (w_epoll w) \<circ> close_fd (w_timer w) \<circ> close_fd (w_listener w)) w)
             \<lparr>w_listener := -1, w_timer := -1, w_epoll := -1\<rparr>))"

text \<open>
  \<open>Worker::run\<close>. The rounds are the waits until \<open>stop_requested\<close> is seen;
  \<open>epoll_ok\<close> and \<open>timer_ok\<close> say whether \<open>epoll_create1\<close> and the two timer
  calls succeed. An exception leaves the descriptors open, as in the source.
\<close>

definition open_fd :: "bool \<Rightarrow> string \<Rightarrow> (fd \<Rightarrow> worker \<Rightarrow> worker) \<Rightarrow> worker \<Rightarrow> worker out" where
  "open_fd ok message store w =
     (if \<not> ok \<or> table_full (w_kern w) then Throw (throw_errno message (w_kern w)) w
      else let (fd, k) = sys_open (w_kern w) in Ok (store fd (w\<lparr>w_kern := k\<rparr>)))"

definition worker_run :: "bool \<Rightarrow> bool \<Rightarrow> bool \<Rightarrow> wait_result list \<Rightarrow> worker \<Rightarrow> worker out" where
  "worker_run epoll_ok timer_ok settime_ok rounds w =
     (case make_listener (listen (r_config (w_rt w))) True (w_kern w) of
        (Inl e, k) \<Rightarrow> Throw e (w\<lparr>w_kern := k\<rparr>)
      | (Inr l, k) \<Rightarrow>
          chain (open_fd epoll_ok ''epoll_create1 failed'' (\<lambda>fd w. w\<lparr>w_epoll := fd\<rparr>)
                  (w\<lparr>w_kern := k, w_listener := l\<rparr>)) (\<lambda>w.
          chain (open_fd timer_ok ''timerfd_create failed'' (\<lambda>fd w. w\<lparr>w_timer := fd\<rparr>) w) (\<lambda>w.
          chain (if settime_ok then Ok w
                 else Throw (throw_errno ''timerfd_settime failed'' (w_kern w)) w) (\<lambda>w.
          chain (add_fd (w_listener w) EPOLLIN w) (\<lambda>w.
          chain (add_fd (w_timer w) EPOLLIN w) (\<lambda>w.
          chain (event_loop rounds w) shutdown))))))"

definition new_worker :: "runtime \<Rightarrow> kern \<Rightarrow> worker" where
  "new_worker r k = \<lparr>w_peers = Map.empty, w_rt = r, w_kern = k,
     w_listener = -1, w_timer = -1, w_epoll = -1\<rparr>"

end
