(* ===== verification/LB_Worker_Inv.thy ===== *)
theory LB_Worker_Inv
  imports LB_Worker
begin

text \<open>
  What a worker keeps true between its operations. The invariant has five parts: the peers come
  in pairs that point at each other and agree on their backend; the peers' descriptors are open
  and are not the listener, the timer or the epoll descriptor; every peer's write position lies
  in its buffer; what was written to a peer and what waits in its buffer together are exactly
  what was read from the other side; and the connection counters of the runtime are this
  worker's pairs on top of what the other workers hold. Each operation keeps it, and but for the
  exceptions of connecting and registering no operation throws.
\<close>

section \<open>The shape of the peer map\<close>

text \<open>Updates of the three changing fields are kept in the order of the record.\<close>

lemma worker_order [simp]:
  "w\<lparr>w_rt := r, w_peers := P\<rparr> = w\<lparr>w_peers := P, w_rt := r\<rparr>"
  "w\<lparr>w_kern := k, w_peers := P\<rparr> = w\<lparr>w_peers := P, w_kern := k\<rparr>"
  "w\<lparr>w_kern := k, w_rt := r\<rparr> = w\<lparr>w_rt := r, w_kern := k\<rparr>"
  by (cases w; simp)+

type_synonym core = "fd \<times> fd \<times> nat \<times> bool"

definition core :: "peer \<Rightarrow> core" where
  "core p = (p_fd p, p_paired p, p_backend p, p_backend_side p)"

definition shape :: "(fd \<rightharpoonup> peer) \<Rightarrow> (fd \<rightharpoonup> core)" where
  "shape P = (\<lambda>fd. map_option core (P fd))"

definition paired_shape :: "nat \<Rightarrow> (fd \<rightharpoonup> core) \<Rightarrow> bool" where
  "paired_shape n S \<longleftrightarrow>
     (\<forall>fd f pf i b. S fd = Some (f, pf, i, b) \<longrightarrow>
        f = fd \<and> i < n \<and> S pf = Some (pf, fd, i, \<not> b))"

definition client_fds :: "(fd \<rightharpoonup> core) \<Rightarrow> nat \<Rightarrow> fd set" where
  "client_fds S i = {fd. \<exists>f pf. S fd = Some (f, pf, i, False)}"

definition load :: "(fd \<rightharpoonup> core) \<Rightarrow> nat \<Rightarrow> nat" where
  "load S i = card (client_fds S i)"

lemma dom_shape [simp]: "dom (shape P) = dom P"
  by (auto simp: shape_def dom_def)

lemma shape_put: "P fd = Some p \<Longrightarrow> core p' = core p \<Longrightarrow> shape (P(fd \<mapsto> p')) = shape P"
  by (auto simp: shape_def)

lemma shape_remove: "shape (P(fd := None)) = (shape P)(fd := None)"
  by (auto simp: shape_def)

lemma paired_peer:
  assumes "paired_shape n (shape P)" and "P fd = Some p"
  shows "p_fd p = fd \<and> p_backend p < n \<and> p_paired p \<noteq> fd \<and>
    (\<exists>q. P (p_paired p) = Some q \<and> p_paired q = fd \<and> p_backend q = p_backend p \<and>
       p_backend_side q = (\<not> p_backend_side p))"
proof -
  have "shape P fd = Some (p_fd p, p_paired p, p_backend p, p_backend_side p)"
    using assms(2) by (simp add: shape_def core_def)
  with assms(1) have own: "p_fd p = fd" "p_backend p < n"
    and other: "shape P (p_paired p) = Some (p_paired p, fd, p_backend p, \<not> p_backend_side p)"
    unfolding paired_shape_def by blast+
  from other obtain q where q: "P (p_paired p) = Some q"
      "core q = (p_paired p, fd, p_backend p, \<not> p_backend_side p)"
    by (auto simp: shape_def)
  then have "p_paired p \<noteq> fd" using assms(2) by (auto simp: core_def)
  with own q show ?thesis by (auto simp: core_def)
qed

lemma paired_remove:
  assumes "paired_shape n S" and "S fd = Some (f, pf, i, b)"
  shows "paired_shape n (S(fd := None, pf := None))"
proof -
  have sym: "S pf = Some (pf, fd, i, \<not> b)" "f = fd" using assms by (auto simp: paired_shape_def)
  show ?thesis
    unfolding paired_shape_def
  proof (intro allI impI)
    fix g g' pg j c
    assume "(S(fd := None, pf := None)) g = Some (g', pg, j, c)"
    then have g: "g \<noteq> fd" "g \<noteq> pf" "S g = Some (g', pg, j, c)" by (auto split: if_splits)
    with assms(1) have other: "g' = g" "j < n" "S pg = Some (pg, g, j, \<not> c)"
      unfolding paired_shape_def by blast+
    moreover have "pg \<noteq> fd" "pg \<noteq> pf"
      using other(3) g(1,2) assms(2) sym by auto
    ultimately show "g' = g \<and> j < n \<and> (S(fd := None, pf := None)) pg = Some (pg, g, j, \<not> c)"
      by simp
  qed
qed

lemma client_fds_remove:
  assumes "paired_shape n S" and "S fd = Some (f, pf, i, b)"
  shows "client_fds (S(fd := None, pf := None)) j =
    (if j = i then client_fds S i - {if b then pf else fd} else client_fds S j)"
    and "(if b then pf else fd) \<in> client_fds S i"
proof -
  have sym: "S pf = Some (pf, fd, i, \<not> b)" "f = fd" using assms by (auto simp: paired_shape_def)
  show "(if b then pf else fd) \<in> client_fds S i"
    using assms(2) sym by (auto simp: client_fds_def)
  show "client_fds (S(fd := None, pf := None)) j =
      (if j = i then client_fds S i - {if b then pf else fd} else client_fds S j)"
    using assms(2) sym by (cases b) (auto simp: client_fds_def)
qed

lemma finite_client_fds: "finite (dom S) \<Longrightarrow> finite (client_fds S i)"
  by (rule finite_subset [of _ "dom S"]) (auto simp: client_fds_def)

lemma load_remove:
  assumes "paired_shape n S" "finite (dom S)" "S fd = Some (f, pf, i, b)"
  shows "load (S(fd := None, pf := None)) = (load S)(i := load S i - 1)" and "load S i > 0"
proof -
  note rem = client_fds_remove [OF assms(1,3)] and fin = finite_client_fds [OF assms(2)]
  show "load (S(fd := None, pf := None)) = (load S)(i := load S i - 1)"
    using rem fin by (auto simp: load_def card_Diff_singleton)
  show "load S i > 0" using rem(2) fin by (auto simp: load_def card_gt_0_iff)
qed

lemma paired_insert:
  assumes "paired_shape n S" "S c = None" "S s = None" "c \<noteq> s" "i < n"
  shows "paired_shape n (S(c \<mapsto> (c, s, i, False), s \<mapsto> (s, c, i, True)))"
proof -
  have "pf \<noteq> c \<and> pf \<noteq> s" if "S fd = Some (f, pf, j, b)" for fd f pf j b
    using assms(1-3) that unfolding paired_shape_def by (metis option.distinct(1))
  with assms show ?thesis unfolding paired_shape_def by auto
qed

lemma load_insert:
  assumes "finite (dom S)" "S c = None" "S s = None" "c \<noteq> s"
  shows "load (S(c \<mapsto> (c, s, i, False), s \<mapsto> (s, c, i, True))) = (load S)(i := Suc (load S i))"
proof
  fix j
  have "client_fds (S(c \<mapsto> (c, s, i, False), s \<mapsto> (s, c, i, True))) j =
      (if j = i then insert c (client_fds S i) else client_fds S j)"
    using assms(2-4) by (auto simp: client_fds_def)
  moreover have "c \<notin> client_fds S i" using assms(2) by (simp add: client_fds_def)
  ultimately show "load (S(c \<mapsto> (c, s, i, False), s \<mapsto> (s, c, i, True))) j =
      ((load S)(i := Suc (load S i))) j"
    using finite_client_fds [OF assms(1)] by (simp add: load_def)
qed

section \<open>The invariant\<close>

definition local_ok :: "peer \<Rightarrow> bool" where
  "local_ok p \<longleftrightarrow> p_sent p \<le> length (p_outbound p) \<and> (p_connecting p \<longrightarrow> p_backend_side p \<and> p_sent p = 0)"

definition streams :: "(fd \<rightharpoonup> peer) \<Rightarrow> kern \<Rightarrow> bool" where
  "streams P k \<longleftrightarrow>
     (\<forall>fd p. P fd = Some p \<longrightarrow> k_sent k fd @ drop (p_sent p) (p_outbound p) = k_rcvd k (p_paired p))"

definition fixed_fds :: "worker \<Rightarrow> fd set" where
  "fixed_fds w = {w_listener w, w_timer w, w_epoll w}"

definition worker_inv :: "(nat \<Rightarrow> nat) \<Rightarrow> worker \<Rightarrow> bool" where
  "worker_inv base w \<longleftrightarrow>
     wf_runtime (w_rt w) \<and> kern_ok (w_kern w) \<and>
     paired_shape (pool_size (w_rt w)) (shape (w_peers w)) \<and>
     finite (dom (w_peers w)) \<and> dom (w_peers w) \<subseteq> k_open (w_kern w) \<and>
     fixed_fds w \<inter> dom (w_peers w) = {} \<and> fixed_fds w \<subseteq> k_open (w_kern w) \<and>
     (\<forall>fd p. w_peers w fd = Some p \<longrightarrow> local_ok p) \<and>
     streams (w_peers w) (w_kern w) \<and>
     rt.counts (w_rt w) (\<lambda>i. base i + load (shape (w_peers w)) i)"

lemma worker_invD:
  assumes "worker_inv base w"
  shows "wf_runtime (w_rt w)" "kern_ok (w_kern w)"
    "paired_shape (pool_size (w_rt w)) (shape (w_peers w))"
    "finite (dom (w_peers w))" "dom (w_peers w) \<subseteq> k_open (w_kern w)"
    "fixed_fds w \<inter> dom (w_peers w) = {}" "fixed_fds w \<subseteq> k_open (w_kern w)"
    "\<And>fd p. w_peers w fd = Some p \<Longrightarrow> local_ok p"
    "streams (w_peers w) (w_kern w)"
    "rt.counts (w_rt w) (\<lambda>i. base i + load (shape (w_peers w)) i)"
  using assms by (auto simp: worker_inv_def)

text \<open>
  Updates that do not change the shape: peers with the same cores, kernel calls that neither open
  nor close, runtime operations that do not open or close a connection.
\<close>

lemma inv_update:
  assumes "worker_inv base w" and "shape P' = shape (w_peers w)"
    and "\<And>fd p. P' fd = Some p \<Longrightarrow> local_ok p" and "streams P' k'"
    and "kern_ok k'" "k_open k' = k_open (w_kern w)"
  shows "worker_inv base (w\<lparr>w_peers := P', w_kern := k'\<rparr>)"
proof -
  have "dom P' = dom (w_peers w)" using assms(2) dom_shape by metis
  with assms show ?thesis by (simp add: worker_inv_def fixed_fds_def)
qed

lemma inv_kern:
  assumes "worker_inv base w" and "kern_ok k'" "k_open k' = k_open (w_kern w)"
    "k_rcvd k' = k_rcvd (w_kern w)" "k_sent k' = k_sent (w_kern w)"
  shows "worker_inv base (w\<lparr>w_kern := k'\<rparr>)"
  using assms by (simp add: worker_inv_def fixed_fds_def streams_def)

lemma inv_rt:
  assumes "worker_inv base w" "wf_runtime r" "pool_size r = pool_size (w_rt w)"
    "rt.counts r (\<lambda>i. base i + load (shape (w_peers w)) i)"
  shows "worker_inv base (w\<lparr>w_rt := r\<rparr>)"
  using assms by (simp add: worker_inv_def fixed_fds_def)

lemma inv_on_rt:
  assumes "worker_inv base w"
    and "\<exists>r. f (w_rt w) = Ok r \<and> wf_runtime r \<and> pool_size r = pool_size (w_rt w) \<and>
      rt.counts r (\<lambda>i. base i + load (shape (w_peers w)) i)"
  shows "\<exists>r. on_rt f w = Ok (w\<lparr>w_rt := r\<rparr>) \<and> worker_inv base (w\<lparr>w_rt := r\<rparr>)"
  using assms by (auto simp: on_rt_def intro: inv_rt)

lemma calls_frame [simp]:
  "k_open (ctl_add fd ev k) = k_open k" "k_rcvd (ctl_add fd ev k) = k_rcvd k"
  "k_sent (ctl_add fd ev k) = k_sent k"
  "k_rcvd (tick k) = k_rcvd k" "k_sent (tick k) = k_sent k"
  by (simp_all add: ctl_add_def tick_def)

lemma inv_tick: "worker_inv base w \<Longrightarrow> worker_inv base (on_kern tick w)"
  unfolding on_kern_def by (rule inv_kern) (auto dest: worker_invD)

lemma inv_modify: "worker_inv base w \<Longrightarrow> worker_inv base (modify_fd fd w)"
  by (auto simp: modify_fd_def on_kern_def ctl_mod_def intro!: inv_kern dest: worker_invD
      split: option.splits)

section \<open>Operations of the runtime\<close>

text \<open>
  What a state that differs from \<open>w\<close> in its runtime only looks like, and that it keeps
  the invariant.
\<close>

definition rt_step :: "(nat \<Rightarrow> nat) \<Rightarrow> worker \<Rightarrow> worker out \<Rightarrow> bool" where
  "rt_step base w out \<longleftrightarrow>
     (\<exists>r. out = Ok (w\<lparr>w_rt := r\<rparr>) \<and> worker_inv base (w\<lparr>w_rt := r\<rparr>) \<and> pool_size r = pool_size (w_rt w))"

lemma rt_step_on_rt:
  assumes inv: "worker_inv base w"
    and f: "\<And>c. rt.counts (w_rt w) c \<Longrightarrow>
      \<exists>r. f (w_rt w) = Ok r \<and> wf_runtime r \<and> pool_size r = pool_size (w_rt w) \<and> rt.counts r c"
  shows "rt_step base w (on_rt f w)"
proof -
  from f [OF worker_invD(10) [OF inv]] obtain r where
    "f (w_rt w) = Ok r" "wf_runtime r" "pool_size r = pool_size (w_rt w)"
    "rt.counts r (\<lambda>i. base i + load (shape (w_peers w)) i)" by blast
  with inv show ?thesis by (auto simp: rt_step_def on_rt_def intro: inv_rt)
qed

text \<open>Recordings that touch only the metrics.\<close>

lemma metrics_only:
  assumes "wf_runtime r" "i < pool_size r" "rt.counts r c"
  shows "\<exists>t. record_bytes b i n r = Ok t \<and> wf_runtime t \<and> pool_size t = pool_size r \<and> rt.counts t c"
    and "\<exists>t. record_connect_latency i x r = Ok t \<and> wf_runtime t \<and> pool_size t = pool_size r \<and> rt.counts t c"
  using assms
  by (auto simp: record_bytes_def runtime_op_defs wf_runtime_def runtime_views rt.counts_def)

lemma rt_steps:
  assumes "worker_inv base w" "i < pool_size (w_rt w)"
  shows "rt_step base w (on_rt (record_backend_failure i) w)"
    and "rt_step base w (on_rt (heal_backend i) w)"
    and "rt_step base w (on_rt (set_backend_state i x) w)"
    and "rt_step base w (on_rt (record_bytes b i n) w)"
    and "rt_step base w (on_rt (record_connect_latency i l) w)"
proof -
  note wf = worker_invD(1) [OF assms(1)]
  show "rt_step base w (on_rt (record_backend_failure i) w)"
    by (rule rt_step_on_rt [OF assms(1)]) (rule rt.counts_others(1) [OF wf assms(2)])
  show "rt_step base w (on_rt (heal_backend i) w)"
    by (rule rt_step_on_rt [OF assms(1)]) (rule rt.counts_others(2) [OF wf assms(2)])
  show "rt_step base w (on_rt (set_backend_state i x) w)"
    by (rule rt_step_on_rt [OF assms(1)]) (rule rt.counts_others(3) [OF wf assms(2)])
  show "rt_step base w (on_rt (record_bytes b i n) w)"
    by (rule rt_step_on_rt [OF assms(1)]) (rule metrics_only(1) [OF wf assms(2)])
  show "rt_step base w (on_rt (record_connect_latency i l) w)"
    by (rule rt_step_on_rt [OF assms(1)]) (rule metrics_only(2) [OF wf assms(2)])
qed

lemma rt_step_chain:
  assumes "rt_step base w out"
    and "\<And>r. worker_inv base (w\<lparr>w_rt := r\<rparr>) \<Longrightarrow> pool_size r = pool_size (w_rt w) \<Longrightarrow>
      rt_step base (w\<lparr>w_rt := r\<rparr>) (f (w\<lparr>w_rt := r\<rparr>))"
  shows "rt_step base w (chain out f)"
  using assms by (fastforce simp: rt_step_def)

lemma rt_step_refl: "worker_inv base w \<Longrightarrow> rt_step base w (Ok w)"
  by (auto simp: rt_step_def intro!: exI [of _ "w_rt w"])

lemma rt_step_eject:
  assumes "worker_inv base w" "i < pool_size (w_rt w)"
  shows "rt_step base w (maybe_eject i w)"
proof -
  have "\<exists>n. consecutive_failures (r_sched (w_rt w)) i = Inr n"
    using worker_invD(1) [OF assms(1)] assms(2)
    by (auto simp: wf_runtime_def pool_size_def wf_scheduler_def consecutive_failures_def
        checked_get_def backend_count_def)
  then show ?thesis
    using rt_steps(3) [OF assms] rt_step_refl [OF assms(1)] by (auto simp: maybe_eject_def)
qed

text \<open>A backend failure is counted and may eject the backend.\<close>

lemma rt_step_fail:
  assumes "worker_inv base w" "i < pool_size (w_rt w)"
  shows "rt_step base w (chain (on_rt (record_backend_failure i) w) (maybe_eject i))"
  by (rule rt_step_chain [OF rt_steps(1) [OF assms]]) (simp add: rt_step_eject assms(2))

section \<open>Closing a pair\<close>

lemma close_ones:
  assumes "w_peers w fd = Some p" "w_peers w (p_paired p) = Some q" "p_paired p \<noteq> fd"
  shows "close_one (p_paired p) (close_one fd w) =
    w\<lparr>w_peers := (w_peers w)(fd := None, p_paired p := None),
      w_kern := sys_close (p_paired p) (sys_close fd (w_kern w))\<rparr>"
  using assms by (simp add: close_one_def on_kern_def)

lemma streams_remove:
  assumes "streams P k" "paired_shape n (shape P)" "P fd = Some p"
  shows "streams (P(fd := None, p_paired p := None)) (sys_close (p_paired p) (sys_close fd k))"
  using assms(1) by (auto simp: streams_def sys_close_def split: if_splits)

text \<open>Closing the two descriptors and counting the connection out keeps the invariant.\<close>

lemma inv_remove_pair:
  assumes inv: "worker_inv base w" and p: "w_peers w fd = Some p"
  shows "\<exists>r. on_rt (record_connection_close (p_backend p)) (close_one (p_paired p) (close_one fd w)) =
      Ok (w\<lparr>w_peers := (w_peers w)(fd := None, p_paired p := None), w_rt := r,
            w_kern := sys_close (p_paired p) (sys_close fd (w_kern w))\<rparr>) \<and>
    worker_inv base (w\<lparr>w_peers := (w_peers w)(fd := None, p_paired p := None), w_rt := r,
            w_kern := sys_close (p_paired p) (sys_close fd (w_kern w))\<rparr>) \<and>
    pool_size r = pool_size (w_rt w)"
proof -
  note D = worker_invD [OF inv]
  let ?S = "shape (w_peers w)"
  have core: "?S fd = Some (p_fd p, p_paired p, p_backend p, p_backend_side p)"
    using p by (simp add: shape_def core_def)
  from paired_peer [OF D(3) p] obtain q where q: "w_peers w (p_paired p) = Some q"
    and ne: "p_paired p \<noteq> fd" and i: "p_backend p < pool_size (w_rt w)" by blast
  note eq = close_ones [OF p q ne]
  have fin: "finite (dom ?S)" using D(4) by simp
  note L = load_remove [OF D(3) fin core]
  let ?f = "\<lambda>i. base i + load ?S i"
  from rt.counts_close [OF D(1) i D(10)] obtain r where r:
    "record_connection_close (p_backend p) (w_rt w) = Ok r" "wf_runtime r" "pool_size r = pool_size (w_rt w)"
    "rt.counts r (?f(p_backend p := ?f (p_backend p) - 1))" by blast
  have shp: "shape ((w_peers w)(fd := None, p_paired p := None)) = ?S(fd := None, p_paired p := None)"
    by (auto simp: shape_def)
  have "?f(p_backend p := ?f (p_backend p) - 1) =
      (\<lambda>i. base i + load (?S(fd := None, p_paired p := None)) i)"
    using L by (auto simp: fun_eq_iff)
  with r(4) have cnt: "rt.counts r (\<lambda>i. base i + load (?S(fd := None, p_paired p := None)) i)" by simp
  have kern: "kern_ok (sys_close (p_paired p) (sys_close fd (w_kern w)))"
    using D(2) by (simp add: kern_ok_close)
  have opn: "k_open (sys_close (p_paired p) (sys_close fd (w_kern w))) =
      k_open (w_kern w) - {fd, p_paired p}" by (auto simp: sys_close_def)
  have apart: "fixed_fds w \<inter> {fd, p_paired p} = {}" using D(6) p q by auto
  have paired: "paired_shape (pool_size r) (?S(fd := None, p_paired p := None))"
    using paired_remove [OF D(3) core] r(3) by simp
  have locals: "local_ok p'" if "((w_peers w)(fd := None, p_paired p := None)) g = Some p'" for g p'
    using D(8) that by (auto split: if_splits)
  show ?thesis
  proof (intro exI conjI)
    show "on_rt (record_connection_close (p_backend p)) (close_one (p_paired p) (close_one fd w)) =
      Ok (w\<lparr>w_peers := (w_peers w)(fd := None, p_paired p := None), w_rt := r,
            w_kern := sys_close (p_paired p) (sys_close fd (w_kern w))\<rparr>)"
      using r(1) by (simp add: eq on_rt_def)
    show "worker_inv base (w\<lparr>w_peers := (w_peers w)(fd := None, p_paired p := None), w_rt := r,
            w_kern := sys_close (p_paired p) (sys_close fd (w_kern w))\<rparr>)"
      using D(4-7) paired apart cnt r(2) kern locals streams_remove [OF D(9) D(3) p]
      by (auto simp: worker_inv_def fixed_fds_def shp opn simp del: fun_upd_apply)
    show "pool_size r = pool_size (w_rt w)" by (rule r(3))
  qed
qed

text \<open>
  What no operation on the peers changes: the worker's own three descriptors, the size of the
  pool, and the open descriptors that are not peers.
\<close>

definition frame :: "worker \<Rightarrow> fd \<times> fd \<times> fd \<times> nat" where
  "frame w = (w_listener w, w_timer w, w_epoll w, pool_size (w_rt w))"

definition loose :: "worker \<Rightarrow> fd set" where
  "loose w = k_open (w_kern w) - dom (w_peers w)"

lemma frame_size: "frame w' = frame w \<Longrightarrow> pool_size (w_rt w') = pool_size (w_rt w)"
  by (simp add: frame_def)

lemma frame_simps [simp]:
  "frame (put_peer fd p w) = frame w"
  "frame (modify_fd fd w) = frame w"
  "frame (on_kern f w) = frame w"
  "frame (w\<lparr>w_kern := k\<rparr>) = frame w"
  "frame (w\<lparr>w_peers := P\<rparr>) = frame w"
  "pool_size r = pool_size (w_rt w) \<Longrightarrow> frame (w\<lparr>w_rt := r\<rparr>) = frame w"
  by (auto simp: frame_def put_peer_def modify_fd_def on_kern_def split: option.splits)

lemma loose_simps [simp]:
  "loose (w\<lparr>w_rt := r\<rparr>) = loose w"
  "loose (on_kern tick w) = loose w"
  "loose (modify_fd fd w) = loose w"
  "w_peers w fd = Some p' \<Longrightarrow> loose (put_peer fd p w) = loose w"
  by (auto simp: loose_def put_peer_def modify_fd_def on_kern_def ctl_mod_def split: option.splits)

lemma loose_kern: "k_open k = k_open (w_kern w) \<Longrightarrow> loose (w\<lparr>w_kern := k\<rparr>) = loose w"
  by (simp add: loose_def)

text \<open>
  An operation keeps the invariant when it returns without an exception to a state that has it.
\<close>

definition keeps :: "(nat \<Rightarrow> nat) \<Rightarrow> worker \<Rightarrow> worker out \<Rightarrow> bool" where
  "keeps base w out \<longleftrightarrow>
     (\<exists>w'. out = Ok w' \<and> worker_inv base w' \<and> frame w' = frame w \<and> loose w' = loose w)"

lemma keeps_Ok:
  "worker_inv base w' \<Longrightarrow> frame w' = frame w \<Longrightarrow> loose w' = loose w \<Longrightarrow> keeps base w (Ok w')"
  by (simp add: keeps_def)

lemma keeps_chain:
  assumes "keeps base w out"
    and "\<And>w'. worker_inv base w' \<Longrightarrow> pool_size (w_rt w') = pool_size (w_rt w) \<Longrightarrow> keeps base w' (f w')"
  shows "keeps base w (chain out f)"
proof -
  from assms(1) obtain w' where "out = Ok w'" "worker_inv base w'" "frame w' = frame w" "loose w' = loose w"
    by (auto simp: keeps_def)
  with assms(2) [OF this(2) frame_size] show ?thesis by (auto simp: keeps_def)
qed

lemma keeps_step: "rt_step base w out \<Longrightarrow> keeps base w out"
  by (auto simp: rt_step_def keeps_def)

lemma keeps_shift:
  "keeps base w' out \<Longrightarrow> frame w' = frame w \<Longrightarrow> loose w' = loose w \<Longrightarrow> keeps base w out"
  by (simp add: keeps_def)

lemma keepsE:
  assumes "keeps base w out"
  obtains w' where "out = Ok w'" "worker_inv base w'" "frame w' = frame w" "loose w' = loose w"
  using assms by (auto simp: keeps_def)

text \<open>
  What \<open>close_pair\<close> does, in full: both ends leave the map and are closed, and nothing
  else about the peers or the kernel changes.
\<close>

lemma close_pair_effect:
  assumes inv: "worker_inv base w" and p: "w_peers w fd = Some p"
  shows "\<exists>r. close_pair fd b w =
      Ok (w\<lparr>w_peers := (w_peers w)(fd := None, p_paired p := None), w_rt := r,
            w_kern := sys_close (p_paired p) (sys_close fd (w_kern w))\<rparr>) \<and>
    worker_inv base (w\<lparr>w_peers := (w_peers w)(fd := None, p_paired p := None), w_rt := r,
            w_kern := sys_close (p_paired p) (sys_close fd (w_kern w))\<rparr>) \<and>
    pool_size r = pool_size (w_rt w)"
proof -
  have i: "p_backend p < pool_size (w_rt w)"
    using paired_peer [OF worker_invD(3) [OF inv] p] by simp
  obtain r where r: "on_rt (record_connection_close (p_backend p)) (close_one (p_paired p) (close_one fd w)) =
      Ok (w\<lparr>w_peers := (w_peers w)(fd := None, p_paired p := None), w_rt := r,
            w_kern := sys_close (p_paired p) (sys_close fd (w_kern w))\<rparr>)"
    and inv1: "worker_inv base (w\<lparr>w_peers := (w_peers w)(fd := None, p_paired p := None), w_rt := r,
            w_kern := sys_close (p_paired p) (sys_close fd (w_kern w))\<rparr>)"
    and n: "pool_size r = pool_size (w_rt w)"
    using inv_remove_pair [OF inv p] by blast
  show ?thesis
  proof (cases b)
    case False
    with r inv1 n p show ?thesis by (auto simp: close_pair_def)
  next
    case True
    have i1: "p_backend p < pool_size (w_rt (w\<lparr>w_peers := (w_peers w)(fd := None, p_paired p := None), w_rt := r,
            w_kern := sys_close (p_paired p) (sys_close fd (w_kern w))\<rparr>))"
      using i n by simp
    from rt_step_fail [OF inv1 i1] True r n p show ?thesis
      by (auto simp: close_pair_def rt_step_def)
  qed
qed

lemma keeps_close_pair:
  assumes inv: "worker_inv base w"
  shows "keeps base w (close_pair fd b w)"
proof (cases "w_peers w fd")
  case None
  with inv show ?thesis by (simp add: close_pair_def keeps_Ok)
next
  case (Some p)
  from paired_peer [OF worker_invD(3) [OF inv] Some] obtain q where "w_peers w (p_paired p) = Some q" by blast
  with Some have "loose (w\<lparr>w_peers := (w_peers w)(fd := None, p_paired p := None), w_rt := r,
      w_kern := sys_close (p_paired p) (sys_close fd (w_kern w))\<rparr>) = loose w" for r
    by (auto simp: loose_def sys_close_def)
  with close_pair_effect [OF inv Some, of b] show ?thesis by (auto simp: keeps_def)
qed

section \<open>Writing\<close>

text \<open>A peer that changes its buffer together with the bytes that went out to it.\<close>

lemma inv_put:
  assumes inv: "worker_inv base w" and p: "w_peers w fd = Some p"
    and p': "core p' = core p" "local_ok p'"
    and k: "kern_ok k'" "k_open k' = k_open (w_kern w)" "k_rcvd k' = k_rcvd (w_kern w)"
      "\<And>g. g \<noteq> fd \<Longrightarrow> k_sent k' g = k_sent (w_kern w) g"
    and eq: "k_sent k' fd @ drop (p_sent p') (p_outbound p') =
      k_sent (w_kern w) fd @ drop (p_sent p) (p_outbound p)"
  shows "worker_inv base (w\<lparr>w_peers := (w_peers w)(fd \<mapsto> p'), w_kern := k'\<rparr>)"
proof (rule inv_update [OF inv])
  note D = worker_invD [OF inv]
  show "shape ((w_peers w)(fd \<mapsto> p')) = shape (w_peers w)" using p p'(1) by (rule shape_put)
  show "local_ok x" if "((w_peers w)(fd \<mapsto> p')) g = Some x" for g x
    using that D(8) p'(2) by (auto split: if_splits)
  have "p_paired p' = p_paired p" using p'(1) by (simp add: core_def)
  then show "streams ((w_peers w)(fd \<mapsto> p')) k'"
    using D(9) p k(3,4) eq by (auto simp: streams_def)
qed (use k in auto)

lemma inv_drained:
  assumes "worker_inv base w" "w_peers w fd = Some p" "p_sent p \<ge> length (p_outbound p)"
  shows "worker_inv base (put_peer fd (drained p) w)"
proof -
  have "worker_inv base (w\<lparr>w_peers := (w_peers w)(fd \<mapsto> drained p), w_kern := w_kern w\<rparr>)"
    using assms worker_invD(2) [OF assms(1)] worker_invD(8) [OF assms(1,2)]
    by (intro inv_put [OF assms(1,2)]) (auto simp: drained_def core_def local_ok_def)
  then show ?thesis by (simp add: put_peer_def)
qed

lemma put_peer_kern:
  "put_peer fd p (w\<lparr>w_kern := k\<rparr>) = w\<lparr>w_peers := (w_peers w)(fd \<mapsto> p), w_kern := k\<rparr>"
  by (simp add: put_peer_def)

lemma take_min_length: "take (min n (length d)) d = take n d"
  by (simp add: min_def)

lemma write_data:
  assumes "sys_write fd data k = (WTake n, k')"
  shows "n \<le> length data" "k_sent k' = (k_sent k)(fd := k_sent k fd @ take n data)"
    "k_rcvd k' = k_rcvd k" "k_open k' = k_open k"
  using assms by (auto simp: sys_write_def Let_def take_min_length split: list.splits write_result.splits)

lemma write_none:
  assumes "sys_write fd data k = (r, k')" "\<forall>n. r \<noteq> WTake n"
  shows "k_sent k' = k_sent k" "k_rcvd k' = k_rcvd k" "k_open k' = k_open k"
  using assms by (auto simp: sys_write_def Let_def split: list.splits write_result.splits)

text \<open>The write position moves by what the kernel took.\<close>

lemma inv_write:
  assumes inv: "worker_inv base w" and p: "w_peers w fd = Some p" "\<not> p_connecting p"
    and wr: "sys_write fd (drop (p_sent p) (p_outbound p)) (w_kern w) = (WTake n, k)"
  shows "worker_inv base (put_peer fd (p\<lparr>p_sent := p_sent p + n, p_last := t\<rparr>) (w\<lparr>w_kern := tick k\<rparr>))"
proof -
  note W = write_data [OF wr] and D = worker_invD [OF inv]
  have "local_ok p" using D(8) p(1) by blast
  have le: "p_sent p + n \<le> length (p_outbound p)" using W(1) \<open>local_ok p\<close> by (auto simp: local_ok_def)
  have "kern_ok k" using kern_ok_write [OF wr] D(2) by simp
  have "take n (drop (p_sent p) (p_outbound p)) @ drop (p_sent p + n) (p_outbound p) =
      drop (p_sent p) (p_outbound p)"
    using append_take_drop_id [of n "drop (p_sent p) (p_outbound p)"] by (simp add: add.commute)
  then have "worker_inv base (w\<lparr>w_peers := (w_peers w)(fd \<mapsto> p\<lparr>p_sent := p_sent p + n, p_last := t\<rparr>), w_kern := tick k\<rparr>)"
    using W le p(2) \<open>local_ok p\<close> \<open>kern_ok k\<close>
    by (intro inv_put [OF inv p(1)]) (auto simp: core_def local_ok_def)
  then show ?thesis by (simp add: put_peer_kern)
qed

lemma rt_frame [simp]:
  "w_rt (put_peer fd p w) = w_rt w"
  "w_rt (modify_fd fd w) = w_rt w"
  "w_rt (on_kern f w) = w_rt w"
  by (auto simp: put_peer_def modify_fd_def on_kern_def split: option.splits)

lemma put_peer_twice [simp]: "put_peer fd p' (put_peer fd p w) = put_peer fd p' w"
  by (simp add: put_peer_def)

lemma inv_write_none:
  assumes "worker_inv base w" "sys_write fd d (w_kern w) = (r, k)" "\<forall>n. r \<noteq> WTake n"
  shows "worker_inv base (w\<lparr>w_kern := k\<rparr>)"
  using assms worker_invD(2) [OF assms(1)] kern_ok_write [OF assms(2)] write_none [OF assms(2,3)]
  by (intro inv_kern) auto

lemma inv_write_zero:
  assumes "worker_inv base w" "sys_write fd d (w_kern w) = (WTake 0, k)"
  shows "worker_inv base (w\<lparr>w_kern := k\<rparr>)"
  using assms worker_invD(2) [OF assms(1)] kern_ok_write [OF assms(2)] write_data [OF assms(2)]
  by (intro inv_kern) auto

lemma keeps_flush: "worker_inv base w \<Longrightarrow> keeps base w (flush fd w)"
proof (induction fd w rule: flush.induct)
  case (1 fd w)
  show ?case
  proof (cases "w_peers w fd")
    case None
    with "1.prems" show ?thesis by (simp add: flush.simps [of fd w] keeps_Ok)
  next
    case (Some p)
    show ?thesis
    proof (cases "p_connecting p \<or> p_sent p \<ge> length (p_outbound p)")
      case True
      with Some "1.prems" inv_drained [OF "1.prems" Some] show ?thesis
        by (auto simp: flush.simps [of fd w] intro!: keeps_Ok)
    next
      case False
      obtain r k where wr: "sys_write fd (drop (p_sent p) (p_outbound p)) (w_kern w) = (r, k)"
        by fastforce
      note IH = "1.IH" [OF Some False wr [symmetric]]
      have same: "loose (w\<lparr>w_kern := k\<rparr>) = loose w"
        using write_data(4) wr write_none(3) [OF wr] by (intro loose_kern) (cases r; blast)
      show ?thesis
      proof (cases r)
        case (WTake n)
        note wr = wr [unfolded WTake]
        let ?p = "p\<lparr>p_sent := p_sent p + n, p_last := clock_now k\<rparr>"
        let ?w = "put_peer fd ?p (w\<lparr>w_kern := tick k\<rparr>)"
        have moved: "worker_inv base ?w"
          using inv_write [OF "1.prems" Some _ wr] False by simp
        have here0: "w_peers (w\<lparr>w_kern := tick k\<rparr>) fd = Some p" using Some by simp
        have size: "frame ?w = frame w" "loose ?w = loose w"
          using write_data(4) [OF wr] loose_simps(4) [OF here0] by (simp_all add: loose_kern)
        consider "n = 0" | "n > 0" "p_sent p + n = length (p_outbound p)"
          | "n > 0" "p_sent p + n \<noteq> length (p_outbound p)" by blast
        then show ?thesis
        proof cases
          case 1
          have "keeps base (w\<lparr>w_kern := k\<rparr>) (close_pair fd (p_backend_side p) (w\<lparr>w_kern := k\<rparr>))"
            using inv_write_zero [OF "1.prems", of fd] wr 1 by (intro keeps_close_pair) auto
          with 1 Some False wr show ?thesis
            by (auto simp: flush.simps [of fd w] same intro: keeps_shift)
        next
          case 2
          then have here: "w_peers ?w fd = Some ?p" "p_sent ?p \<ge> length (p_outbound ?p)"
            by (simp_all add: put_peer_def)
          have "keeps base w (Ok (modify_fd (p_paired p) (put_peer fd (drained ?p) ?w)))"
            by (intro keeps_Ok inv_modify inv_drained [OF moved here])
              (use size loose_simps(4) [OF here(1)] in simp_all)
          moreover have "flush fd w = Ok (modify_fd (p_paired p) (put_peer fd (drained ?p) ?w))"
            using 2 Some False wr by (simp add: flush.simps [of fd w] Let_def)
          ultimately show ?thesis by simp
        next
          case 3
          have "keeps base ?w (flush fd ?w)" using IH(1) [OF WTake] 3 moved by (simp add: Let_def)
          from keeps_shift [OF this size] 3 Some False wr show ?thesis
            by (simp add: flush.simps [of fd w] Let_def)
        qed
      next
        case WAgain
        with inv_write_none [OF "1.prems" wr] Some False wr show ?thesis
          by (auto simp: flush.simps [of fd w] same intro: keeps_Ok)
      next
        case WIntr
        with inv_write_none [OF "1.prems" wr] IH(2) have "keeps base (w\<lparr>w_kern := k\<rparr>) (flush fd (w\<lparr>w_kern := k\<rparr>))"
          by auto
        with WIntr Some False wr show ?thesis
          by (auto simp: flush.simps [of fd w] same intro: keeps_shift)
      next
        case WFail
        with inv_write_none [OF "1.prems" wr]
        have "keeps base (w\<lparr>w_kern := k\<rparr>) (close_pair fd (p_backend_side p) (w\<lparr>w_kern := k\<rparr>))"
          by (auto intro: keeps_close_pair)
        with WFail Some False wr show ?thesis
          by (auto simp: flush.simps [of fd w] same intro: keeps_shift)
      qed
    qed
  qed
qed

section \<open>Reading\<close>

lemma read_data:
  assumes "sys_read fd k = (RData bs, k')"
  shows "k_rcvd k' = (k_rcvd k)(fd := k_rcvd k fd @ bs)" "k_sent k' = k_sent k" "k_open k' = k_open k"
  using assms by (auto simp: sys_read_def split: list.splits)

lemma read_none:
  assumes "sys_read fd k = (r, k')" "\<forall>b bs. r \<noteq> RData (b # bs)"
  shows "k_rcvd k' = k_rcvd k" "k_sent k' = k_sent k" "k_open k' = k_open k"
proof -
  have "r = RData [] \<or> (\<forall>bs. r \<noteq> RData bs)" using assms(2) by (metis list.exhaust)
  then show "k_rcvd k' = k_rcvd k" "k_sent k' = k_sent k" "k_open k' = k_open k"
    using assms(1) by (auto simp: sys_read_def split: list.splits read_result.splits)
qed

lemma read_open: "sys_read fd k = (r, k') \<Longrightarrow> k_open k' = k_open k"
  by (auto simp: sys_read_def split: list.splits)

lemma inv_read_none:
  assumes "worker_inv base w" "sys_read fd (w_kern w) = (r, k)" "\<forall>b bs. r \<noteq> RData (b # bs)"
  shows "worker_inv base (w\<lparr>w_kern := k\<rparr>)"
  using assms worker_invD(2) [OF assms(1)] kern_ok_read [OF assms(2)] read_none [OF assms(2,3)]
  by (intro inv_kern) auto

text \<open>What was read from a descriptor goes to the end of its peer's buffer.\<close>

lemma inv_received:
  assumes inv: "worker_inv base w" and p: "w_peers w fd = Some p"
    and q: "w_peers w (p_paired p) = Some q"
    and rd: "sys_read fd (w_kern w) = (RData bs, k)"
  shows "worker_inv base (put_peer (p_paired p) (append_outbound bs t q)
    (put_peer fd (p\<lparr>p_last := t'\<rparr>) (w\<lparr>w_kern := tick k\<rparr>)))"
proof -
  note D = worker_invD [OF inv] and R = read_data [OF rd]
  have pair: "p_paired p \<noteq> fd" "p_paired q = fd" "p_fd p = fd"
    using paired_peer [OF D(3) p] q by auto
  let ?P = "(w_peers w)(fd \<mapsto> p\<lparr>p_last := t'\<rparr>, p_paired p \<mapsto> append_outbound bs t q)"
  have "shape ((w_peers w)(fd \<mapsto> p\<lparr>p_last := t'\<rparr>)) = shape (w_peers w)"
    using p by (rule shape_put) (simp add: core_def)
  moreover have "shape ?P = shape ((w_peers w)(fd \<mapsto> p\<lparr>p_last := t'\<rparr>))"
    using q pair by (intro shape_put [where p = q]) (simp_all add: core_def append_outbound_def)
  ultimately have shp: "shape ?P = shape (w_peers w)" by simp
  have "local_ok p" "local_ok q" using D(8) p q by blast+
  then have locals: "local_ok x" if "?P g = Some x" for g x
    using that D(8) by (auto simp: local_ok_def append_outbound_def split: if_splits)
  have own: "k_sent (w_kern w) g @ drop (p_sent x) (p_outbound x) = k_rcvd (w_kern w) (p_paired x)"
    if "w_peers w g = Some x" for g x
    using D(9) that by (auto simp: streams_def)
  have unique: "g = p_paired p" if "w_peers w g = Some x" "p_paired x = fd" for g x
    using paired_peer [OF D(3) that(1)] p that(2) by auto
  have "streams ?P (tick k)"
    unfolding streams_def
  proof (intro allI impI)
    fix g x
    assume x: "?P g = Some x"
    show "k_sent (tick k) g @ drop (p_sent x) (p_outbound x) = k_rcvd (tick k) (p_paired x)"
    proof (cases "g = p_paired p")
      case True
      with x have "x = append_outbound bs t q" by simp
      with True \<open>local_ok q\<close> own [OF q] pair R show ?thesis
        by (simp add: append_outbound_def local_ok_def)
    next
      case False
      from x False obtain y where y: "w_peers w g = Some y" "p_sent x = p_sent y"
        "p_outbound x = p_outbound y" "p_paired x = p_paired y"
        using p by (auto split: if_splits)
      with unique [OF y(1)] False own [OF y(1)] R show ?thesis by auto
    qed
  qed
  moreover have "kern_ok (tick k)" using D(2) kern_ok_read [OF rd] by simp
  ultimately have "worker_inv base (w\<lparr>w_peers := ?P, w_kern := tick k\<rparr>)"
    using inv_update [OF inv shp locals] R by simp
  then show ?thesis by (simp add: put_peer_def)
qed

lemma keeps_deliver:
  assumes inv: "worker_inv base w" and p: "w_peers w fd = Some p"
    and q: "w_peers w (p_paired p) = Some q"
    and rd: "sys_read fd (w_kern w) = (RData bs, k)"
  shows "keeps base w (deliver fd bs (p\<lparr>p_last := t\<rparr>) q (put_peer fd (p\<lparr>p_last := t\<rparr>) (w\<lparr>w_kern := tick k\<rparr>)))"
proof -
  let ?w = "put_peer (p_paired p) (append_outbound bs t q)
    (put_peer fd (p\<lparr>p_last := t\<rparr>) (w\<lparr>w_kern := tick k\<rparr>))"
  have inv1: "worker_inv base ?w" by (rule inv_received [OF inv p q rd])
  have i: "p_backend p < pool_size (w_rt ?w)" using paired_peer [OF worker_invD(3) [OF inv] p] by simp
  have "keeps base ?w (chain (on_rt (record_bytes (p_backend_side p) (p_backend p) (length bs)) ?w) (\<lambda>w.
      chain (flush (p_paired p) w) (\<lambda>w. Ok (modify_fd (p_paired p) (modify_fd fd w)))))"
    by (intro keeps_chain [OF keeps_step [OF rt_steps(4) [OF inv1 i]]] keeps_chain [OF keeps_flush]
        keeps_Ok inv_modify) simp_all
  moreover have "frame ?w = frame w" by simp
  moreover have "loose ?w = loose w"
  proof -
    have "w_peers (w\<lparr>w_kern := tick k\<rparr>) fd = Some p" using p by simp
    note loose_simps(4) [OF this]
    moreover have "\<exists>x. w_peers (put_peer fd (p\<lparr>p_last := t\<rparr>) (w\<lparr>w_kern := tick k\<rparr>)) (p_paired p) = Some x"
      using q by (simp add: put_peer_def)
    moreover have "loose (w\<lparr>w_kern := tick k\<rparr>) = loose w"
      using read_data(3) [OF rd] by (simp add: loose_kern)
    ultimately show ?thesis by (metis loose_simps(4))
  qed
  ultimately show ?thesis by (auto simp: deliver_def Let_def intro: keeps_shift)
qed

lemma keeps_read: "worker_inv base w \<Longrightarrow> keeps base w (read_available fd w)"
proof (induction fd w rule: read_available.induct)
  case (1 fd w)
  note inv = "1.prems"
  show ?case
  proof (cases "w_peers w fd")
    case None
    with inv show ?thesis by (simp add: read_available.simps [of fd w] keeps_Ok)
  next
    case (Some p)
    obtain r k where rd: "sys_read fd (w_kern w) = (r, k)" by fastforce
    from paired_peer [OF worker_invD(3) [OF inv] Some] obtain q where
      q: "w_peers w (p_paired p) = Some q" and ne: "p_paired p \<noteq> fd" by blast
    note IH = "1.IH" [OF Some rd [symmetric]]
    have same: "loose (w\<lparr>w_kern := k\<rparr>) = loose w" using read_open [OF rd] by (rule loose_kern)
    have closed: "keeps base w (close_pair fd b (w\<lparr>w_kern := k\<rparr>))"
      if "\<forall>b bs. r \<noteq> RData (b # bs)" for b
      using keeps_shift [OF keeps_close_pair [OF inv_read_none [OF inv rd that]]] same by simp
    show ?thesis
    proof (cases r)
      case (RData bs)
      show ?thesis
      proof (cases "bs = []")
        case True
        with closed RData Some rd show ?thesis by (simp add: read_available.simps [of fd w])
      next
        case False
        let ?w1 = "put_peer fd (p\<lparr>p_last := clock_now k\<rparr>) (w\<lparr>w_kern := tick k\<rparr>)"
        have q1: "w_peers ?w1 (p_paired (p\<lparr>p_last := clock_now k\<rparr>)) = Some q"
          using q ne by (simp add: put_peer_def)
        from keeps_deliver [OF inv Some q rd [unfolded RData]]
        obtain w2 where w2: "deliver fd bs (p\<lparr>p_last := clock_now k\<rparr>) q ?w1 = Ok w2"
          "worker_inv base w2" "frame w2 = frame w" "loose w2 = loose w" by (rule keepsE)
        note IH' = IH(1) [OF RData False refl refl q1 w2(1)]
        from IH' w2(2) have "\<not> outbound_full (p_paired p) w2 \<Longrightarrow> keeps base w2 (read_available fd w2)"
          by simp
        then have "keeps base w (if outbound_full (p_paired p) w2 then Ok w2 else read_available fd w2)"
          using w2(2-4) by (auto intro: keeps_Ok keeps_shift)
        then show ?thesis
          using RData False Some rd q1 w2(1) by (simp add: read_available.simps [of fd w] Let_def)
      qed
    next
      case RAgain
      with inv_read_none [OF inv rd] Some rd same show ?thesis
        by (simp add: read_available.simps [of fd w] keeps_Ok)
    next
      case RIntr
      with inv_read_none [OF inv rd] IH(2) have "keeps base (w\<lparr>w_kern := k\<rparr>) (read_available fd (w\<lparr>w_kern := k\<rparr>))"
        by simp
      from keeps_shift [OF this] RIntr Some rd same show ?thesis by (simp add: read_available.simps [of fd w])
    next
      case RFail
      with closed Some rd show ?thesis by (simp add: read_available.simps [of fd w])
    qed
  qed
qed

section \<open>Connecting\<close>

lemma inv_connected:
  assumes "worker_inv base w" "w_peers w fd = Some p"
  shows "worker_inv base (put_peer fd (connected now p) w)"
proof -
  have "worker_inv base (w\<lparr>w_peers := (w_peers w)(fd \<mapsto> connected now p), w_kern := w_kern w\<rparr>)"
    using worker_invD(2) [OF assms(1)] worker_invD(8) [OF assms(1,2)]
    by (intro inv_put [OF assms]) (auto simp: connected_def core_def local_ok_def)
  then show ?thesis by (simp add: put_peer_def)
qed

lemma peers_on_kern [simp]: "w_peers (on_kern f w) = w_peers w"
  by (simp add: on_kern_def)

lemma keeps_finish_connect:
  assumes inv: "worker_inv base w"
  shows "keeps base w (finish_connect fd w)"
proof (cases "w_peers w fd")
  case None
  with inv show ?thesis by (simp add: finish_connect_def keeps_Ok)
next
  case (Some p)
  note inv1 = inv_tick [OF inv]
  have i: "p_backend p < pool_size (w_rt w)" using paired_peer [OF worker_invD(3) [OF inv] Some] by simp
  show ?thesis
  proof (cases "k_soerror (w_kern w) (k_calls (w_kern w)) = Some 0")
    case False
    have "keeps base w (close_pair fd True (on_kern tick w))"
      by (rule keeps_shift [OF keeps_close_pair [OF inv1]]) simp_all
    with False Some show ?thesis by (simp add: finish_connect_def)
  next
    case True
    let ?now = "clock_now (w_kern (on_kern tick w))"
    let ?w = "put_peer fd (connected ?now p) (on_kern tick (on_kern tick w))"
    have inv2: "worker_inv base ?w" by (rule inv_connected) (simp_all add: inv_tick inv1 Some)
    have i2: "p_backend p < pool_size (w_rt ?w)" using i by simp
    have "keeps base ?w (chain (on_rt (record_connect_latency (p_backend p) l) ?w) (\<lambda>w.
        chain (on_rt (heal_backend (p_backend p)) w) (\<lambda>w.
        chain (flush fd w) (\<lambda>w. Ok (modify_fd fd w)))))" for l
      by (rule keeps_chain [OF keeps_step [OF rt_steps(5) [OF inv2 i2]]],
          rule keeps_chain [OF keeps_step [OF rt_steps(2)]], assumption,
          use i2 in simp, rule keeps_chain [OF keeps_flush], assumption,
          intro keeps_Ok inv_modify, simp_all)
    note k = keeps_shift [OF this, of w] loose_simps(4) [of "on_kern tick (on_kern tick w)" fd p]
    have "p_backend (connected ?now p) = p_backend p" by (simp add: connected_def)
    with True Some k show ?thesis by (simp add: finish_connect_def Let_def)
  qed
qed

section \<open>Timeouts and shutdown\<close>

lemma inv_counters:
  assumes "worker_inv base w"
  shows "worker_inv base (w\<lparr>w_rt := count_connect_timeout (w_rt w)\<rparr>)"
    and "worker_inv base (w\<lparr>w_rt := count_idle_timeout (w_rt w)\<rparr>)"
    and "pool_size (count_connect_timeout r) = pool_size r"
    and "pool_size (count_idle_timeout r) = pool_size r"
  using worker_invD(1,10) [OF assms]
  by (auto simp: count_connect_timeout_def count_idle_timeout_def wf_runtime_def runtime_views
      rt.counts_def intro!: inv_rt [OF assms])

lemma keeps_close_expired: "worker_inv base w \<Longrightarrow> keeps base w (close_expired xs w)"
proof (induction xs w rule: close_expired.induct)
  case (1 w)
  then show ?case by (simp add: keeps_Ok)
next
  case (2 fd b rest w)
  let ?w = "w\<lparr>w_rt := (if b then count_connect_timeout else count_idle_timeout) (w_rt w)\<rparr>"
  have inv: "worker_inv base ?w" and size: "frame ?w = frame w" "loose ?w = loose w"
    using inv_counters [OF "2.prems"] by (cases b; simp)+
  have "keeps base ?w (close_expired ((fd, b) # rest) w)"
    unfolding close_expired.simps
    by (rule keeps_chain [OF keeps_close_pair [OF inv]], rule "2.IH")
  from keeps_shift [OF this size] show ?case .
qed

lemma keeps_reap:
  assumes "worker_inv base w"
  shows "keeps base w (reap_timeouts w)"
proof -
  note k = keeps_close_expired [OF inv_tick [OF assms]]
  show ?thesis
    unfolding reap_timeouts_def Let_def by (rule keeps_shift [OF k]) simp_all
qed

text \<open>Draining the timer changes nothing but the timer's script and what was read from it.\<close>

lemma read_elsewhere:
  "sys_read fd k = (r, k') \<Longrightarrow> k_open k' = k_open k \<and> k_sent k' = k_sent k \<and> (\<forall>g. g \<noteq> fd \<longrightarrow> k_rcvd k' g = k_rcvd k g)"
  by (auto simp: sys_read_def split: list.splits read_result.splits)

lemma consume_timer_frame:
  "kern_ok (consume_timer fd k) = kern_ok k \<and> k_open (consume_timer fd k) = k_open k \<and>
    k_sent (consume_timer fd k) = k_sent k \<and> (\<forall>g. g \<noteq> fd \<longrightarrow> k_rcvd (consume_timer fd k) g = k_rcvd k g)"
proof (induction fd k rule: consume_timer.induct)
  case (1 fd k)
  obtain r k' where rd: "sys_read fd k = (r, k')" by fastforce
  show ?case
    using 1 [OF rd [symmetric]] rd kern_ok_read [OF rd] read_elsewhere [OF rd]
    by (cases r) (auto simp: consume_timer.simps [of fd k])
qed

lemma inv_consume_timer:
  assumes inv: "worker_inv base w"
  shows "worker_inv base (on_kern (consume_timer (w_timer w)) w)"
    and "loose (on_kern (consume_timer (w_timer w)) w) = loose w"
proof -
  note D = worker_invD [OF inv] and F = consume_timer_frame [of "w_timer w" "w_kern w"]
  have "k_rcvd (consume_timer (w_timer w) (w_kern w)) (p_paired p) = k_rcvd (w_kern w) (p_paired p)"
    if "w_peers w fd = Some p" for fd p
  proof -
    have "p_paired p \<noteq> w_timer w" using paired_peer [OF D(3) that] D(6) by (auto simp: fixed_fds_def)
    with F show ?thesis by blast
  qed
  with D(9) F have "streams (w_peers w) (consume_timer (w_timer w) (w_kern w))" by (auto simp: streams_def)
  with inv F show "worker_inv base (on_kern (consume_timer (w_timer w)) w)"
    by (simp add: worker_inv_def fixed_fds_def on_kern_def)
  show "loose (on_kern (consume_timer (w_timer w)) w) = loose w" using F by (simp add: loose_def on_kern_def)
qed

lemma keeps_timer:
  assumes "worker_inv base w"
  shows "keeps base w (reap_timeouts (on_kern (consume_timer (w_timer w)) w))"
  by (rule keeps_shift [OF keeps_reap [OF inv_consume_timer(1) [OF assms]]])
    (simp_all add: inv_consume_timer(2) [OF assms])

lemma keeps_close_all: "worker_inv base w \<Longrightarrow> keeps base w (close_all fds w)"
proof (induction fds arbitrary: w)
  case Nil
  then show ?case by (simp add: keeps_Ok)
next
  case (Cons fd fds)
  then show ?case
    unfolding close_all.simps by (intro keeps_chain [OF keeps_close_pair]) auto
qed

section \<open>Accepting\<close>

text \<open>
  Opening a connection is where exceptions are: the state they leave still has the invariant.
  When no exception leaves, the loose descriptors are \<open>L\<close>.
\<close>

definition safe :: "fd set \<Rightarrow> (nat \<Rightarrow> nat) \<Rightarrow> worker \<Rightarrow> worker out \<Rightarrow> bool" where
  "safe L base w out \<longleftrightarrow>
     worker_inv base (state_of out) \<and> frame (state_of out) = frame w \<and>
     (\<forall>w'. out = Ok w' \<longrightarrow> loose w' = L)"

lemma keeps_safe: "keeps base w out \<Longrightarrow> safe (loose w) base w out"
  by (auto simp: keeps_def safe_def)

lemma safe_chain:
  assumes "safe K base w out"
    and "\<And>w'. worker_inv base w' \<Longrightarrow> frame w' = frame w \<Longrightarrow> loose w' = K \<Longrightarrow> safe L base w' (f w')"
  shows "safe L base w (chain out f)"
  using assms by (cases out) (auto simp: safe_def)

lemma safe_shift: "safe L base w' out \<Longrightarrow> frame w' = frame w \<Longrightarrow> safe L base w out"
  by (simp add: safe_def)

lemma loose_add [simp]: "loose (on_kern (ctl_add fd ev) w) = loose w"
  by (simp add: loose_def on_kern_def)

lemma safe_add_fd:
  assumes inv: "worker_inv base w"
  shows "safe (loose w) base w (add_fd fd ev w)"
proof -
  have "worker_inv base (on_kern (ctl_add fd ev) w)"
    unfolding on_kern_def by (rule inv_kern [OF inv]) (use worker_invD(2) [OF inv] in simp_all)
  then show ?thesis by (simp add: add_fd_def safe_def)
qed

text \<open>Taking a backend advances the rotation and nothing else.\<close>

lemma select_state: "select draw s = (r, s') \<Longrightarrow> \<exists>n. s' = s\<lparr>s_next := n\<rparr>"
proof -
  assume "select draw s = (r, s')"
  then have "s' = s \<or> s' = s\<lparr>s_next := s_next s + 1\<rparr>"
    by (auto simp: select_def split: if_splits option.splits)
  then show "\<exists>n. s' = s\<lparr>s_next := n\<rparr>"
  proof
    assume "s' = s"
    then have "s' = s\<lparr>s_next := s_next s\<rparr>" by simp
    then show ?thesis by (rule exI)
  qed (rule exI)
qed

lemma inv_sched_next:
  assumes "worker_inv base w"
  shows "worker_inv base (w\<lparr>w_rt := (w_rt w)\<lparr>r_sched := (r_sched (w_rt w))\<lparr>s_next := n\<rparr>\<rparr>\<rparr>)"
  using worker_invD(1,10) [OF assms]
  by (intro inv_rt [OF assms])
    (auto simp: wf_runtime_def wf_scheduler_def backend_count_def runtime_views rt.counts_def active_of_def)

text \<open>A descriptor that is opened while connecting starts with empty streams.\<close>

lemma open_streams:
  "k_rcvd (snd (sys_open k)) = (k_rcvd k)(fst (sys_open k) := [])"
  "k_sent (snd (sys_open k)) = (k_sent k)(fst (sys_open k) := [])"
  by (simp_all add: sys_open_def Let_def)

lemma close_streams [simp]:
  "k_rcvd (sys_close fd k) = k_rcvd k" "k_sent (sys_close fd k) = k_sent k"
  by (simp_all add: sys_close_def)

lemma connect_loop_streams:
  "kern_ok k \<Longrightarrow> connect_loop as k = (r, k') \<Longrightarrow>
    (\<forall>g \<in> k_open k. k_rcvd k' g = k_rcvd k g \<and> k_sent k' g = k_sent k g) \<and>
    (\<forall>fd. r = Inr (Some fd) \<longrightarrow> k_rcvd k' fd = [] \<and> k_sent k' fd = [])"
proof (induction as arbitrary: k)
  case Nil
  then show ?case by auto
next
  case (Cons a as)
  show ?case
  proof (cases "\<not> a_socket a \<or> table_full k")
    case True
    with Cons show ?thesis by auto
  next
    case False
    obtain fd k1 where o: "sys_open k = (fd, k1)" by fastforce
    have ok: "kern_ok k1" "fd \<notin> k_open k" "kern_ok (sys_close fd k1)" "k_open (sys_close fd k1) = k_open k"
      "k_rcvd k1 = (k_rcvd k)(fd := [])" "k_sent k1 = (k_sent k)(fd := [])"
      using kern_ok_open [OF Cons.prems(1)] False o sys_close_open [OF Cons.prems(1)]
        open_streams [of k] kern_ok_close [of k1 fd] by auto
    have ?thesis if "connect_loop as (sys_close fd k1) = (r, k')"
      using Cons.IH [OF ok(3) that] ok(2,4,5,6) by auto
    with Cons.prems(2) False o ok(2,5,6) show ?thesis
      by (auto split: option.splits if_splits)
  qed
qed

lemma connect_backend_streams:
  "kern_ok k \<Longrightarrow> connect_backend e k = (r, k') \<Longrightarrow>
    (\<forall>g \<in> k_open k. k_rcvd k' g = k_rcvd k g \<and> k_sent k' g = k_sent k g) \<and>
    (\<forall>fd. r = Inr (Some fd) \<longrightarrow> k_rcvd k' fd = [] \<and> k_sent k' fd = [])"
  using connect_loop_streams [of "tick k" _ r k']
  by (auto simp: connect_backend_def split: sum.splits)

lemma inv_replace_kern:
  assumes inv: "worker_inv base w" and k: "kern_ok k'" "k_open (w_kern w) \<subseteq> k_open k'"
    and same: "\<forall>g \<in> k_open (w_kern w). k_rcvd k' g = k_rcvd (w_kern w) g \<and> k_sent k' g = k_sent (w_kern w) g"
  shows "worker_inv base (w\<lparr>w_kern := k'\<rparr>)"
proof -
  note D = worker_invD [OF inv]
  have "streams (w_peers w) k'"
    unfolding streams_def
  proof (intro allI impI)
    fix fd p
    assume p: "w_peers w fd = Some p"
    with paired_peer [OF D(3) p] have "fd \<in> dom (w_peers w)" "p_paired p \<in> dom (w_peers w)" by auto
    with D(5) same have "k_sent k' fd = k_sent (w_kern w) fd"
      "k_rcvd k' (p_paired p) = k_rcvd (w_kern w) (p_paired p)" by blast+
    with D(9) p show "k_sent k' fd @ drop (p_sent p) (p_outbound p) = k_rcvd k' (p_paired p)"
      by (simp add: streams_def)
  qed
  with D k show ?thesis by (auto simp: worker_inv_def fixed_fds_def)
qed

lemma load_bounded:
  assumes "worker_inv base w"
  shows "load (shape (w_peers w)) i < 2 ^ 31"
proof -
  note D = worker_invD [OF assms]
  have "load (shape (w_peers w)) i \<le> card (dom (w_peers w))"
    unfolding load_def by (rule card_mono) (use D(4) in \<open>auto simp: client_fds_def shape_def\<close>)
  also have "\<dots> \<le> card (k_open (w_kern w))"
    by (rule card_mono) (use D(2,5) in \<open>auto simp: kern_ok_def\<close>)
  also have "\<dots> < 2 ^ 31" using D(2) by (simp add: kern_ok_def)
  finally show ?thesis .
qed

text \<open>A new pair: both descriptors are open, in use by nobody, and have carried no bytes.\<close>

definition new_pair :: "fd \<Rightarrow> fd \<Rightarrow> nat \<Rightarrow> int \<Rightarrow> int \<Rightarrow> worker \<Rightarrow> worker" where
  "new_pair c s i now deadline w =
     emplace s (new_peer s c i True True now deadline)
       (emplace c (new_peer c s i False False now deadline) w)"

lemma inv_new_pair:
  assumes inv: "worker_inv base w" and i: "i < pool_size (w_rt w)" "base i < 2 ^ 63"
    and fds: "c \<in> k_open (w_kern w)" "s \<in> k_open (w_kern w)" "c \<noteq> s" "{c, s} \<inter> fixed_fds w = {}"
      "w_peers w c = None" "w_peers w s = None"
    and empty: "k_rcvd (w_kern w) c = []" "k_sent (w_kern w) c = []"
      "k_rcvd (w_kern w) s = []" "k_sent (w_kern w) s = []"
  shows "\<exists>r. record_connection_open i (w_rt w) = Ok r \<and> pool_size r = pool_size (w_rt w) \<and>
    worker_inv base (new_pair c s i now deadline (w\<lparr>w_rt := r\<rparr>))"
proof -
  note D = worker_invD [OF inv]
  let ?S = "shape (w_peers w)"
  let ?f = "\<lambda>j. base j + load ?S j"
  let ?P = "(w_peers w)(c \<mapsto> new_peer c s i False False now deadline,
                        s \<mapsto> new_peer s c i True True now deadline)"
  have "?f i < 2 ^ 64 - 1" using load_bounded [OF inv, of i] i(2) by simp
  from rt.counts_open [OF D(1) i(1) D(10) this] obtain r where r:
    "record_connection_open i (w_rt w) = Ok r" "wf_runtime r" "pool_size r = pool_size (w_rt w)"
    "rt.counts r (?f(i := Suc (?f i)))" by blast
  have none: "?S c = None" "?S s = None" using fds(5,6) by (simp_all add: shape_def)
  have shp: "shape ?P = ?S(c \<mapsto> (c, s, i, False), s \<mapsto> (s, c, i, True))"
    by (auto simp: shape_def core_def new_peer_def)
  have "load (shape ?P) = (load ?S)(i := Suc (load ?S i))"
    unfolding shp by (rule load_insert) (use D(4) none fds(3) in simp_all)
  then have "?f(i := Suc (?f i)) = (\<lambda>j. base j + load (shape ?P) j)" by auto
  with r(4) have cnt: "rt.counts r (\<lambda>j. base j + load (shape ?P) j)" by simp
  have pairs: "paired_shape (pool_size r) (shape ?P)"
    unfolding shp r(3) by (rule paired_insert [OF D(3) none fds(3) i(1)])
  have locals: "local_ok x" if "?P g = Some x" for g x
    using that D(8) by (auto simp: local_ok_def new_peer_def split: if_splits)
  have "p_paired p \<noteq> c \<and> p_paired p \<noteq> s" if "w_peers w g = Some p" for g p
    using paired_peer [OF D(3) that] fds(5,6) by auto
  then have strm: "streams ?P (w_kern w)"
    using D(9) empty by (auto simp: streams_def new_peer_def)
  have "worker_inv base (w\<lparr>w_peers := ?P, w_rt := r\<rparr>)"
    using D(2,4-7) fds pairs locals strm cnt r(2)
    by (auto simp: worker_inv_def fixed_fds_def simp del: fun_upd_apply)
  moreover have "new_pair c s i now deadline (w\<lparr>w_rt := r\<rparr>) = w\<lparr>w_peers := ?P, w_rt := r\<rparr>"
    using fds(3,5,6) by (simp add: new_pair_def emplace_def put_peer_def)
  ultimately show ?thesis using r(1,3) by simp
qed

definition unused :: "fd \<Rightarrow> worker \<Rightarrow> bool" where
  "unused c w \<longleftrightarrow> c \<in> k_open (w_kern w) \<and> c \<notin> fixed_fds w \<and> w_peers w c = None \<and>
     k_rcvd (w_kern w) c = [] \<and> k_sent (w_kern w) c = []"

lemma inv_close_unused:
  assumes inv: "worker_inv base w" and c: "c \<notin> fixed_fds w" "w_peers w c = None"
  shows "worker_inv base (on_kern (sys_close c) w)"
proof -
  note D = worker_invD [OF inv]
  have "streams (w_peers w) (sys_close c (w_kern w))" using D(9) by (simp add: streams_def)
  moreover have "k_open (sys_close c (w_kern w)) = k_open (w_kern w) - {c}" by (simp add: sys_close_def)
  ultimately show ?thesis
    using D(1,3-8,10) c kern_ok_close [OF D(2), of c]
    by (auto simp: worker_inv_def fixed_fds_def on_kern_def)
qed

lemma attach_opened:
  assumes inv: "worker_inv base w" and i: "i < pool_size (w_rt w)" "base i < 2 ^ 63"
    and fds: "unused c w" "unused s w" "c \<noteq> s"
  shows "safe (loose w - {c, s}) base w (chain (on_rt (record_connection_open i) w) (\<lambda>w.
    chain (add_fd c ev1 (new_pair c s i now deadline w)) (add_fd s ev2)))"
proof -
  from fds have "\<exists>r. record_connection_open i (w_rt w) = Ok r \<and> pool_size r = pool_size (w_rt w) \<and>
      worker_inv base (new_pair c s i now deadline (w\<lparr>w_rt := r\<rparr>))"
    by (intro inv_new_pair [OF inv i]) (auto simp: unused_def)
  then obtain r where r: "record_connection_open i (w_rt w) = Ok r" "pool_size r = pool_size (w_rt w)"
    "worker_inv base (new_pair c s i now deadline (w\<lparr>w_rt := r\<rparr>))" by blast
  let ?w = "new_pair c s i now deadline (w\<lparr>w_rt := r\<rparr>)"
  have size: "frame ?w = frame w"
    using r(2) by (simp add: new_pair_def emplace_def split: option.splits)
  have gone: "loose ?w = loose w - {c, s}"
    using fds by (auto simp: new_pair_def emplace_def put_peer_def loose_def unused_def)
  have "safe (loose ?w) base ?w (chain (add_fd c ev1 ?w) (add_fd s ev2))"
  proof (rule safe_chain [OF safe_add_fd [OF r(3)]])
    fix w'
    assume "worker_inv base w'" "loose w' = loose ?w"
    with safe_add_fd [of base w' s ev2] show "safe (loose ?w) base w' (add_fd s ev2 w')" by simp
  qed
  from safe_shift [OF this size] r(1) show ?thesis by (simp add: on_rt_def gone)
qed

lemma unused_frame [simp]:
  "unused c (on_kern tick w) = unused c w"
  "unused c (w\<lparr>w_rt := r\<rparr>) = unused c w"
  by (simp_all add: unused_def on_kern_def fixed_fds_def)

text \<open>Without a backend the client's descriptor is closed.\<close>

lemma safe_give_up:
  assumes "worker_inv base w" "unused c w"
  shows "safe (loose w - {c}) base w (Ok (on_kern (sys_close c) w))"
proof -
  have "loose (on_kern (sys_close c) w) = loose w - {c}"
    by (auto simp: loose_def on_kern_def sys_close_def)
  with inv_close_unused [OF assms(1)] assms(2) show ?thesis by (auto simp: safe_def unused_def)
qed

lemma safe_reject:
  assumes inv: "worker_inv base w" and i: "i < pool_size (w_rt w)" and c: "unused c w"
  shows "safe (loose w - {c}) base w (chain (on_rt (record_backend_failure i) w) (\<lambda>w.
    chain (maybe_eject i w) (\<lambda>w. Ok (on_kern (sys_close c) w))))"
proof -
  from rt_step_fail [OF inv i] obtain r where
    r: "chain (on_rt (record_backend_failure i) w) (maybe_eject i) = Ok (w\<lparr>w_rt := r\<rparr>)"
      "worker_inv base (w\<lparr>w_rt := r\<rparr>)" "pool_size r = pool_size (w_rt w)"
    by (auto simp: rt_step_def)
  have "unused c (w\<lparr>w_rt := r\<rparr>)" using c by simp
  from safe_give_up [OF r(2) this] r(3) have
    "safe (loose w - {c}) base w (Ok (on_kern (sys_close c) (w\<lparr>w_rt := r\<rparr>)))"
    by (auto intro: safe_shift)
  then show ?thesis unfolding chain_assoc [symmetric] r(1) by simp
qed

text \<open>The worker after \<open>select\<close>: the rotation has moved and a draw was made.\<close>

lemma inv_selected:
  assumes inv: "worker_inv base w" and c: "unused c w"
    and sel: "select (k_draw (w_kern w) (k_calls (w_kern w))) (r_sched (w_rt w)) = (sel, s')"
  defines "w1 \<equiv> on_kern tick (w\<lparr>w_rt := (w_rt w)\<lparr>r_sched := s'\<rparr>\<rparr>)"
  shows "worker_inv base w1" "unused c w1" "frame w1 = frame w" "loose w1 = loose w"
    and "sel = Some b \<Longrightarrow> sel_index b < pool_size (w_rt w1)"
proof -
  from select_state [OF sel] obtain n where s': "s' = (r_sched (w_rt w))\<lparr>s_next := n\<rparr>" by blast
  show "worker_inv base w1" unfolding w1_def s' by (rule inv_tick, rule inv_sched_next, rule inv)
  show "unused c w1" using c by (simp add: w1_def)
  show "frame w1 = frame w" by (simp add: w1_def frame_def pool_size_def on_kern_def)
  show "loose w1 = loose w" by (simp add: w1_def)
  show "sel_index b < pool_size (w_rt w1)" if "sel = Some b"
  proof -
    have "routable (r_sched (w_rt w)) (sel_index b)" using select_Some sel that by blast
    with routable_bound worker_invD(1) [OF inv] show ?thesis
      by (auto simp: w1_def wf_runtime_def pool_size_def backend_count_def)
  qed
qed

text \<open>The worker after \<open>connect_backend\<close>, whether it returned a descriptor or not.\<close>

lemma inv_dialled:
  assumes inv: "worker_inv base w" and c: "unused c w"
    and cb: "connect_backend e (w_kern w) = (r, k)"
  shows "worker_inv base (w\<lparr>w_kern := k\<rparr>)" "unused c (w\<lparr>w_kern := k\<rparr>)"
    and "r = Inr None \<Longrightarrow> loose (w\<lparr>w_kern := k\<rparr>) = loose w"
    and "r = Inr (Some s) \<Longrightarrow> unused s (w\<lparr>w_kern := k\<rparr>) \<and> c \<noteq> s \<and>
      loose (w\<lparr>w_kern := k\<rparr>) - {s} = loose w"
proof -
  note op = connect_backend_open [OF worker_invD(2) [OF inv] cb]
    and st = connect_backend_streams [OF worker_invD(2) [OF inv] cb]
  show "worker_inv base (w\<lparr>w_kern := k\<rparr>)"
    by (rule inv_replace_kern [OF inv])
      (use op st in \<open>auto simp: opened_at_most_one_def split: sum.splits option.splits\<close>)
  show "unused c (w\<lparr>w_kern := k\<rparr>)"
    using c op st
    by (auto simp: unused_def fixed_fds_def opened_at_most_one_def split: sum.splits option.splits)
  show "loose (w\<lparr>w_kern := k\<rparr>) = loose w" if "r = Inr None"
    using op that by (intro loose_kern) (simp add: opened_at_most_one_def)
  show "unused s (w\<lparr>w_kern := k\<rparr>) \<and> c \<noteq> s \<and> loose (w\<lparr>w_kern := k\<rparr>) - {s} = loose w"
    if "r = Inr (Some s)"
  proof -
    have s: "s \<notin> k_open (w_kern w)" "k_open k = insert s (k_open (w_kern w))" "k_rcvd k s = []" "k_sent k s = []"
      using op st that by (auto simp: opened_at_most_one_def)
    then show ?thesis
      using worker_invD(5,7) [OF inv] c by (auto simp: unused_def fixed_fds_def loose_def)
  qed
qed

lemma safe_attach:
  assumes inv: "worker_inv base w" and base: "\<forall>i. base i < 2 ^ 63" and c: "unused c w"
  shows "safe (loose w - {c}) base w (attach_backend c w)"
proof -
  obtain sel s' where sel: "select (k_draw (w_kern w) (k_calls (w_kern w))) (r_sched (w_rt w)) = (sel, s')"
    by fastforce
  define w1 where "w1 = on_kern tick (w\<lparr>w_rt := (w_rt w)\<lparr>r_sched := s'\<rparr>\<rparr>)"
  note S = inv_selected [OF inv c sel, folded w1_def]
  show ?thesis
  proof (cases sel)
    case None
    with sel safe_give_up [OF S(1,2)] S(3,4) show ?thesis
      by (simp add: attach_backend_def w1_def [symmetric] safe_def)
  next
    case (Some b)
    note i = S(5) [OF Some]
    obtain r k where cb: "connect_backend (sel_endpoint b) (w_kern w1) = (r, k)" by fastforce
    note N = inv_dialled [OF S(1,2) cb]
    consider e where "r = Inl e" | "r = Inr None" | s where "r = Inr (Some s)"
      by (metis old.sum.exhaust option.exhaust)
    then show ?thesis
    proof cases
      case 1
      with sel Some cb N(1) S(3) show ?thesis
        by (simp add: attach_backend_def w1_def [symmetric] safe_def)
    next
      case 2
      have "safe (loose w - {c}) base (w1\<lparr>w_kern := k\<rparr>)
          (chain (on_rt (record_backend_failure (sel_index b)) (w1\<lparr>w_kern := k\<rparr>)) (\<lambda>w.
            chain (maybe_eject (sel_index b) w) (\<lambda>w. Ok (on_kern (sys_close c) w))))"
        using safe_reject [OF N(1) _ N(2), of "sel_index b"] i N(3) [OF 2] S(4) by simp
      from safe_shift [OF this] sel Some cb 2 S(3) show ?thesis
        by (simp add: attach_backend_def w1_def [symmetric])
    next
      case (3 s)
      let ?w = "w1\<lparr>w_kern := tick k\<rparr>"
      have tk: "?w = on_kern tick (w1\<lparr>w_kern := k\<rparr>)" by (simp add: on_kern_def)
      have "safe (loose ?w - {c, s}) base ?w (chain (on_rt (record_connection_open (sel_index b)) ?w) (\<lambda>w.
          chain (add_fd c ev1 (new_pair c s (sel_index b) now deadline w)) (add_fd s ev2)))"
        for ev1 ev2 now deadline
        using i base N(2) N(4) [OF 3] unfolding tk
        by (intro attach_opened [OF inv_tick [OF N(1)]]) auto
      moreover have "loose ?w - {c, s} = loose w - {c}"
        using N(4) [OF 3] S(4) unfolding tk by auto
      ultimately have "safe (loose w - {c}) base w (chain (on_rt (record_connection_open (sel_index b)) ?w) (\<lambda>w.
          chain (add_fd c ev1 (new_pair c s (sel_index b) now deadline w)) (add_fd s ev2)))"
        for ev1 ev2 now deadline
        using S(3) by (simp add: safe_def)
      with sel Some cb 3 show ?thesis
        by (simp add: attach_backend_def w1_def [symmetric] new_pair_def Let_def)
    qed
  qed
qed

lemma accept_client:
  assumes inv: "worker_inv base w" and acc: "sys_accept (w_kern w) = (AClient, c, k)"
  shows "worker_inv base (w\<lparr>w_kern := k\<rparr>)" "unused c (w\<lparr>w_kern := k\<rparr>)"
    "loose (w\<lparr>w_kern := k\<rparr>) - {c} = loose w"
proof -
  note D = worker_invD [OF inv]
  from acc obtain rs where k: "\<not> table_full (w_kern w)"
    "sys_open ((w_kern w)\<lparr>k_accepts := rs\<rparr>) = (c, k)"
    by (auto simp: sys_accept_def Let_def split: list.splits if_splits prod.splits)
  let ?k1 = "(w_kern w)\<lparr>k_accepts := rs\<rparr>"
  have ok: "kern_ok ?k1" "\<not> table_full ?k1" using D(2) k(1) by (simp_all add: kern_ok_def table_full_def)
  note O = kern_ok_open [OF ok] open_fields [of ?k1] open_streams [of ?k1]
  show "worker_inv base (w\<lparr>w_kern := k\<rparr>)"
    by (rule inv_replace_kern [OF inv]) (use O k(2) in auto)
  show "unused c (w\<lparr>w_kern := k\<rparr>)" using O k(2) D(5,7) by (auto simp: unused_def fixed_fds_def)
  show "loose (w\<lparr>w_kern := k\<rparr>) - {c} = loose w" using O k(2) D(5) by (auto simp: loose_def)
qed

lemma accept_none:
  assumes inv: "worker_inv base w" and acc: "sys_accept (w_kern w) = (r, c, k)" "r \<noteq> AClient"
  shows "worker_inv base (w\<lparr>w_kern := k\<rparr>)" "loose (w\<lparr>w_kern := k\<rparr>) = loose w"
proof -
  have same: "k_alloc k = k_alloc (w_kern w)" "k_limit k = k_limit (w_kern w)"
    "k_order k = k_order (w_kern w)" "k_open k = k_open (w_kern w)"
    "k_rcvd k = k_rcvd (w_kern w)" "k_sent k = k_sent (w_kern w)"
    using acc by (auto simp: sys_accept_def Let_def split: list.splits if_splits prod.splits)
  then show "loose (w\<lparr>w_kern := k\<rparr>) = loose w" by (simp add: loose_kern)
  show "worker_inv base (w\<lparr>w_kern := k\<rparr>)"
    using same worker_invD(2) [OF inv] kern_ok_cong [of k "w_kern w"] by (intro inv_kern [OF inv]) auto
qed

lemma safe_accept:
  "worker_inv base w \<Longrightarrow> \<forall>i. base i < 2 ^ 63 \<Longrightarrow> safe (loose w) base w (accept_clients w)"
proof (induction w rule: accept_clients.induct)
  case (1 w)
  note inv = "1.prems"(1) and base = "1.prems"(2)
  obtain r c k where acc: "sys_accept (w_kern w) = (r, c, k)" by (metis prod_cases3)
  show ?case
  proof (cases r)
    case AClient
    note U = accept_client [OF inv acc [unfolded AClient]]
    have s: "safe (loose w) base (w\<lparr>w_kern := k\<rparr>) (attach_backend c (w\<lparr>w_kern := k\<rparr>))"
      using safe_attach [OF U(1) base U(2)] unfolding U(3) .
    show ?thesis
    proof (cases "attach_backend c (w\<lparr>w_kern := k\<rparr>)")
      case (Ok w1)
      then have "safe (loose w) base w1 (accept_clients w1)"
        using "1.IH"(1) [OF acc [symmetric] AClient refl Ok] s base by (simp add: safe_def)
      with Ok s AClient acc show ?thesis
        by (auto simp: accept_clients.simps [of w] safe_def)
    next
      case (Throw e w1)
      with s AClient acc show ?thesis by (simp add: accept_clients.simps [of w] safe_def)
    qed
  next
    case AIntr
    from accept_none [OF inv acc] AIntr have N: "worker_inv base (w\<lparr>w_kern := k\<rparr>)"
      "loose (w\<lparr>w_kern := k\<rparr>) = loose w" by simp_all
    from "1.IH"(2) [OF acc [symmetric] AIntr refl N(1) base] AIntr acc show ?thesis
      by (simp add: accept_clients.simps [of w] safe_def N(2))
  qed (use accept_none [OF inv acc] acc in \<open>simp_all add: accept_clients.simps [of w] safe_def\<close>)
qed

section \<open>Events\<close>

lemma keeps_event:
  assumes "worker_inv base w" "fst ev \<noteq> w_listener w"
  shows "keeps base w (handle_event ev w)"
proof -
  obtain fd flags where ev: "ev = (fd, flags)" by fastforce
  have same: "keeps base w' (Ok w')" if "worker_inv base w'" for w'
    using that by (simp add: keeps_Ok)
  have steps: "keeps base w (chain (if a then finish_connect fd w else Ok w) (\<lambda>w.
      chain (if b w then read_available fd w else Ok w) (\<lambda>w. if c w then flush fd w else Ok w)))" for a b c
    using assms(1) by (intro keeps_chain) (auto intro: keeps_finish_connect keeps_read keeps_flush same)
  from steps assms keeps_timer [OF assms(1)] keeps_close_pair [OF assms(1)] show ?thesis
    by (auto simp: handle_event_def ev same split: option.splits)
qed

lemma safe_event:
  assumes "worker_inv base w" "\<forall>i. base i < 2 ^ 63"
  shows "safe (loose w) base w (handle_event ev w)"
proof (cases "fst ev = w_listener w")
  case True
  with safe_accept [OF assms] show ?thesis by (auto simp: handle_event_def split: prod.splits)
next
  case False
  then show ?thesis by (rule keeps_safe [OF keeps_event [OF assms(1)]])
qed

lemma safe_batch:
  "worker_inv base w \<Longrightarrow> \<forall>i. base i < 2 ^ 63 \<Longrightarrow> safe (loose w) base w (handle_batch evs w)"
proof (induction evs arbitrary: w)
  case Nil
  then show ?case by (simp add: safe_def)
next
  case (Cons ev evs)
  show ?case
    unfolding handle_batch.simps
  proof (rule safe_chain [OF safe_event [OF Cons.prems]])
    fix w'
    assume "worker_inv base w'" "loose w' = loose w"
    with Cons.IH [of w'] Cons.prems(2) show "safe (loose w) base w' (handle_batch evs w')" by simp
  qed
qed

lemma safe_loop:
  "worker_inv base w \<Longrightarrow> \<forall>i. base i < 2 ^ 63 \<Longrightarrow> safe (loose w) base w (event_loop rounds w)"
proof (induction rounds w rule: event_loop.induct)
  case (4 evs rest w)
  show ?case
    unfolding event_loop.simps
  proof (rule safe_chain [OF safe_batch [OF "4.prems"]])
    fix w'
    assume "worker_inv base w'" "loose w' = loose w"
    with "4.IH" [of w'] "4.prems"(2) show "safe (loose w) base w' (event_loop rest w')" by simp
  qed
qed (simp_all add: safe_def)

end
