(* ===== verification/LB_Worker_Props.thy ===== *)
theory LB_Worker_Props
  imports LB_Worker_Inv
begin

text \<open>
  What a worker promises. The first part puts the worker into its surroundings: between two of
  its events the network may deliver anything, and the other workers, the health checks and the
  admin server may change the shared runtime, as long as they count their own connections. The
  properties are then stated for every state that can be reached in these surroundings, or for
  single operations from a state with the invariant.
\<close>

section \<open>The worker in its surroundings\<close>

text \<open>
  \<open>base i\<close> is the number of connections that others hold on backend \<open>i\<close>.
\<close>

inductive worker_step :: "(nat \<Rightarrow> nat) \<times> worker \<Rightarrow> (nat \<Rightarrow> nat) \<times> worker \<Rightarrow> bool" where
  event: "worker_step (base, w) (base, state_of (handle_event ev w))"
| network: "worker_step (base, w)
    (base, w\<lparr>w_kern := (w_kern w)\<lparr>k_accepts := as, k_reads := rs, k_writes := ws\<rparr>\<rparr>)"
| others: "wf_runtime r \<Longrightarrow> pool_size r = pool_size (w_rt w) \<Longrightarrow> \<forall>i. base' i < 2 ^ 63 \<Longrightarrow>
    rt.counts r (\<lambda>i. base' i + load (shape (w_peers w)) i) \<Longrightarrow>
    worker_step (base, w) (base', w\<lparr>w_rt := r\<rparr>)"

inductive_cases worker_stepE: "worker_step (base, w) s"

definition system_inv :: "(nat \<Rightarrow> nat) \<times> worker \<Rightarrow> bool" where
  "system_inv s \<longleftrightarrow> worker_inv (fst s) (snd s) \<and> (\<forall>i. fst s i < 2 ^ 63)"

interpretation system: step_invariant worker_step system_inv
proof unfold_locales
  fix s t
  assume "worker_step s t" and inv: "system_inv s"
  then show "system_inv t"
  proof cases
    case (event base w ev)
    with inv safe_event [of base w ev] show ?thesis by (simp add: system_inv_def safe_def)
  next
    case (network base w ws rs as)
    from inv network have I: "worker_inv base w" "\<forall>i. base i < 2 ^ 63" by (simp_all add: system_inv_def)
    let ?k = "(w_kern w)\<lparr>k_accepts := as, k_reads := rs, k_writes := ws\<rparr>"
    have "kern_ok ?k" using worker_invD(2) [OF I(1)] by (simp add: kern_ok_def)
    with inv_kern [OF I(1), of ?k] I(2) network show ?thesis by (simp add: system_inv_def)
  next
    case (others r w base' base)
    with inv inv_rt [of base' "w\<lparr>w_rt := r\<rparr>" r] show ?thesis
      by (auto simp: system_inv_def worker_inv_def fixed_fds_def)
  qed
qed

section \<open>Sample states\<close>

text \<open>An idle worker, and one with a pair: the client is 6, its backend connection is 7.\<close>

definition idle_worker :: worker where
  "idle_worker = \<lparr>w_peers = Map.empty, w_rt = fresh_runtime 0 sample_config,
     w_kern = sample_kern\<lparr>k_open := {3, 4, 5, 6, 7}\<rparr>,
     w_listener = 3, w_timer = 4, w_epoll = 5\<rparr>"

definition pair_runtime :: runtime where
  "pair_runtime = state_of (record_connection_open 0 (fresh_runtime 0 sample_config))"

definition connecting_worker :: worker where
  "connecting_worker = new_pair 6 7 0 0 3000000000 (idle_worker\<lparr>w_rt := pair_runtime\<rparr>)"

definition busy_worker :: worker where
  "busy_worker = put_peer 7 (connected 0 (new_peer 7 6 0 True True 0 3000000000)) connecting_worker"

lemma idle_inv: "worker_inv (\<lambda>_. 0) idle_worker"
proof -
  have wf: "wf_runtime (fresh_runtime 0 sample_config)"
    unfolding fresh_runtime_def by (rule wf_new_runtime) (simp add: sample_config_def)
  have "kern_ok (sample_kern\<lparr>k_open := {3, 4, 5, 6, 7}\<rparr>)"
    using sample_kern_ok by (simp add: kern_ok_def) (simp add: sample_kern_def)
  moreover have "rt.counts (fresh_runtime 0 sample_config) (\<lambda>i. 0)"
    by (auto simp: rt.counts_def runtime_views fresh_runtime_def new_runtime_def new_scheduler_def
        active_of_def slot_def)
  moreover have "load (shape Map.empty) i = 0" for i
    by (simp add: load_def client_fds_def shape_def)
  ultimately show ?thesis
    using wf by (auto simp: worker_inv_def idle_worker_def fixed_fds_def streams_def
        paired_shape_def shape_def)
qed

lemma connecting_inv: "worker_inv (\<lambda>_. 0) connecting_worker"
proof -
  have "\<exists>r. record_connection_open 0 (w_rt idle_worker) = Ok r \<and> pool_size r = pool_size (w_rt idle_worker) \<and>
      worker_inv (\<lambda>_. 0) (new_pair 6 7 0 0 3000000000 (idle_worker\<lparr>w_rt := r\<rparr>))"
    by (rule inv_new_pair [OF idle_inv])
      (simp_all add: idle_worker_def fixed_fds_def sample_config_def sample_kern_def)
  then show ?thesis by (auto simp: connecting_worker_def pair_runtime_def idle_worker_def)
qed

lemma connecting_peers:
  "w_peers connecting_worker =
    [6 \<mapsto> new_peer 6 7 0 False False 0 3000000000, 7 \<mapsto> new_peer 7 6 0 True True 0 3000000000]"
  by (simp add: connecting_worker_def new_pair_def emplace_def put_peer_def idle_worker_def)

lemma busy_inv: "worker_inv (\<lambda>_. 0) busy_worker"
  unfolding busy_worker_def by (rule inv_connected [OF connecting_inv]) (simp add: connecting_peers)

lemma busy_peers:
  "w_peers busy_worker = [6 \<mapsto> new_peer 6 7 0 False False 0 3000000000,
     7 \<mapsto> connected 0 (new_peer 7 6 0 True True 0 3000000000)]"
  by (simp add: busy_worker_def put_peer_def connecting_peers)

lemma sample_system: "system_inv (\<lambda>_. 0, idle_worker)" "system_inv (\<lambda>_. 0, busy_worker)"
  using idle_inv busy_inv by (simp_all add: system_inv_def)

section \<open>Properties of every reachable state\<close>

lemma reachable_inv:
  "worker_step\<^sup>*\<^sup>* (base0, w0) (base, w) \<Longrightarrow> system_inv (base0, w0) \<Longrightarrow> worker_inv base w"
  using system.run_keeps by (fastforce simp: system_inv_def)

lemma pair_runtime_size: "pool_size pair_runtime = 2"
  by (simp add: pair_runtime_def record_connection_open_def with_sched_def mark_open_def
      fresh_runtime_def new_runtime_def new_scheduler_def sample_config_def pool_size_def)

lemma sample_rt: "w_rt busy_worker = pair_runtime" "w_rt connecting_worker = pair_runtime"
  by (simp_all add: busy_worker_def connecting_worker_def new_pair_def emplace_def put_peer_def
      idle_worker_def)

lemma sample_size: "pool_size (w_rt busy_worker) = 2"
  by (simp add: sample_rt pair_runtime_size)

text \<open>
  C1. No byte is lost, repeated, reordered or sent to the wrong connection. In every state that a
  worker reaches, whatever the network delivers and accepts, in whatever pieces, and whatever the
  other threads do to the shared state: what was written to a descriptor, followed by what waits
  in its output buffer, is exactly what was read from the other end of its pair.
\<close>

theorem stream_integrity:
  assumes "worker_step\<^sup>*\<^sup>* (base0, w0) (base, w)" and "system_inv (base0, w0)"
    and "w_peers w fd = Some p"
  shows "k_rcvd (w_kern w) (p_paired p) = k_sent (w_kern w) fd @ drop (p_sent p) (p_outbound p)"
  using worker_invD(9) [OF reachable_inv [OF assms(1,2)]] assms(3) by (simp add: streams_def)

theorem stream_integrity_witness:
  "k_rcvd (w_kern busy_worker) 6 = k_sent (w_kern busy_worker) 7 @ []"
  using stream_integrity [OF rtranclp.rtrancl_refl sample_system(2), of 7]
  by (simp add: busy_peers connected_def new_peer_def)

text \<open>
  C7. The peers come in pairs. In every state that a worker reaches, each peer's descriptor is
  open and is none of the worker's own, its partner is a peer that points back at it, serves the
  same backend from the other side, and its write position lies within its buffer; only a
  backend side is ever connecting.
\<close>

theorem peers_paired:
  assumes "worker_step\<^sup>*\<^sup>* (base0, w0) (base, w)" and "system_inv (base0, w0)"
    and "w_peers w fd = Some p"
  shows "fd \<in> k_open (w_kern w) - {w_listener w, w_timer w, w_epoll w} \<and>
    p_backend p < pool_size (w_rt w) \<and> p_sent p \<le> length (p_outbound p) \<and>
    (p_connecting p \<longrightarrow> p_backend_side p) \<and>
    (\<exists>q. w_peers w (p_paired p) = Some q \<and> p_paired q = fd \<and> p_backend q = p_backend p \<and>
       p_backend_side q \<noteq> p_backend_side p)"
proof -
  note D = worker_invD [OF reachable_inv [OF assms(1,2)]]
  have "fd \<in> dom (w_peers w)" using assms(3) by blast
  with D(5,6) have "fd \<in> k_open (w_kern w) - {w_listener w, w_timer w, w_epoll w}"
    by (auto simp: fixed_fds_def)
  with paired_peer [OF D(3) assms(3)] D(8) [OF assms(3)] show ?thesis by (auto simp: local_ok_def)
qed

theorem peers_paired_witness:
  "\<exists>q. w_peers busy_worker 6 = Some q \<and> p_paired q = 7"
  using peers_paired [OF rtranclp.rtrancl_refl sample_system(2), of 7]
  by (simp add: busy_peers connected_def new_peer_def)

text \<open>
  Connections are counted exactly. In every state that a worker reaches, the active counter
  of each backend is the number of pairs this worker holds on it plus the number that others hold:
  no accept, close, timeout, error or hangup path forgets to count or counts twice.
\<close>

theorem connections_counted:
  assumes "worker_step\<^sup>*\<^sup>* (base0, w0) (base, w)" and "system_inv (base0, w0)"
    and "i < pool_size (w_rt w)"
  shows "unat (runtime_active (w_rt w) i) = base i +
    card {fd. \<exists>p. w_peers w fd = Some p \<and> p_backend p = i \<and> \<not> p_backend_side p}"
proof -
  have "client_fds (shape (w_peers w)) i =
      {fd. \<exists>p. w_peers w fd = Some p \<and> p_backend p = i \<and> \<not> p_backend_side p}"
    by (auto simp: client_fds_def shape_def core_def)
  with worker_invD(10) [OF reachable_inv [OF assms(1,2)]] assms(3) show ?thesis
    by (simp add: rt.counts_def load_def)
qed

theorem connections_counted_witness: "runtime_active (w_rt busy_worker) 0 = 1"
proof -
  have "{fd. \<exists>p. w_peers busy_worker fd = Some p \<and> p_backend p = 0 \<and> \<not> p_backend_side p} = {6}"
    by (auto simp: busy_peers connected_def new_peer_def split: if_splits)
  moreover have "0 < pool_size (w_rt busy_worker)"
    by (simp add: sample_size)
  ultimately have "unat (runtime_active (w_rt busy_worker) 0) = 1"
    using connections_counted [OF rtranclp.rtrancl_refl sample_system(2), of 0] by simp
  then show ?thesis by (simp add: word_unat_eq_iff)
qed

section \<open>Operations\<close>

text \<open>
  C19. Only an accept can throw. Any other event, on any descriptor and with any flags, is handled
  to its end without an exception, keeps the invariant, and leaves every descriptor that belongs
  to no peer as it is: nothing else is closed and nothing is left open by mistake.
\<close>

theorem only_accept_throws:
  assumes "worker_inv base w" and "fd \<noteq> w_listener w"
  shows "\<exists>w'. handle_event (fd, flags) w = Ok w' \<and> worker_inv base w' \<and>
    k_open (w_kern w') - dom (w_peers w') = k_open (w_kern w) - dom (w_peers w)"
  using keeps_event [OF assms(1), of "(fd, flags)"] assms(2) by (auto simp: keeps_def loose_def)

theorem only_accept_throws_witness:
  "\<exists>w'. handle_event (7, 13) busy_worker = Ok w' \<and>
    k_open (w_kern w') - dom (w_peers w') = k_open (w_kern busy_worker) - dom (w_peers busy_worker)"
proof -
  have "(7 :: fd) \<noteq> w_listener busy_worker"
    by (simp add: busy_worker_def connecting_worker_def new_pair_def emplace_def put_peer_def idle_worker_def)
  from only_accept_throws [OF busy_inv this, of 13] show ?thesis by blast
qed

text \<open>The recordings leave the configuration alone.\<close>

lemma config_kept:
  "record_connection_close i r = Ok t \<Longrightarrow> r_config t = r_config r"
  "record_backend_failure i r = Ok t \<Longrightarrow> r_config t = r_config r"
  by (auto simp: runtime_op_defs map_out_def split: out.splits)

lemma failures_view:
  assumes "wf_runtime r" "i < pool_size r"
  shows "consecutive_failures (r_sched r) i = Inr (runtime_fails r i)"
  using assms
  by (auto simp: wf_runtime_def pool_size_def wf_scheduler_def consecutive_failures_def
      checked_get_def backend_count_def runtime_fails_def failures_of_def slot_def)

text \<open>Passive ejection, on the observations of the pool.\<close>

lemma eject_effect:
  assumes wf: "wf_runtime (w_rt w)" and i: "i < pool_size (w_rt w)"
  shows "\<exists>r. chain (on_rt (record_backend_failure i) w) (maybe_eject i) = Ok (w\<lparr>w_rt := r\<rparr>) \<and>
    runtime_active r = runtime_active (w_rt w) \<and>
    runtime_fails r = (runtime_fails (w_rt w))(i := runtime_fails (w_rt w) i + 1) \<and>
    runtime_state r = (if runtime_fails (w_rt w) i + 1 \<ge> passive_failure_threshold (r_config (w_rt w))
      then (runtime_state (w_rt w))(i := Down) else runtime_state (w_rt w))"
proof -
  from rt.fail_law [OF wf i] obtain t where t: "record_backend_failure i (w_rt w) = Ok t"
    "wf_runtime t" "pool_size t = pool_size (w_rt w)" "runtime_active t = runtime_active (w_rt w)"
    "runtime_fails t = (runtime_fails (w_rt w))(i := runtime_fails (w_rt w) i + 1)"
    "runtime_state t = runtime_state (w_rt w)" by blast
  from t(3) i have i': "i < pool_size t" by simp
  from rt.set_law [OF t(2) i', of Down] obtain u where "set_backend_state i Down t = Ok u"
    "runtime_active u = runtime_active t" "runtime_fails u = runtime_fails t"
    "runtime_state u = (runtime_state t)(i := Down)" by blast
  with t failures_view [OF t(2) i'] config_kept(2) [OF t(1)] show ?thesis
    by (auto simp: on_rt_def maybe_eject_def)
qed

text \<open>Closing a pair, on the map, the kernel and the observations of the pool.\<close>

lemma close_pair_views:
  assumes inv: "worker_inv base w" and p: "w_peers w fd = Some p"
  defines "i \<equiv> p_backend p"
  defines "n \<equiv> runtime_fails (w_rt w) i + 1"
  shows "\<exists>w'. close_pair fd failure w = Ok w' \<and>
    w_peers w' = (w_peers w)(fd := None, p_paired p := None) \<and>
    w_kern w' = sys_close (p_paired p) (sys_close fd (w_kern w)) \<and>
    runtime_active (w_rt w') = (runtime_active (w_rt w))(i := saturating_dec (runtime_active (w_rt w) i)) \<and>
    runtime_active (w_rt w) i > 0 \<and>
    runtime_fails (w_rt w') = (if failure then (runtime_fails (w_rt w))(i := n) else runtime_fails (w_rt w)) \<and>
    runtime_state (w_rt w') = (if failure \<and> n \<ge> passive_failure_threshold (r_config (w_rt w))
      then (runtime_state (w_rt w))(i := Down) else runtime_state (w_rt w))"
proof -
  note D = worker_invD [OF inv]
  from paired_peer [OF D(3) p] obtain q where q: "w_peers w (p_paired p) = Some q" "p_paired p \<noteq> fd"
    and i: "i < pool_size (w_rt w)" by (auto simp: i_def)
  from rt.close_law [OF D(1) i] obtain t where t: "record_connection_close i (w_rt w) = Ok t"
    "wf_runtime t" "pool_size t = pool_size (w_rt w)"
    "runtime_active t = (runtime_active (w_rt w))(i := saturating_dec (runtime_active (w_rt w) i))"
    "runtime_fails t = runtime_fails (w_rt w)" "runtime_state t = runtime_state (w_rt w)" by blast
  have core: "shape (w_peers w) fd = Some (p_fd p, p_paired p, i, p_backend_side p)"
    using p by (simp add: shape_def core_def i_def)
  have "load (shape (w_peers w)) i > 0" by (rule load_remove(2) [OF D(3) _ core]) (simp add: D(4))
  moreover have "unat (runtime_active (w_rt w) i) = base i + load (shape (w_peers w)) i"
    using D(10) i by (simp add: rt.counts_def)
  ultimately have "runtime_active (w_rt w) i \<noteq> 0" by auto
  then have pos: "runtime_active (w_rt w) i > 0" by (simp add: word_gt_0)
  let ?w = "w\<lparr>w_peers := (w_peers w)(fd := None, p_paired p := None), w_rt := t,
              w_kern := sys_close (p_paired p) (sys_close fd (w_kern w))\<rparr>"
  have closed: "on_rt (record_connection_close i) (close_one (p_paired p) (close_one fd w)) = Ok ?w"
    unfolding close_ones [OF p q] using t(1) by (simp add: on_rt_def)
  have "i < pool_size (w_rt ?w)" "wf_runtime (w_rt ?w)" using t(2,3) i by simp_all
  from eject_effect [OF this(2,1)] t(4-6) config_kept(1) [OF t(1)] p closed pos show ?thesis
    by (cases failure) (auto simp: close_pair_def i_def n_def)
qed

text \<open>The whole effect of closing a pair on the runtime, in every field.\<close>

definition closing :: "bool \<Rightarrow> nat \<Rightarrow> runtime \<Rightarrow> runtime" where
  "closing failure i r =
     (let s = r_sched r; m = r_metrics r; failures = s_failures s ! i + 1;
          s1 = s\<lparr>s_active := (s_active s)[i := s_active s ! i - 1]\<rparr>;
          m1 = m\<lparr>m_active := saturating_dec (m_active m)\<rparr> in
      if failure then r\<lparr>
        r_sched := s1\<lparr>s_errors := (s_errors s)[i := s_errors s ! i + 1], s_failures := (s_failures s)[i := failures],
          s_states := (if failures \<ge> passive_failure_threshold (r_config r) then (s_states s)[i := Down] else s_states s)\<rparr>,
        r_metrics := m1\<lparr>m_errors := m_errors m + 1\<rparr>\<rparr>
      else r\<lparr>r_sched := s1, r_metrics := m1\<rparr>)"

lemma closing_result:
  assumes "wf_runtime (w_rt w)" and "i < pool_size (w_rt w)" and "s_active (r_sched (w_rt w)) ! i > 0"
  shows "chain (on_rt (record_connection_close i) w) (\<lambda>w.
      if failure then chain (on_rt (record_backend_failure i) w) (maybe_eject i) else Ok w) =
    Ok (w\<lparr>w_rt := closing failure i (w_rt w)\<rparr>)"
proof -
  let ?s = "r_sched (w_rt w)"
  have len: "i < length (s_active ?s)" "i < length (s_errors ?s)" "i < length (s_failures ?s)" "i < length (s_states ?s)"
    using assms(1,2) by (auto simp: wf_runtime_def wf_scheduler_def pool_size_def backend_count_def)
  note len' = len [folded not_le]
  have dec: "saturating_dec (s_active ?s ! i) = s_active ?s ! i - 1" using assms(3) by (simp add: saturating_dec_def)
  show ?thesis
    by (simp add: on_rt_def maybe_eject_def runtime_op_defs map_out_def closing_def Let_def len len' dec
        scheduler_op_defs consecutive_failures_def checked_get_def)
qed

text \<open>
  C18. What closing a pair does, and that it does nothing else. Both ends leave the map and their
  descriptors are closed. The active count of the backend, which is positive, goes down by one, and
  so does the global one. With a backend failure, and only then, the errors of the process and of the
  backend and its consecutive failures go up by one, and the backend is marked as down exactly when
  the failures have reached the threshold. Every other field of the worker and of the runtime, with
  all other metrics, is as before (\<open>closing\<close>).
\<close>

theorem close_pair_exact:
  assumes inv: "worker_inv base w" and p: "w_peers w fd = Some p"
  shows "s_active (r_sched (w_rt w)) ! p_backend p > 0 \<and>
    close_pair fd failure w = Ok (w\<lparr>
      w_peers := (w_peers w)(fd := None, p_paired p := None),
      w_kern := sys_close (p_paired p) (sys_close fd (w_kern w)),
      w_rt := closing failure (p_backend p) (w_rt w)\<rparr>)"
proof -
  note D = worker_invD [OF inv]
  from paired_peer [OF D(3) p] obtain q where q: "w_peers w (p_paired p) = Some q" "p_paired p \<noteq> fd"
    and i: "p_backend p < pool_size (w_rt w)" by auto
  have len: "p_backend p < length (s_active (r_sched (w_rt w)))"
    using D(1) i by (simp add: wf_runtime_def wf_scheduler_def pool_size_def backend_count_def)
  have "runtime_active (w_rt w) (p_backend p) > 0" using close_pair_views [OF inv p, of failure] by auto
  with len have pos: "s_active (r_sched (w_rt w)) ! p_backend p > 0"
    by (simp add: runtime_views scheduler_views slot_def)
  let ?w = "close_one (p_paired p) (close_one fd w)"
  have rt: "w_rt ?w = w_rt w" unfolding close_ones [OF p q] by simp
  have "close_pair fd failure w = Ok (?w\<lparr>w_rt := closing failure (p_backend p) (w_rt w)\<rparr>)"
    using closing_result [of ?w "p_backend p" failure] D(1) i pos
    by (simp add: close_pair_def p rt)
  with pos show ?thesis unfolding close_ones [OF p q] by simp
qed

theorem close_pair_exact_witness:
  "\<exists>w'. close_pair 7 True busy_worker = Ok w' \<and> w_peers w' = Map.empty \<and>
    m_errors (r_metrics (w_rt w')) = m_errors (r_metrics (w_rt busy_worker)) + 1"
proof -
  have "w_peers busy_worker 7 = Some (connected 0 (new_peer 7 6 0 True True 0 3000000000))"
    by (simp add: busy_peers)
  from close_pair_exact [OF busy_inv this, of True] show ?thesis
    by (auto simp: busy_peers connected_def new_peer_def fun_upd_twist closing_def Let_def)
qed

section \<open>Timeouts\<close>

text \<open>The pair that a client-side descriptor belongs to.\<close>

definition pair_fds :: "(fd \<rightharpoonup> peer) \<Rightarrow> fd \<Rightarrow> fd set" where
  "pair_fds P fd = (case P fd of None \<Rightarrow> {} | Some p \<Rightarrow> {fd, p_paired p})"

definition client_side :: "(fd \<rightharpoonup> peer) \<Rightarrow> fd \<Rightarrow> bool" where
  "client_side P fd \<longleftrightarrow> (\<exists>p. P fd = Some p \<and> \<not> p_backend_side p)"

definition without :: "fd set \<Rightarrow> (fd \<rightharpoonup> peer) \<Rightarrow> (fd \<rightharpoonup> peer)" where
  "without S P = (\<lambda>fd. if fd \<in> S then None else P fd)"

lemma without_pair:
  "P fd = Some p \<Longrightarrow> P(fd := None, p_paired p := None) = without (pair_fds P fd) P"
  by (auto simp: without_def pair_fds_def)

lemma without_twice [simp]: "without S (without T P) = without (S \<union> T) P"
  by (auto simp: without_def)

lemma pairs_disjoint:
  assumes pairs: "paired_shape n (shape P)" and "client_side P f" "client_side P g" "f \<noteq> g"
  shows "g \<notin> pair_fds P f" "pair_fds (without (pair_fds P f) P) g = pair_fds P g"
proof -
  from assms obtain p q where p: "P f = Some p" "\<not> p_backend_side p" and q: "P g = Some q" "\<not> p_backend_side q"
    by (auto simp: client_side_def)
  from paired_peer [OF pairs p(1)] p q assms(4) show g: "g \<notin> pair_fds P f" by (auto simp: pair_fds_def)
  then show "pair_fds (without (pair_fds P f) P) g = pair_fds P g"
    by (simp add: pair_fds_def without_def q(1))
qed

text \<open>
  Closing a list of expired clients: exactly their pairs leave the map, and each is counted under
  its own timeout.
\<close>

lemma timeout_counters:
  "record_connection_close i r = Ok t \<Longrightarrow> m_connect_timeouts (r_metrics t) = m_connect_timeouts (r_metrics r) \<and>
     m_idle_timeouts (r_metrics t) = m_idle_timeouts (r_metrics r)"
  "record_backend_failure i r = Ok t \<Longrightarrow> m_connect_timeouts (r_metrics t) = m_connect_timeouts (r_metrics r) \<and>
     m_idle_timeouts (r_metrics t) = m_idle_timeouts (r_metrics r)"
  "set_backend_state i x r = Ok t \<Longrightarrow> m_connect_timeouts (r_metrics t) = m_connect_timeouts (r_metrics r) \<and>
     m_idle_timeouts (r_metrics t) = m_idle_timeouts (r_metrics r)"
  by (auto simp: runtime_op_defs map_out_def Let_def split: out.splits if_splits)

lemma close_pair_timeouts:
  assumes "close_pair fd b w = Ok w'"
  shows "m_connect_timeouts (r_metrics (w_rt w')) = m_connect_timeouts (r_metrics (w_rt w)) \<and>
    m_idle_timeouts (r_metrics (w_rt w')) = m_idle_timeouts (r_metrics (w_rt w))"
proof -
  have rt: "w_rt (close_one g v) = w_rt v" for g v by (simp add: close_one_def split: option.splits)
  from assms show ?thesis
    by (auto simp: close_pair_def chain_Ok on_rt_def map_out_def maybe_eject_def rt
        dest!: timeout_counters split: option.splits if_splits out.splits sum.splits)
qed

lemma close_expired_effect:
  assumes "worker_inv base w" and "distinct (map fst xs)"
    and "\<forall>f \<in> set (map fst xs). client_side (w_peers w) f"
  shows "\<exists>w'. close_expired xs w = Ok w' \<and>
    w_peers w' = without (\<Union>f \<in> set (map fst xs). pair_fds (w_peers w) f) (w_peers w) \<and>
    m_connect_timeouts (r_metrics (w_rt w')) =
      m_connect_timeouts (r_metrics (w_rt w)) + of_nat (length (filter snd xs)) \<and>
    m_idle_timeouts (r_metrics (w_rt w')) =
      m_idle_timeouts (r_metrics (w_rt w)) + of_nat (length (filter (\<lambda>x. \<not> snd x) xs))"
  using assms
proof (induction xs arbitrary: w)
  case Nil
  then show ?case by (simp add: without_def)
next
  case (Cons x xs)
  obtain f b where x: "x = (f, b)" by fastforce
  let ?w = "w\<lparr>w_rt := (if b then count_connect_timeout else count_idle_timeout) (w_rt w)\<rparr>"
  have inv: "worker_inv base ?w" using inv_counters [OF Cons.prems(1)] by (cases b) simp_all
  from Cons.prems(3) x obtain p where p: "w_peers w f = Some p" "\<not> p_backend_side p"
    by (auto simp: client_side_def)
  then have p': "w_peers ?w f = Some p" by simp
  from close_pair_effect [OF inv p', of b] obtain w1 where w1: "close_pair f b ?w = Ok w1"
    "worker_inv base w1" "w_peers w1 = (w_peers w)(f := None, p_paired p := None)" by auto
  note peers1 = w1(3) [unfolded without_pair [of "w_peers w" f p, OF p(1)]]
  note pairs = worker_invD(3) [OF Cons.prems(1)]
  have rest: "client_side (w_peers w1) g" "pair_fds (w_peers w1) g = pair_fds (w_peers w) g"
    if "g \<in> set (map fst xs)" for g
  proof -
    have g: "client_side (w_peers w) f" "client_side (w_peers w) g" "f \<noteq> g"
      using Cons.prems(2,3) x that by auto
    note d = pairs_disjoint [OF pairs g]
    show "client_side (w_peers w1) g" using g(2) d(1) by (auto simp: peers1 client_side_def without_def)
    show "pair_fds (w_peers w1) g = pair_fds (w_peers w) g" using d(2) by (simp add: peers1)
  qed
  from Cons.IH [OF w1(2)] Cons.prems(2) rest(1) obtain w2 where w2: "close_expired xs w1 = Ok w2"
    "w_peers w2 = without (\<Union>g \<in> set (map fst xs). pair_fds (w_peers w1) g) (w_peers w1)"
    "m_connect_timeouts (r_metrics (w_rt w2)) =
      m_connect_timeouts (r_metrics (w_rt w1)) + of_nat (length (filter snd xs))"
    "m_idle_timeouts (r_metrics (w_rt w2)) =
      m_idle_timeouts (r_metrics (w_rt w1)) + of_nat (length (filter (\<lambda>x. \<not> snd x) xs))"
    by auto
  have "(\<Union>g \<in> set (map fst xs). pair_fds (w_peers w1) g) = (\<Union>g \<in> set (map fst xs). pair_fds (w_peers w) g)"
    using rest(2) by simp
  with w2(2) peers1 have "w_peers w2 = without (\<Union>g \<in> set (map fst (x # xs)). pair_fds (w_peers w) g) (w_peers w)"
    by (simp add: x Un_commute)
  with w1(1) w2 close_pair_timeouts [OF w1(1)] show ?case
    by (cases b) (auto simp: x count_connect_timeout_def count_idle_timeout_def)
qed

lemma expiry_pair:
  assumes "P c = Some p" "\<not> p_backend_side p" "P (p_paired p) = Some q"
  shows "expiry P now idle c =
    (if (if p_connecting q then p_deadline q \<le> now else p_last p + idle \<le> now)
     then Some (p_connecting q) else None)"
  using assms by (simp add: expiry_def)

lemma expiry_client: "expiry P now idle c \<noteq> None \<Longrightarrow> client_side P c"
  by (auto simp: expiry_def client_side_def split: option.splits if_splits)

lemma expired_fds:
  assumes "distinct order" "set order = dom P"
  shows "distinct (map fst (expired_list P now idle order))"
    and "set (map fst (expired_list P now idle order)) = {c. expiry P now idle c \<noteq> None}"
proof -
  have eq: "map fst (expired_list P now idle ord) = filter (\<lambda>c. expiry P now idle c \<noteq> None) ord" for ord
    by (induction ord) (auto simp: expired_list_def map_filter_simps split: option.splits)
  have "{c. expiry P now idle c \<noteq> None} \<subseteq> dom P"
    by (auto simp: expiry_def split: option.splits)
  then show "set (map fst (expired_list P now idle order)) = {c. expiry P now idle c \<noteq> None}"
    unfolding eq set_filter assms(2) by blast
  show "distinct (map fst (expired_list P now idle order))"
    unfolding eq using assms(1) by (rule distinct_filter)
qed

text \<open>A descriptor of the pair of client \<open>c\<close> is in no other client's pair.\<close>

lemma pair_fds_unique:
  assumes pairs: "paired_shape n (shape P)" and c: "P c = Some p" "\<not> p_backend_side p"
    and g: "client_side P g" and mem: "x \<in> pair_fds P g" "x \<in> {c, p_paired p}"
  shows "g = c"
proof -
  from g obtain r where r: "P g = Some r" "\<not> p_backend_side r" by (auto simp: client_side_def)
  from paired_peer [OF pairs c(1)] obtain q where q: "P (p_paired p) = Some q" "p_paired q = c"
    "p_backend_side q" using c(2) by auto
  from paired_peer [OF pairs r(1)] obtain s where s: "P (p_paired r) = Some s" "p_paired s = g"
    "p_backend_side s" using r(2) by auto
  from mem r(1) have "x = g \<or> x = p_paired r" "x = c \<or> x = p_paired p" by (auto simp: pair_fds_def)
  then show ?thesis using r(1,2) s q c by auto
qed

text \<open>
  C26. The timer closes what has timed out and nothing else. For every pair, with client side
  \<open>p\<close> and backend side \<open>q\<close>: while the backend is connecting the pair is closed from
  its deadline on, and afterwards when the client side has been idle for the idle timeout; every
  other pair is left as it is. No exception leaves the reaper.
\<close>

theorem reap_exact:
  assumes inv: "worker_inv base w"
  defines "now \<equiv> clock_now (w_kern w)"
    and "idle \<equiv> milliseconds (idle_timeout_ms (r_config (w_rt w)))"
  shows "\<exists>w'. reap_timeouts w = Ok w' \<and>
    (\<forall>c p q. w_peers w c = Some p \<and> \<not> p_backend_side p \<and> w_peers w (p_paired p) = Some q \<longrightarrow>
       (let expired = (if p_connecting q then p_deadline q \<le> now else p_last p + idle \<le> now) in
        w_peers w' c = (if expired then None else Some p) \<and>
        w_peers w' (p_paired p) = (if expired then None else Some q)))"
proof -
  note D = worker_invD [OF inv]
  let ?P = "w_peers w" and ?order = "k_order (w_kern w) (dom (w_peers w))"
  have order: "distinct ?order" "set ?order = dom ?P" using D(2,4) by (simp_all add: kern_ok_def)
  note E = expired_fds [OF order, where now = now and idle = idle]
  have "\<forall>f \<in> set (map fst (expired_list ?P now idle ?order)). client_side (w_peers (on_kern tick w)) f"
    unfolding E(2) by (simp add: expiry_client)
  from close_expired_effect [OF inv_tick [OF inv] E(1) this] obtain w' where
    w': "close_expired (expired_list ?P now idle ?order) (on_kern tick w) = Ok w'"
    "w_peers w' = without (\<Union>f \<in> {c. expiry ?P now idle c \<noteq> None}. pair_fds ?P f) ?P"
    unfolding E(2) by auto
  have "w_peers w' c = (if expiry ?P now idle c = None then Some p else None)"
    "w_peers w' (p_paired p) = (if expiry ?P now idle c = None then Some q else None)"
    if c: "?P c = Some p" "\<not> p_backend_side p" "?P (p_paired p) = Some q" for c p q
  proof -
    have "x \<in> (\<Union>f \<in> {c. expiry ?P now idle c \<noteq> None}. pair_fds ?P f) \<longleftrightarrow> expiry ?P now idle c \<noteq> None"
      if x: "x \<in> {c, p_paired p}" for x
    proof
      assume "x \<in> (\<Union>f \<in> {c. expiry ?P now idle c \<noteq> None}. pair_fds ?P f)"
      then obtain f where f: "expiry ?P now idle f \<noteq> None" "x \<in> pair_fds ?P f" by blast
      from pair_fds_unique [OF D(3) c(1,2) expiry_client [OF f(1)] f(2) x] f(1)
      show "expiry ?P now idle c \<noteq> None" by simp
    next
      assume "expiry ?P now idle c \<noteq> None"
      moreover have "x \<in> pair_fds ?P c" using x c(1) by (simp add: pair_fds_def)
      ultimately show "x \<in> (\<Union>f \<in> {c. expiry ?P now idle c \<noteq> None}. pair_fds ?P f)" by blast
    qed
    with c show "w_peers w' c = (if expiry ?P now idle c = None then Some p else None)"
      "w_peers w' (p_paired p) = (if expiry ?P now idle c = None then Some q else None)"
      by (simp_all add: w'(2) without_def)
  qed
  with w'(1) show ?thesis
    unfolding reap_timeouts_def Let_def now_def [symmetric] idle_def [symmetric]
    by (auto simp: expiry_pair)
qed

theorem reap_exact_witness:
  "\<exists>w'. reap_timeouts (connecting_worker\<lparr>w_kern := (w_kern connecting_worker)\<lparr>k_clock := \<lambda>_. 3000000000\<rparr>\<rparr>) = Ok w' \<and>
     w_peers w' 6 = None \<and> w_peers w' 7 = None"
proof -
  let ?w = "connecting_worker\<lparr>w_kern := (w_kern connecting_worker)\<lparr>k_clock := \<lambda>_. 3000000000\<rparr>\<rparr>"
  have "worker_inv (\<lambda>_. 0) ?w"
    by (rule inv_kern [OF connecting_inv])
      (use worker_invD(2) [OF connecting_inv] in \<open>simp_all add: kern_ok_def\<close>)
  from reap_exact [OF this] obtain w' where "reap_timeouts ?w = Ok w'"
    and each: "\<And>c p q. w_peers ?w c = Some p \<and> \<not> p_backend_side p \<and> w_peers ?w (p_paired p) = Some q \<Longrightarrow>
      (let expired = (if p_connecting q then p_deadline q \<le> clock_now (w_kern ?w)
          else p_last p + milliseconds (idle_timeout_ms (r_config (w_rt ?w))) \<le> clock_now (w_kern ?w)) in
        w_peers w' c = (if expired then None else Some p) \<and>
        w_peers w' (p_paired p) = (if expired then None else Some q))" by blast
  with each [of 6 "new_peer 6 7 0 False False 0 3000000000" "new_peer 7 6 0 True True 0 3000000000"]
  show ?thesis by (simp add: connecting_peers new_peer_def clock_now_def)
qed

section \<open>The life of a worker\<close>

lemma close_pair_peers:
  assumes "worker_inv base w"
  shows "\<exists>w'. close_pair fd b w = Ok w' \<and> worker_inv base w' \<and> frame w' = frame w \<and>
    loose w' = loose w \<and> dom (w_peers w') \<subseteq> dom (w_peers w) - {fd}"
proof -
  from keeps_close_pair [OF assms] obtain w' where w': "close_pair fd b w = Ok w'"
    "worker_inv base w'" "frame w' = frame w" "loose w' = loose w" by (rule keepsE)
  have "dom (w_peers w') \<subseteq> dom (w_peers w) - {fd}"
  proof (cases "w_peers w fd")
    case None
    with w'(1) show ?thesis by (auto simp: close_pair_def)
  next
    case (Some p)
    with close_pair_effect [OF assms Some, of b] w'(1) show ?thesis by (auto split: if_splits)
  qed
  with w' show ?thesis by blast
qed

lemma close_all_peers:
  "worker_inv base w \<Longrightarrow> \<exists>w'. close_all fds w = Ok w' \<and> worker_inv base w' \<and> frame w' = frame w \<and>
    loose w' = loose w \<and> dom (w_peers w') \<subseteq> dom (w_peers w) - set fds"
proof (induction fds arbitrary: w)
  case Nil
  then show ?case by auto
next
  case (Cons fd fds)
  from close_pair_peers [OF Cons.prems, of fd False] obtain w1 where w1: "close_pair fd False w = Ok w1"
    "worker_inv base w1" "frame w1 = frame w" "loose w1 = loose w"
    "dom (w_peers w1) \<subseteq> dom (w_peers w) - {fd}" by blast
  from Cons.IH [OF w1(2)] obtain w2 where "close_all fds w1 = Ok w2" "worker_inv base w2"
    "frame w2 = frame w1" "loose w2 = loose w1" and d: "dom (w_peers w2) \<subseteq> dom (w_peers w1) - set fds" by blast
  moreover have "dom (w_peers w2) \<subseteq> dom (w_peers w) - set (fd # fds)"
    using d w1(5) unfolding set_simps by blast
  ultimately show ?case using w1 by simp
qed

text \<open>Shutting down closes every pair and the worker's own descriptors.\<close>

lemma shutdown_effect:
  assumes inv: "worker_inv base w"
  shows "\<exists>w'. shutdown w = Ok w' \<and> w_peers w' = Map.empty \<and>
    k_open (w_kern w') = loose w - fixed_fds w \<and> pool_size (w_rt w') = pool_size (w_rt w) \<and>
    rt.counts (w_rt w') base"
proof -
  note D = worker_invD [OF inv]
  have "set (k_order (w_kern w) (dom (w_peers w))) = dom (w_peers w)"
    using D(2,4) by (simp add: kern_ok_def)
  with close_all_peers [OF inv, of "k_order (w_kern w) (dom (w_peers w))"] obtain w1 where
    w1: "close_all (k_order (w_kern w) (dom (w_peers w))) w = Ok w1" "worker_inv base w1"
      "frame w1 = frame w" "loose w1 = loose w" "dom (w_peers w1) = {}" by auto
  have none: "w_peers w1 = Map.empty" using w1(5) by auto
  have "load (shape (Map.empty :: fd \<rightharpoonup> peer)) i = 0" for i
    by (simp add: load_def client_fds_def shape_def)
  with worker_invD(10) [OF w1(2)] have "rt.counts (w_rt w1) base" by (simp add: none)
  moreover have fixed: "w_listener w1 = w_listener w" "w_timer w1 = w_timer w" "w_epoll w1 = w_epoll w"
    "pool_size (w_rt w1) = pool_size (w_rt w)"
    using w1(3) by (simp_all add: frame_def)
  moreover have "\<forall>fd \<in> fixed_fds w. 0 \<le> fd" using D(2,7) by (auto simp: kern_ok_def)
  then have "w_listener w \<noteq> -1" "w_timer w \<noteq> -1" "w_epoll w \<noteq> -1" by (auto simp: fixed_fds_def)
  then have "k_open (close_fd (w_epoll w) (close_fd (w_timer w) (close_fd (w_listener w) (w_kern w1)))) =
      k_open (w_kern w1) - fixed_fds w"
    by (auto simp: close_fd_def sys_close_def fixed_fds_def)
  moreover have "k_open (w_kern w1) = loose w" using w1(4) none by (simp add: loose_def)
  ultimately show ?thesis
    using none unfolding shutdown_def w1(1) by (auto simp: on_kern_def)
qed

text \<open>Opening the worker's own descriptors.\<close>

lemma make_listener_open:
  assumes "kern_ok k" and "make_listener e rp k = (Inr l, k')"
  shows "kern_ok k'" "l \<notin> k_open k" "k_open k' = insert l (k_open k)"
proof -
  from assms(2) obtain as where as: "resolve_endpoint e True k = Inr as"
    "listen_loop rp as (tick k) = (Inr (Some l), k')"
    by (auto simp: make_listener_def split: sum.splits prod.splits option.splits)
  from listen_loop_open [OF _ as(2)] assms(1)
  show "kern_ok k'" "l \<notin> k_open k" "k_open k' = insert l (k_open k)"
    by (auto simp: opened_at_most_one_def)
qed

lemma open_fd_effect:
  assumes "kern_ok (w_kern w)" and "open_fd ok m f w = Ok w'"
  shows "\<exists>fd k. w' = f fd (w\<lparr>w_kern := k\<rparr>) \<and> kern_ok k \<and> fd \<notin> k_open (w_kern w) \<and>
    k_open k = insert fd (k_open (w_kern w))"
proof -
  obtain fd k where o: "sys_open (w_kern w) = (fd, k)" by fastforce
  from assms(2) o have full: "\<not> table_full (w_kern w)" and w': "w' = f fd (w\<lparr>w_kern := k\<rparr>)"
    by (auto simp: open_fd_def split: if_splits)
  from kern_ok_open [OF assms(1) full] open_fields [of "w_kern w"] o w' show ?thesis by auto
qed

lemma add_fd_Ok:
  "add_fd fd ev w = Ok w' \<Longrightarrow> w' = on_kern (ctl_add fd ev) w"
  by (auto simp: add_fd_def split: if_splits)

text \<open>Once the worker has its listener, its timer and its epoll descriptor, it has the invariant.\<close>

lemma worker_started:
  assumes k: "kern_ok k" and r: "wf_runtime r" "rt.counts r base"
    and l: "make_listener (listen (r_config r)) True k = (Inr l, k1)"
    and e: "open_fd b1 m1 (\<lambda>fd w. w\<lparr>w_epoll := fd\<rparr>) ((new_worker r k)\<lparr>w_kern := k1, w_listener := l\<rparr>) = Ok w1"
    and t: "open_fd b2 m2 (\<lambda>fd w. w\<lparr>w_timer := fd\<rparr>) w1 = Ok w2"
  shows "worker_inv base w2" "loose w2 - fixed_fds w2 = k_open k" "pool_size (w_rt w2) = pool_size r"
proof -
  note L = make_listener_open [OF k l]
  from open_fd_effect [OF _ e] L(1) obtain ep k2 where
    w1: "w1 = ((new_worker r k)\<lparr>w_kern := k1, w_listener := l\<rparr>)\<lparr>w_kern := k2\<rparr>\<lparr>w_epoll := ep\<rparr>"
    and E: "kern_ok k2" "ep \<notin> k_open k1" "k_open k2 = insert ep (k_open k1)" by auto
  from open_fd_effect [OF _ t] E(1) w1 obtain ti k3 where
    w2: "w2 = w1\<lparr>w_kern := k3\<rparr>\<lparr>w_timer := ti\<rparr>"
    and T: "kern_ok k3" "ti \<notin> k_open k2" "k_open k3 = insert ti (k_open k2)" by auto
  have fixed: "fixed_fds w2 = {l, ti, ep}" "w_peers w2 = Map.empty" "w_kern w2 = k3" "w_rt w2 = r"
    by (simp_all add: w2 w1 new_worker_def fixed_fds_def)
  have "load (shape (Map.empty :: fd \<rightharpoonup> peer)) i = 0" for i
    by (simp add: load_def client_fds_def shape_def)
  then show "worker_inv base w2"
    using fixed T E L r by (auto simp: worker_inv_def streams_def paired_shape_def shape_def)
  show "loose w2 - fixed_fds w2 = k_open k" using fixed T E L by (auto simp: loose_def)
  show "pool_size (w_rt w2) = pool_size r" by (simp add: fixed)
qed

text \<open>
  C6. A worker that returns leaves nothing behind. Whatever it accepted, moved, timed out and
  closed in whatever rounds, when \<open>run\<close> returns without an exception it has no peers, the
  open descriptors are the ones from before it started, and the active counters are back at what
  the others hold: no connection and no descriptor leaks over a whole life of a worker.
\<close>

theorem run_leaves_nothing:
  assumes k: "kern_ok k" and r: "wf_runtime r" "rt.counts r base" and base: "\<forall>i. base i < 2 ^ 63"
    and run: "worker_run epoll_ok timer_ok settime_ok rounds (new_worker r k) = Ok w"
  shows "w_peers w = Map.empty \<and> k_open (w_kern w) = k_open k \<and>
    (\<forall>i < pool_size r. unat (runtime_active (w_rt w) i) = base i)"
proof -
  from run obtain l k1 w1 w2 w3 w4 w5 where
    l: "make_listener (listen (r_config r)) True k = (Inr l, k1)" and
    e: "open_fd epoll_ok ''epoll_create1 failed'' (\<lambda>fd w. w\<lparr>w_epoll := fd\<rparr>)
          ((new_worker r k)\<lparr>w_kern := k1, w_listener := l\<rparr>) = Ok w1" and
    t: "open_fd timer_ok ''timerfd_create failed'' (\<lambda>fd w. w\<lparr>w_timer := fd\<rparr>) w1 = Ok w2" and
    a: "add_fd (w_listener w2) EPOLLIN w2 = Ok w3" "add_fd (w_timer w3) EPOLLIN w3 = Ok w4" and
    ev: "event_loop rounds w4 = Ok w5" and sh: "shutdown w5 = Ok w"
    by (auto simp: worker_run_def chain_Ok new_worker_def split: sum.splits prod.splits if_splits)
  note S = worker_started [OF k r l e t]
  have "worker_inv base w4" "loose w4 = loose w2" "frame w4 = frame w2"
    using safe_add_fd [OF S(1), of "w_listener w2" EPOLLIN] a safe_add_fd [of base w3 "w_timer w3" EPOLLIN]
    by (auto simp: safe_def)
  moreover from safe_loop [OF this(1) base, of rounds] ev have "worker_inv base w5"
    "loose w5 = loose w4" "frame w5 = frame w4" by (auto simp: safe_def)
  moreover have "fixed_fds w5 = fixed_fds w2" "pool_size (w_rt w5) = pool_size r"
    using calculation(3,6) S(3) by (auto simp: frame_def fixed_fds_def)
  ultimately show ?thesis
    using shutdown_effect [of base w5] sh S(2) by (auto simp: rt.counts_def)
qed

lemma fresh_counts: "rt.counts (fresh_runtime now config) (\<lambda>i. 0)"
  by (auto simp: rt.counts_def runtime_views fresh_runtime_def new_runtime_def new_scheduler_def
      active_of_def slot_def)

text \<open>A whole run with one client that stays connected until the shutdown.\<close>

definition client_kern :: kern where
  "client_kern = sample_kern\<lparr>k_open := {}, k_accepts := [AClient]\<rparr>"

lemma client_kern_ok: "kern_ok client_kern"
  using sample_kern_ok by (simp add: client_kern_def kern_ok_def)

text \<open>Evaluation of the sample run.\<close>

lemmas kern_eval = sample_kern_def sys_open_def tick_def table_full_def sys_close_def ctl_add_def
  ctl_mod_def clock_now_def
lemmas net_eval = make_listener_def resolve_endpoint_def set_reuse_options_def set_nonblocking_def
  connect_backend_def
lemmas runtime_eval = fresh_runtime_def new_runtime_def new_scheduler_def sample_config_def
  default_config_def record_connection_open_def with_sched_def mark_open_def

lemma sample_select:
  "select (\<lambda>_. 0) (r_sched (fresh_runtime 0 sample_config)) =
    (Some \<lparr>sel_index = 0, sel_endpoint = \<lparr>host = ''127.0.0.1'', port = 9101\<rparr>\<rparr>,
     r_sched (fresh_runtime 0 sample_config))"
  by (simp add: runtime_eval select_def drawn_def routable_def state_at_def checked_get_def
      numeral_2_eq_2 selected_at_def)

lemma sample_open: "record_connection_open 0 (fresh_runtime 0 sample_config) = Ok pair_runtime"
  by (simp add: pair_runtime_def runtime_eval)

lemma sample_close: "\<exists>r. record_connection_close 0 pair_runtime = Ok r"
  by (simp add: pair_runtime_def runtime_eval record_connection_close_def mark_closed_def)

lemma sample_order: "sorted_list_of_set {4, 3 :: int} = [3, 4]"
  using sorted_list_of_set_sort_remdups [of "[4, 3 :: int]"] by simp

lemma sample_run:
  "\<exists>w. worker_run True True True [Ready [(0, 1)]]
     (new_worker (fresh_runtime 0 sample_config) client_kern) = Ok w"
proof -
  obtain r where "record_connection_close 0 pair_runtime = Ok r" using sample_close by blast
  then show ?thesis
    by (simp add: worker_run_def client_kern_def net_eval kern_eval new_worker_def open_fd_def
        add_fd_def on_kern_def shutdown_def handle_event_def accept_clients.simps sys_accept_def)
      (simp add: attach_backend_def sample_select [simplified] kern_eval net_eval on_rt_def on_kern_def
        sample_open Let_def emplace_def put_peer_def add_fd_def new_peer_def accept_clients.simps
        sys_accept_def close_pair_def close_one_def sample_order shutdown_def)
qed

theorem run_leaves_nothing_witness:
  "case worker_run True True True [Ready [(0, 1)]] (new_worker (fresh_runtime 0 sample_config) client_kern) of
     Ok w \<Rightarrow> w_peers w = Map.empty \<and> k_open (w_kern w) = {} | Throw _ _ \<Rightarrow> False"
proof -
  have wf: "wf_runtime (fresh_runtime 0 sample_config)"
    unfolding fresh_runtime_def by (rule wf_new_runtime) (simp add: sample_config_def)
  obtain w where w: "worker_run True True True [Ready [(0, 1)]]
      (new_worker (fresh_runtime 0 sample_config) client_kern) = Ok w"
    using sample_run by blast
  from run_leaves_nothing [OF client_kern_ok wf fresh_counts _ w] w show ?thesis
    by (simp add: client_kern_def)
qed

section \<open>Hangups, and the interest after a flush\<close>

lemma event_of_peer:
  assumes "worker_inv base w" "w_peers w fd = Some p"
  shows "fd \<noteq> w_listener w" "fd \<noteq> w_timer w"
  using worker_invD(6) [OF assms(1)] assms(2) by (auto simp: fixed_fds_def)

text \<open>
  A hangup discards what is still in flight. An event with \<open>EPOLLERR\<close>,
  \<open>EPOLLHUP\<close> or \<open>EPOLLRDHUP\<close> closes the pair before anything is read or written, also
  when the same event says \<open>EPOLLIN\<close>: the bytes that wait in the socket are not read, the
  output buffers of both sides are dropped, and when the end of stream came from a backend it is
  counted as a failure of that backend, although a backend that answers and closes is healthy.
\<close>

theorem hangup_discards:
  assumes inv: "worker_inv base w" and p: "w_peers w fd = Some p"
    and hup: "has_flag flags (EPOLLERR OR EPOLLHUP OR EPOLLRDHUP)"
  shows "\<exists>w'. handle_event (fd, flags) w = Ok w' \<and>
    w_peers w' = (w_peers w)(fd := None, p_paired p := None) \<and>
    k_reads (w_kern w') = k_reads (w_kern w) \<and> k_sent (w_kern w') = k_sent (w_kern w) \<and>
    runtime_fails (w_rt w') = (if p_backend_side p
      then (runtime_fails (w_rt w))(p_backend p := runtime_fails (w_rt w) (p_backend p) + 1)
      else runtime_fails (w_rt w))"
proof -
  from close_pair_views [OF inv p, of "p_backend_side p"] obtain w' where
    w': "close_pair fd (p_backend_side p) w = Ok w'"
      "w_peers w' = (w_peers w)(fd := None, p_paired p := None)"
      "w_kern w' = sys_close (p_paired p) (sys_close fd (w_kern w))"
      "runtime_fails (w_rt w') = (if p_backend_side p
        then (runtime_fails (w_rt w))(p_backend p := runtime_fails (w_rt w) (p_backend p) + 1)
        else runtime_fails (w_rt w))" by blast
  have "handle_event (fd, flags) w = Ok w'"
    using w'(1) p hup event_of_peer [OF inv p] by (simp add: handle_event_def)
  with w'(2-4) show ?thesis by (simp add: sys_close_def)
qed

theorem hangup_discards_witness:
  "\<exists>w'. handle_event (7, EPOLLRDHUP OR EPOLLIN)
      (busy_worker\<lparr>w_kern := (w_kern busy_worker)\<lparr>k_reads := \<lambda>_. [RData ''reply'']\<rparr>\<rparr>) = Ok w' \<and>
    w_peers w' 7 = None \<and> k_reads (w_kern w') 7 = [RData ''reply''] \<and>
    runtime_fails (w_rt w') 0 = runtime_fails (w_rt busy_worker) 0 + 1"
proof -
  let ?w = "busy_worker\<lparr>w_kern := (w_kern busy_worker)\<lparr>k_reads := \<lambda>_. [RData ''reply'']\<rparr>\<rparr>"
  have inv: "worker_inv (\<lambda>_. 0) ?w"
    by (rule inv_kern [OF busy_inv]) (use worker_invD(2) [OF busy_inv] in \<open>simp_all add: kern_ok_def\<close>)
  have peer: "w_peers ?w 7 = Some (connected 0 (new_peer 7 6 0 True True 0 3000000000))"
    by (simp add: busy_peers)
  have hup: "has_flag (EPOLLRDHUP OR EPOLLIN) (EPOLLERR OR EPOLLHUP OR EPOLLRDHUP)"
    by (simp add: has_flag_def epoll_defs)
  from hangup_discards [OF inv peer hup] show ?thesis by (auto simp: connected_def new_peer_def)
qed

text \<open>
  The write interest outlives its reason. When an \<open>EPOLLOUT\<close> event lets the whole
  output buffer of a connected peer be written, the handler re-registers the partner and not the
  peer itself: with an empty buffer, and although its interest no longer asks for it, the peer
  keeps the registration it had. Registered for \<open>EPOLLOUT\<close>, level-triggered and on an idle
  connection, it wakes the worker up again at once, each time.
\<close>

theorem write_interest_stays:
  assumes inv: "worker_inv base w" and p: "w_peers w fd = Some p" "\<not> p_connecting p"
    and pending: "p_sent p < length (p_outbound p)"
    and room: "k_writes (w_kern w) fd = WTake n # rest" "n \<ge> length (p_outbound p)"
  shows "\<exists>w' q. handle_event (fd, EPOLLOUT) w = Ok w' \<and> w_peers w' fd = Some q \<and> p_outbound q = [] \<and>
    \<not> has_flag (interest (w_peers w') q) EPOLLOUT \<and>
    k_armed (w_kern w') fd = k_armed (w_kern w) fd"
proof -
  from paired_peer [OF worker_invD(3) [OF inv] p(1)] obtain q where
    q: "w_peers w (p_paired p) = Some q" "p_paired p \<noteq> fd" by blast
  let ?d = "drop (p_sent p) (p_outbound p)"
  obtain k where wr: "sys_write fd ?d (w_kern w) = (WTake (length ?d), k)"
    and armed: "k_armed k = k_armed (w_kern w)"
    using room by (simp add: sys_write_def min_absorb2)
  let ?w = "put_peer fd (drained (p\<lparr>p_sent := length (p_outbound p), p_last := clock_now k\<rparr>))
    (w\<lparr>w_kern := tick k\<rparr>)"
  have fl: "flush fd w = Ok (modify_fd (p_paired p) ?w)"
    using p pending wr by (simp add: flush.simps [of fd w] Let_def)
  have no: "\<not> has_flag EPOLLOUT (EPOLLERR OR EPOLLHUP OR EPOLLRDHUP)" "\<not> has_flag EPOLLOUT EPOLLIN"
    "has_flag EPOLLOUT EPOLLOUT" by (simp_all add: has_flag_def epoll_defs)
  have "handle_event (fd, EPOLLOUT) w = Ok (modify_fd (p_paired p) ?w)"
    using p no fl event_of_peer [OF inv p(1)] by (simp add: handle_event_def)
  moreover have "w_peers (modify_fd (p_paired p) ?w) = w_peers ?w"
    by (simp add: modify_fd_def split: option.splits)
  moreover have "k_armed (w_kern (modify_fd (p_paired p) ?w)) fd = k_armed (w_kern w) fd"
    using q(2) armed
    by (auto simp: modify_fd_def on_kern_def ctl_mod_def ctl_add_def tick_def put_peer_def
        split: option.splits)
  moreover have "\<not> has_flag (interest P (drained x)) EPOLLOUT" if "\<not> p_connecting x" for P x
    using that by (auto simp: interest_def drained_def Let_def has_flag_def epoll_defs split: option.splits)
  ultimately show ?thesis using p(2) by (auto simp: put_peer_def drained_def)
qed

section \<open>Back-pressure\<close>

text \<open>Every buffer of the second state is a buffer of the first that has not grown.\<close>

definition shrinks :: "worker \<Rightarrow> worker \<Rightarrow> bool" where
  "shrinks w w' \<longleftrightarrow>
     (\<forall>n. k_ctl (w_kern w') n = k_ctl (w_kern w) n) \<and>
     (\<forall>g q'. w_peers w' g = Some q' \<longrightarrow>
       (\<exists>q. w_peers w g = Some q \<and> p_paired q' = p_paired q \<and>
         length (p_outbound q') \<le> length (p_outbound q)))"

lemma shrinks_refl: "shrinks w w"
  by (auto simp: shrinks_def)

lemma shrinks_trans:
  assumes a: "shrinks w1 w2" and b: "shrinks w2 w3"
  shows "shrinks w1 w3"
  unfolding shrinks_def
proof (intro conjI allI impI)
  show "k_ctl (w_kern w3) n = k_ctl (w_kern w1) n" for n using a b by (simp add: shrinks_def)
  fix g q3
  assume "w_peers w3 g = Some q3"
  with b obtain q2 where q2: "w_peers w2 g = Some q2" "p_paired q3 = p_paired q2"
    "length (p_outbound q3) \<le> length (p_outbound q2)" unfolding shrinks_def by blast
  with a obtain q1 where "w_peers w1 g = Some q1" "p_paired q2 = p_paired q1"
    "length (p_outbound q2) \<le> length (p_outbound q1)" unfolding shrinks_def by blast
  with q2 show "\<exists>q. w_peers w1 g = Some q \<and> p_paired q3 = p_paired q \<and>
      length (p_outbound q3) \<le> length (p_outbound q)" by auto
qed

lemma shrinks_simps [simp]:
  "shrinks w (modify_fd fd w') = shrinks w w'"
  "shrinks w (w'\<lparr>w_rt := r\<rparr>) = shrinks w w'"
  by (auto simp: shrinks_def modify_fd_def on_kern_def ctl_mod_def ctl_add_def tick_def split: option.splits)

lemma shrinks_rt: "shrinks w (state_of (on_rt f w)) \<and> shrinks w (state_of (maybe_eject i w))"
  by (auto simp: on_rt_def maybe_eject_def map_out_def state_of_def shrinks_refl
      split: sum.splits out.splits)

lemma shrinks_chain:
  assumes "shrinks w (state_of out)" and "\<And>w'. shrinks w' (state_of (f w'))"
  shows "shrinks w (state_of (chain out f))"
  using assms shrinks_trans by (cases out) auto

lemma shrinks_close_one: "shrinks w (close_one fd w)"
  by (auto simp: shrinks_def close_one_def on_kern_def sys_close_def split: option.splits if_splits)

lemma shrinks_close_pair: "shrinks w (state_of (close_pair fd b w))"
proof (cases "w_peers w fd")
  case (Some p)
  have "shrinks w (close_one (p_paired p) (close_one fd w))"
    by (rule shrinks_trans [OF shrinks_close_one shrinks_close_one])
  then have "shrinks w (state_of (on_rt (record_connection_close (p_backend p)) (close_one (p_paired p) (close_one fd w))))"
    using shrinks_rt shrinks_trans by blast
  with Some show ?thesis
    using shrinks_rt by (auto simp: close_pair_def shrinks_refl intro!: shrinks_chain)
qed (simp add: close_pair_def shrinks_refl)

lemma shrinks_put:
  assumes "w_peers w fd = Some p" "p_paired p' = p_paired p" "length (p_outbound p') \<le> length (p_outbound p)"
    and "w_peers w' = w_peers w" "\<forall>n. k_ctl (w_kern w') n = k_ctl (w_kern w) n"
  shows "shrinks w (put_peer fd p' w')"
  using assms by (auto simp: shrinks_def put_peer_def)

lemma write_ctl: "sys_write fd d k = (r, k') \<Longrightarrow> k_ctl k' = k_ctl k"
  by (auto simp: sys_write_def Let_def split: list.splits write_result.splits)

lemma shrinks_kern: "k_ctl k = k_ctl (w_kern w) \<Longrightarrow> shrinks w (w\<lparr>w_kern := k\<rparr>)"
  by (auto simp: shrinks_def)

lemma shrinks_flush: "shrinks w (state_of (flush fd w))"
proof (induction fd w rule: flush.induct)
  case (1 fd w)
  show ?case
  proof (cases "w_peers w fd")
    case None
    then show ?thesis by (simp add: flush.simps [of fd w] shrinks_refl)
  next
    case (Some p)
    have empty: "shrinks w (put_peer fd (drained p) w)"
      by (rule shrinks_put [OF Some]) (simp_all add: drained_def)
    show ?thesis
    proof (cases "p_connecting p \<or> p_sent p \<ge> length (p_outbound p)")
      case True
      with Some empty show ?thesis by (auto simp: flush.simps [of fd w] shrinks_refl)
    next
      case False
      obtain r k where wr: "sys_write fd (drop (p_sent p) (p_outbound p)) (w_kern w) = (r, k)" by fastforce
      note IH = "1.IH" [OF Some False wr [symmetric]] and same = shrinks_kern [OF write_ctl [OF wr]]
      note closed = shrinks_trans [OF same shrinks_close_pair]
      show ?thesis
      proof (cases r)
        case (WTake n)
        let ?p = "p\<lparr>p_sent := p_sent p + n, p_last := clock_now k\<rparr>"
        let ?w = "put_peer fd ?p (w\<lparr>w_kern := tick k\<rparr>)"
        have moved: "shrinks w ?w" "shrinks w (put_peer fd (drained ?p) (w\<lparr>w_kern := tick k\<rparr>))"
          using write_ctl [OF wr] by (auto intro!: shrinks_put [OF Some] simp: tick_def drained_def)
        consider "n = 0" | "n > 0" "p_sent p + n = length (p_outbound p)"
          | "n > 0" "p_sent p + n \<noteq> length (p_outbound p)" by blast
        then show ?thesis
        proof cases
          case 1
          with WTake Some False wr closed show ?thesis by (simp add: flush.simps [of fd w])
        next
          case 2
          with WTake Some False wr moved(2) show ?thesis by (simp add: flush.simps [of fd w] Let_def)
        next
          case 3
          with IH(1) [OF WTake] have "shrinks ?w (state_of (flush fd ?w))" by (simp add: Let_def)
          with moved(1) have "shrinks w (state_of (flush fd ?w))" by (rule shrinks_trans)
          with 3 WTake Some False wr show ?thesis by (simp add: flush.simps [of fd w] Let_def)
        qed
      next
        case WAgain
        with Some False wr same show ?thesis by (simp add: flush.simps [of fd w])
      next
        case WIntr
        with IH(2) same shrinks_trans have "shrinks w (state_of (flush fd (w\<lparr>w_kern := k\<rparr>)))" by blast
        with WIntr Some False wr show ?thesis by (simp add: flush.simps [of fd w])
      next
        case WFail
        with Some False wr closed show ?thesis by (simp add: flush.simps [of fd w])
      qed
    qed
  qed
qed

definition bounded :: "worker \<Rightarrow> bool" where
  "bounded w \<longleftrightarrow> (\<forall>g q. w_peers w g = Some q \<longrightarrow> length (p_outbound q) < kHighWatermark + kBufferSize)"

definition may_fill :: "fd \<Rightarrow> worker \<Rightarrow> bool" where
  "may_fill fd w \<longleftrightarrow> (\<forall>p. w_peers w fd = Some p \<longrightarrow> \<not> outbound_full (p_paired p) w)"

definition throttled :: "fd \<Rightarrow> worker \<Rightarrow> bool" where
  "throttled fd w \<longleftrightarrow> (\<forall>p. w_peers w fd = Some p \<and> outbound_full (p_paired p) w \<longrightarrow>
     (\<exists>ev. k_armed (w_kern w) fd = Some ev \<and> \<not> has_flag ev EPOLLIN))"

definition small_reads :: "fd \<Rightarrow> worker \<Rightarrow> bool" where
  "small_reads fd w \<longleftrightarrow> (\<forall>bs. RData bs \<in> set (k_reads (w_kern w) fd) \<longrightarrow> length bs \<le> kBufferSize)"

lemma bounded_shrinks: "bounded w \<Longrightarrow> shrinks w w' \<Longrightarrow> bounded w'"
  unfolding bounded_def shrinks_def by (meson order_le_less_trans)

lemma may_fill_throttled: "may_fill fd w \<Longrightarrow> throttled fd w"
  by (auto simp: may_fill_def throttled_def)

lemma may_fill_shrinks:
  assumes "may_fill fd w" "shrinks w w'"
  shows "may_fill fd w'"
  unfolding may_fill_def
proof (intro allI impI)
  fix p'
  assume "w_peers w' fd = Some p'"
  with assms(2) obtain p where p: "w_peers w fd = Some p" "p_paired p' = p_paired p"
    unfolding shrinks_def by blast
  show "\<not> outbound_full (p_paired p') w'"
  proof (cases "w_peers w' (p_paired p)")
    case None
    then show ?thesis by (simp add: outbound_full_def p(2))
  next
    case (Some q')
    with assms(2) obtain q where "w_peers w (p_paired p) = Some q" "length (p_outbound q') \<le> length (p_outbound q)"
      unfolding shrinks_def by blast
    with assms(1) p Some show ?thesis by (auto simp: may_fill_def outbound_full_def)
  qed
qed

lemma no_input_flags: "\<not> has_flag (EPOLLERR OR EPOLLHUP OR EPOLLRDHUP) EPOLLIN"
    "\<not> has_flag (EPOLLERR OR EPOLLHUP OR EPOLLRDHUP OR EPOLLOUT) EPOLLIN"
  by (simp_all add: has_flag_def epoll_defs)

text \<open>Re-registering a descriptor whose partner is full takes its read interest away.\<close>

lemma modify_throttles:
  assumes ctl: "\<forall>n. k_ctl (w_kern w) n"
  shows "throttled fd (modify_fd fd w)"
  unfolding throttled_def
proof (intro allI impI, elim conjE)
  fix p
  assume p: "w_peers (modify_fd fd w) fd = Some p" and full: "outbound_full (p_paired p) (modify_fd fd w)"
  have same: "w_peers (modify_fd fd w) = w_peers w" by (simp add: modify_fd_def split: option.splits)
  with p full have p: "w_peers w fd = Some p" and full: "outbound_full (p_paired p) w"
    by (simp_all add: outbound_full_def)
  have "k_armed (w_kern (modify_fd fd w)) fd = Some (interest (w_peers w) p)"
    using p ctl by (simp add: modify_fd_def on_kern_def ctl_mod_def ctl_add_def tick_def)
  moreover have "\<not> has_flag (interest (w_peers w) p) EPOLLIN"
    using full no_input_flags
    by (auto simp: interest_def Let_def outbound_full_def or.assoc split: option.splits)
  ultimately show "\<exists>ev. k_armed (w_kern (modify_fd fd w)) fd = Some ev \<and> \<not> has_flag ev EPOLLIN" by blast
qed

lemma throttled_other:
  "throttled fd w \<Longrightarrow> g \<noteq> fd \<Longrightarrow> throttled fd (modify_fd g w)"
  by (auto simp: throttled_def modify_fd_def outbound_full_def on_kern_def ctl_mod_def ctl_add_def
      tick_def split: option.splits)

lemma deliver_bounded:
  assumes ctl: "\<forall>n. k_ctl (w_kern w) n" and b: "bounded w" and ne: "p_paired p \<noteq> fd"
    and q: "w_peers w (p_paired p) = Some q" "length (p_outbound q) < kHighWatermark"
    and bs: "length bs \<le> kBufferSize" and d: "deliver fd bs p q w = Ok w'"
  shows "bounded w' \<and> throttled fd w' \<and> (\<forall>n. k_ctl (w_kern w') n) \<and>
    (\<forall>r'. w_peers w' fd = Some r' \<longrightarrow> (\<exists>r. w_peers w fd = Some r \<and> p_paired r' = p_paired r))"
proof -
  let ?w1 = "put_peer (p_paired p) (append_outbound bs (p_last p) q) w"
  from d obtain w2 w3 where w2: "on_rt (record_bytes (p_backend_side p) (p_backend p) (length bs)) ?w1 = Ok w2"
    and w3: "flush (p_paired p) w2 = Ok w3" and w': "w' = modify_fd (p_paired p) (modify_fd fd w3)"
    by (auto simp: deliver_def Let_def chain_Ok)
  have "shrinks ?w1 w2" using shrinks_rt [of ?w1] w2 by (metis out_simps(1))
  moreover have "shrinks w2 w3" using shrinks_flush [of w2 "p_paired p"] w3 by simp
  ultimately have s: "shrinks ?w1 w3" by (rule shrinks_trans)
  have "bounded ?w1" using b q bs by (auto simp: bounded_def put_peer_def append_outbound_def)
  from bounded_shrinks [OF this] s have "bounded w'" by (simp add: w')
  have c1: "\<forall>n. k_ctl (w_kern ?w1) n" using ctl by (simp add: put_peer_def)
  with s have c3: "\<forall>n. k_ctl (w_kern w3) n" by (simp add: shrinks_def)
  then have "\<forall>n. k_ctl (w_kern w') n"
    by (auto simp: w' modify_fd_def on_kern_def ctl_mod_def ctl_add_def tick_def split: option.splits)
  moreover have "throttled fd w'"
    unfolding w' using ne by (intro throttled_other modify_throttles c3)
  moreover have "\<exists>r. w_peers w fd = Some r \<and> p_paired r' = p_paired r" if "w_peers w' fd = Some r'" for r'
  proof -
    have "w_peers w3 fd = Some r'" using that by (simp add: w' modify_fd_def split: option.splits)
    with s obtain r where "w_peers ?w1 fd = Some r" "p_paired r' = p_paired r"
      unfolding shrinks_def by blast
    with ne show ?thesis by (auto simp: put_peer_def)
  qed
  ultimately show ?thesis using \<open>bounded w'\<close> by blast
qed

lemma read_ctl: "sys_read fd k = (r, k') \<Longrightarrow> k_ctl k' = k_ctl k"
  by (auto simp: sys_read_def split: list.splits)

lemma read_small:
  assumes "sys_read fd (w_kern w) = (r, k)" "small_reads fd w"
  shows "small_reads fd (w\<lparr>w_kern := k\<rparr>)" "r = RData bs \<Longrightarrow> length bs \<le> kBufferSize"
  using assms by (auto simp: sys_read_def small_reads_def split: list.splits)

lemma closed_bounded:
  assumes "bounded w" "may_fill fd w"
  shows "bounded (state_of (close_pair fd b w)) \<and> throttled fd (state_of (close_pair fd b w))"
  using assms shrinks_close_pair bounded_shrinks may_fill_shrinks may_fill_throttled by blast

lemma read_bounded:
  "worker_inv base w \<Longrightarrow> \<forall>n. k_ctl (w_kern w) n \<Longrightarrow> bounded w \<Longrightarrow> may_fill fd w \<Longrightarrow> small_reads fd w \<Longrightarrow>
    bounded (state_of (read_available fd w)) \<and> throttled fd (state_of (read_available fd w))"
proof (induction fd w rule: read_available.induct)
  case (1 fd w)
  note inv = "1.prems"(1) and ctl = "1.prems"(2) and bnd = "1.prems"(3) and room = "1.prems"(4) and small = "1.prems"(5)
  show ?case
  proof (cases "w_peers w fd")
    case None
    with bnd room show ?thesis by (simp add: read_available.simps [of fd w] may_fill_throttled)
  next
    case (Some p)
    obtain r k where rd: "sys_read fd (w_kern w) = (r, k)" by fastforce
    from paired_peer [OF worker_invD(3) [OF inv] Some] obtain q where
      q: "w_peers w (p_paired p) = Some q" and ne: "p_paired p \<noteq> fd" by blast
    note IH = "1.IH" [OF Some rd [symmetric]] and same = shrinks_kern [OF read_ctl [OF rd]]
    let ?k = "w\<lparr>w_kern := k\<rparr>"
    have after: "bounded ?k" "may_fill fd ?k" "small_reads fd ?k" "\<forall>n. k_ctl (w_kern ?k) n"
      using bnd room small ctl bounded_shrinks [OF _ same] may_fill_shrinks [OF _ same]
        read_small(1) [OF rd] read_ctl [OF rd] by simp_all
    show ?thesis
    proof (cases r)
      case (RData bs)
      show ?thesis
      proof (cases "bs = []")
        case True
        with closed_bounded [OF after(1,2)] RData Some rd show ?thesis
          by (simp add: read_available.simps [of fd w])
      next
        case False
        let ?p = "p\<lparr>p_last := clock_now k\<rparr>"
        let ?w1 = "put_peer fd ?p (w\<lparr>w_kern := tick k\<rparr>)"
        have q1: "w_peers ?w1 (p_paired ?p) = Some q" using q ne by (simp add: put_peer_def)
        from keeps_deliver [OF inv Some q rd [unfolded RData]]
        obtain w2 where w2: "deliver fd bs ?p q ?w1 = Ok w2" "worker_inv base w2" by (rule keepsE)
        have pre: "\<forall>n. k_ctl (w_kern ?w1) n" "bounded ?w1" "p_paired ?p \<noteq> fd"
          using after(4) bnd Some ne by (auto simp: put_peer_def tick_def bounded_def)
        have qs: "length (p_outbound q) < kHighWatermark"
          using room Some q by (simp add: may_fill_def outbound_full_def)
        note d = deliver_bounded [OF pre q1 qs read_small(2) [OF rd small RData] w2(1)]
        have "small_reads fd w2"
          using after(3) reads_deliver [of fd bs ?p q ?w1] w2(1) by (simp add: small_reads_def tick_def)
        moreover have "may_fill fd w2" if "\<not> outbound_full (p_paired p) w2"
          using d that by (auto simp: may_fill_def put_peer_def)
        ultimately have "\<not> outbound_full (p_paired p) w2 \<Longrightarrow>
            bounded (state_of (read_available fd w2)) \<and> throttled fd (state_of (read_available fd w2))"
          using IH(1) [OF RData False refl refl q1 w2(1)] w2(2) d by simp
        with d RData False Some rd q1 w2(1) show ?thesis
          by (simp add: read_available.simps [of fd w] Let_def)
      qed
    next
      case RAgain
      with after Some rd show ?thesis by (simp add: read_available.simps [of fd w] may_fill_throttled)
    next
      case RIntr
      with IH(2) [OF RIntr inv_read_none [OF inv rd] after(4,1-3)] Some rd show ?thesis
        by (simp add: read_available.simps [of fd w])
    next
      case RFail
      with closed_bounded [OF after(1,2)] Some rd show ?thesis by (simp add: read_available.simps [of fd w])
    qed
  qed
qed

text \<open>
  C17. Back-pressure bounds the memory of a connection. If no output buffer holds a watermark and
  a read more, and the partner of \<open>fd\<close> is below the watermark, then after
  \<open>read_available\<close> still no buffer does, however much the socket has to say; and when the
  partner's buffer has reached the watermark, \<open>fd\<close> is registered without
  \<open>EPOLLIN\<close>, so that no more is read from it until the partner has drained. A read returns
  at most \<open>kBufferSize\<close> bytes, and registering succeeds.
\<close>

theorem back_pressure:
  assumes "worker_inv base w" and "\<forall>n. k_ctl (w_kern w) n"
    and "\<forall>bs. RData bs \<in> set (k_reads (w_kern w) fd) \<longrightarrow> length bs \<le> kBufferSize"
    and "\<forall>g q. w_peers w g = Some q \<longrightarrow> length (p_outbound q) < kHighWatermark + kBufferSize"
    and "w_peers w fd = Some p" "w_peers w (p_paired p) = Some q" "length (p_outbound q) < kHighWatermark"
    and "read_available fd w = Ok w'"
  shows "(\<forall>g q'. w_peers w' g = Some q' \<longrightarrow> length (p_outbound q') < kHighWatermark + kBufferSize) \<and>
    (\<forall>p' q'. w_peers w' fd = Some p' \<and> w_peers w' (p_paired p') = Some q' \<and>
       length (p_outbound q') \<ge> kHighWatermark \<longrightarrow>
       (\<exists>ev. k_armed (w_kern w') fd = Some ev \<and> \<not> has_flag ev EPOLLIN))"
proof -
  have "bounded w" using assms(4) by (simp add: bounded_def)
  moreover have "may_fill fd w" using assms(5-7) by (simp add: may_fill_def outbound_full_def)
  moreover have "small_reads fd w" using assms(3) by (simp add: small_reads_def)
  ultimately have "bounded w' \<and> throttled fd w'"
    using read_bounded [OF assms(1,2), of fd] assms(8) by simp
  then show ?thesis by (auto simp: bounded_def throttled_def outbound_full_def)
qed

definition reading_worker :: worker where
  "reading_worker = busy_worker\<lparr>w_kern := (w_kern busy_worker)\<lparr>k_reads := (\<lambda>_. [])(6 := [RData ''hello''])\<rparr>\<rparr>"

lemma reading_inv: "worker_inv (\<lambda>_. 0) reading_worker"
  unfolding reading_worker_def
  by (rule inv_kern [OF busy_inv]) (use worker_invD(2) [OF busy_inv] in \<open>simp_all add: kern_ok_def\<close>)

lemma reading_peers: "w_peers reading_worker = w_peers busy_worker"
  by (simp add: reading_worker_def)

lemma reading_ctl: "k_ctl (w_kern reading_worker) n"
  by (simp add: reading_worker_def busy_worker_def connecting_worker_def new_pair_def emplace_def
      put_peer_def idle_worker_def sample_kern_def)

theorem back_pressure_witness:
  "\<exists>w'. read_available 6 reading_worker = Ok w' \<and>
    (\<forall>g q'. w_peers w' g = Some q' \<longrightarrow> length (p_outbound q') < kHighWatermark + kBufferSize)"
proof -
  from keeps_read [OF reading_inv, of 6] obtain w' where w': "read_available 6 reading_worker = Ok w'"
    by (rule keepsE)
  have p: "w_peers reading_worker 6 = Some (new_peer 6 7 0 False False 0 3000000000)"
    "w_peers reading_worker (p_paired (new_peer 6 7 0 False False 0 3000000000)) =
      Some (connected 0 (new_peer 7 6 0 True True 0 3000000000))"
    by (simp_all add: reading_peers busy_peers new_peer_def)
  have few: "\<forall>g q. w_peers reading_worker g = Some q \<longrightarrow> length (p_outbound q) < kHighWatermark + kBufferSize"
    by (auto simp: reading_peers busy_peers new_peer_def connected_def kHighWatermark_def split: if_splits)
  have small: "\<forall>bs. RData bs \<in> set (k_reads (w_kern reading_worker) 6) \<longrightarrow> length bs \<le> kBufferSize"
    by (simp add: reading_worker_def kBufferSize_def)
  have below: "length (p_outbound (connected 0 (new_peer 7 6 0 True True 0 3000000000))) < kHighWatermark"
    by (simp add: new_peer_def connected_def kHighWatermark_def)
  from back_pressure [OF reading_inv _ small few p below w'] reading_ctl w' show ?thesis by blast
qed

text \<open>A peer with three bytes to write and a socket that takes them.\<close>

definition writing_worker :: worker where
  "writing_worker = put_peer 7 ((connected 0 (new_peer 7 6 0 True True 0 3000000000))\<lparr>p_outbound := ''abc''\<rparr>)
     (busy_worker\<lparr>w_kern := (w_kern busy_worker)\<lparr>k_writes := (\<lambda>_. [])(7 := [WTake 65536]),
        k_rcvd := (\<lambda>_. [])(6 := ''abc''), k_sent := \<lambda>_. [], k_armed := [7 \<mapsto> EPOLLOUT]\<rparr>\<rparr>)"

lemma writing_peers:
  "w_peers writing_worker = [6 \<mapsto> new_peer 6 7 0 False False 0 3000000000,
     7 \<mapsto> (connected 0 (new_peer 7 6 0 True True 0 3000000000))\<lparr>p_outbound := ''abc''\<rparr>]"
  by (simp add: writing_worker_def put_peer_def busy_peers)

lemma writing_inv: "worker_inv (\<lambda>_. 0) writing_worker"
proof -
  let ?k = "(w_kern busy_worker)\<lparr>k_writes := (\<lambda>_. [])(7 := [WTake 65536]),
        k_rcvd := (\<lambda>_. [])(6 := ''abc''), k_sent := \<lambda>_. [], k_armed := [7 \<mapsto> EPOLLOUT]\<rparr>"
  have "worker_inv (\<lambda>_. 0) (busy_worker\<lparr>w_peers := w_peers writing_worker, w_kern := ?k\<rparr>)"
  proof (rule inv_update [OF busy_inv])
    show "shape (w_peers writing_worker) = shape (w_peers busy_worker)"
      by (auto simp: writing_peers busy_peers shape_def core_def)
    show "streams (w_peers writing_worker) ?k"
      by (auto simp: writing_peers streams_def new_peer_def connected_def split: if_splits)
    show "local_ok x" if "w_peers writing_worker g = Some x" for g x
      using that by (auto simp: writing_peers local_ok_def new_peer_def connected_def split: if_splits)
    show "kern_ok ?k" using worker_invD(2) [OF busy_inv] by (simp add: kern_ok_def)
  qed simp
  then show ?thesis by (simp add: writing_worker_def put_peer_def)
qed

theorem write_interest_stays_witness:
  "\<exists>w' q. handle_event (7, EPOLLOUT) writing_worker = Ok w' \<and> w_peers w' 7 = Some q \<and>
     p_outbound q = [] \<and> \<not> has_flag (interest (w_peers w') q) EPOLLOUT \<and>
     k_armed (w_kern w') 7 = Some EPOLLOUT"
proof -
  let ?p = "(connected 0 (new_peer 7 6 0 True True 0 3000000000))\<lparr>p_outbound := ''abc''\<rparr>"
  have p: "w_peers writing_worker 7 = Some ?p" "\<not> p_connecting ?p" "p_sent ?p < length (p_outbound ?p)"
    by (simp_all add: writing_peers connected_def new_peer_def)
  have k: "k_writes (w_kern writing_worker) 7 = WTake 65536 # []" "65536 \<ge> length (p_outbound ?p)"
    "k_armed (w_kern writing_worker) 7 = Some EPOLLOUT"
    by (simp_all add: writing_worker_def put_peer_def)
  from write_interest_stays [OF writing_inv p k(1,2)] k(3) show ?thesis by simp
qed

end
