(* ===== verification/LB_Health.thy ===== *)
theory LB_Health
  imports LB_Worker_Props
begin

text \<open>
  The health checks of \<open>TcpLoadBalancer::Impl::start_health_checks\<close> in
  \<open>src/server.cpp\<close>: a thread that, until it is told to stop, probes every backend that is
  not draining and reports to the scheduler. An exception that leaves a pass leaves the thread's
  function as well, which ends the process.
\<close>

section \<open>One check and one pass\<close>

record prober =
  h_rt :: runtime
  h_kern :: kern

definition probed :: "(runtime \<Rightarrow> runtime out) \<Rightarrow> prober \<Rightarrow> prober out" where
  "probed f h = map_out (\<lambda>r. h\<lparr>h_rt := r\<rparr>) (f (h_rt h))"

definition health_report :: "nat \<Rightarrow> bool \<Rightarrow> u64 \<Rightarrow> prober \<Rightarrow> prober out" where
  "health_report i ok latency h =
     (if ok then chain (probed (record_connect_latency i latency) h) (probed (heal_backend i))
      else chain (probed (record_backend_failure i) h) (\<lambda>h.
        case consecutive_failures (r_sched (h_rt h)) i of
          Inl e \<Rightarrow> Throw e h
        | Inr failures \<Rightarrow>
            if failures \<ge> passive_failure_threshold (r_config (h_rt h))
            then probed (set_backend_state i Down) h else Ok h))"

text \<open>\<open>latency_us\<close> starts at zero and keeps that value when the probe does not set it.\<close>

definition health_check :: "nat \<Rightarrow> prober \<Rightarrow> prober out" where
  "health_check i h =
     (case state_at (r_sched (h_rt h)) i of
        Inl e \<Rightarrow> Throw e h
      | Inr Draining \<Rightarrow> Ok h
      | Inr _ \<Rightarrow>
          (case backend_endpoint (r_sched (h_rt h)) i of
             Inl e \<Rightarrow> Throw e h
           | Inr e \<Rightarrow>
               (case tcp_probe e (health_timeout_ms (r_config (h_rt h))) (h_kern h) of
                  (Inl ex, k) \<Rightarrow> Throw ex (h\<lparr>h_kern := k\<rparr>)
                | (Inr (ok, latency), k) \<Rightarrow>
                    health_report i ok (case latency of None \<Rightarrow> 0 | Some x \<Rightarrow> x) (h\<lparr>h_kern := k\<rparr>))))"

fun health_checks :: "nat list \<Rightarrow> prober \<Rightarrow> prober out" where
  "health_checks [] h = Ok h"
| "health_checks (i # is) h = chain (health_check i h) (health_checks is)"

definition health_pass :: "prober \<Rightarrow> prober out" where
  "health_pass h = health_checks [0..<backend_count (r_sched (h_rt h))] h"

text \<open>How the thread ends after at most \<open>n\<close> passes: stopped, or with the process.\<close>

datatype thread_end = Stopped prober | Terminated exn prober

fun health_thread :: "nat \<Rightarrow> prober \<Rightarrow> thread_end" where
  "health_thread 0 h = Stopped h"
| "health_thread (Suc n) h =
     (case health_pass h of Ok h' \<Rightarrow> health_thread n h' | Throw e h' \<Rightarrow> Terminated e h')"

section \<open>The abstract state machine of a backend\<close>

text \<open>
  What the probes do to one backend, on its state and its number of consecutive failures.
\<close>

fun health_step :: "u32 \<Rightarrow> bool \<Rightarrow> backend_state \<times> u32 \<Rightarrow> backend_state \<times> u32" where
  "health_step threshold ok (Draining, n) = (Draining, n)"
| "health_step threshold True (st, n) = (Up, 0)"
| "health_step threshold False (st, n) = (if n + 1 \<ge> threshold then Down else st, n + 1)"

definition health_of :: "prober \<Rightarrow> nat \<Rightarrow> backend_state \<times> u32" where
  "health_of h i = (runtime_state (h_rt h) i, runtime_fails (h_rt h) i)"

definition prober_ok :: "prober \<Rightarrow> bool" where
  "prober_ok h \<longleftrightarrow> wf_runtime (h_rt h) \<and> kern_ok (h_kern h)"

lemma state_view:
  assumes "wf_runtime r" "i < pool_size r"
  shows "state_at (r_sched r) i = Inr (runtime_state r i)"
    and "backend_endpoint (r_sched r) i = Inr (s_backends (r_sched r) ! i)"
  using assms
  by (auto simp: wf_runtime_def pool_size_def wf_scheduler_def state_at_def backend_endpoint_def
      checked_get_def backend_count_def runtime_state_def state_in_def slot_def)

lemma report_config:
  "record_connect_latency i l r = Ok t \<Longrightarrow> r_config t = r_config r \<and> r_sched t = r_sched r"
  "heal_backend i r = Ok t \<Longrightarrow> r_config t = r_config r"
  "set_backend_state i x r = Ok t \<Longrightarrow> r_config t = r_config r"
  by (auto simp: runtime_op_defs map_out_def split: out.splits if_splits)

text \<open>A report moves the backend by one step of the machine and touches no other.\<close>

lemma report_step:
  assumes wf: "wf_runtime (h_rt h)" and i: "i < pool_size (h_rt h)" and up: "runtime_state (h_rt h) i \<noteq> Draining"
  shows "\<exists>r. health_report i ok l h = Ok (h\<lparr>h_rt := r\<rparr>) \<and> wf_runtime r \<and>
    pool_size r = pool_size (h_rt h) \<and> r_config r = r_config (h_rt h) \<and>
    runtime_active r = runtime_active (h_rt h) \<and>
    health_of (h\<lparr>h_rt := r\<rparr>) = (health_of h)
      (i := health_step (passive_failure_threshold (r_config (h_rt h))) ok (health_of h i))"
proof (cases ok)
  case True
  obtain t where t: "record_connect_latency i l (h_rt h) = Ok t" "wf_runtime t" "pool_size t = pool_size (h_rt h)"
    using metrics_only(2) [OF wf i, of "\<lambda>j. unat (runtime_active (h_rt h) j)" l] by (auto simp: rt.counts_def)
  note same = report_config(1) [OF t(1)]
  then have views: "runtime_active t = runtime_active (h_rt h)" "runtime_fails t = runtime_fails (h_rt h)"
    "runtime_state t = runtime_state (h_rt h)" by (simp_all add: runtime_views)
  from t(3) i have i': "i < pool_size t" by simp
  from rt.heal_law [OF t(2) i'] obtain u where u: "heal_backend i t = Ok u" "wf_runtime u" "pool_size u = pool_size t"
    "runtime_active u = runtime_active t" "runtime_fails u = (runtime_fails t)(i := 0)"
    "runtime_state u = (if runtime_state t i = Down then (runtime_state t)(i := Up) else runtime_state t)" by blast
  have "health_of (h\<lparr>h_rt := u\<rparr>) = (health_of h)
      (i := health_step (passive_failure_threshold (r_config (h_rt h))) ok (health_of h i))"
    using True up u(5,6) views
    by (cases "runtime_state (h_rt h) i") (auto simp: health_of_def fun_eq_iff)
  with True t u same report_config(2) [OF u(1)] views show ?thesis
    by (intro exI [of _ u]) (simp add: health_report_def probed_def)
next
  case False
  from rt.fail_law [OF wf i] obtain t where t: "record_backend_failure i (h_rt h) = Ok t"
    "wf_runtime t" "pool_size t = pool_size (h_rt h)" "runtime_active t = runtime_active (h_rt h)"
    "runtime_fails t = (runtime_fails (h_rt h))(i := runtime_fails (h_rt h) i + 1)"
    "runtime_state t = runtime_state (h_rt h)" by blast
  note same = config_kept(2) [OF t(1)]
  from t(3) i have i': "i < pool_size t" by simp
  from rt.set_law [OF t(2) i', of Down] obtain u where u: "set_backend_state i Down t = Ok u" "wf_runtime u"
    "pool_size u = pool_size t" "runtime_active u = runtime_active t" "runtime_fails u = runtime_fails t"
    "runtime_state u = (runtime_state t)(i := Down)" by blast
  note views = failures_view [OF t(2) i'] and same' = report_config(3) [OF u(1)]
  show ?thesis
  proof (cases "runtime_fails (h_rt h) i + 1 \<ge> passive_failure_threshold (r_config (h_rt h))")
    case True
    have "health_of (h\<lparr>h_rt := u\<rparr>) = (health_of h)
        (i := health_step (passive_failure_threshold (r_config (h_rt h))) ok (health_of h i))"
      using False True up t(5,6) u(5,6)
      by (cases "runtime_state (h_rt h) i") (auto simp: health_of_def fun_eq_iff)
    with False True t u views same same' show ?thesis
      by (intro exI [of _ u]) (simp add: health_report_def probed_def)
  next
    case below: False
    have "health_of (h\<lparr>h_rt := t\<rparr>) = (health_of h)
        (i := health_step (passive_failure_threshold (r_config (h_rt h))) ok (health_of h i))"
      using False below up t(5,6)
      by (cases "runtime_state (h_rt h) i") (auto simp: health_of_def fun_eq_iff)
    with False below t views same show ?thesis
      by (intro exI [of _ t]) (simp add: health_report_def probed_def)
  qed
qed

text \<open>
  The whole effect of a report, in every field: the latency of the backend on success; on failure
  the errors of the process and of the backend. Only the checked backend's entries change.
\<close>

definition verdict :: "bool \<Rightarrow> u64 \<Rightarrow> nat \<Rightarrow> runtime \<Rightarrow> runtime" where
  "verdict ok latency i r =
     (let s = r_sched r; m = r_metrics r; b = r_backends r ! i; failures = s_failures s ! i + 1 in
      if ok then r\<lparr>
        r_sched := s\<lparr>s_failures := (s_failures s)[i := 0], s_states := (s_states s)[i := Up]\<rparr>,
        r_backends := (r_backends r)[i := b\<lparr>b_latency_us := latency\<rparr>]\<rparr>
      else r\<lparr>
        r_sched := s\<lparr>s_errors := (s_errors s)[i := s_errors s ! i + 1], s_failures := (s_failures s)[i := failures],
          s_states := (if failures \<ge> passive_failure_threshold (r_config r) then (s_states s)[i := Down] else s_states s)\<rparr>,
        r_metrics := m\<lparr>m_errors := m_errors m + 1\<rparr>\<rparr>)"

lemma report_verdict:
  assumes wf: "wf_runtime (h_rt h)" and i: "i < pool_size (h_rt h)" and up: "runtime_state (h_rt h) i \<noteq> Draining"
  shows "health_report i ok l h = Ok (h\<lparr>h_rt := verdict ok l i (h_rt h)\<rparr>)"
proof -
  let ?s = "r_sched (h_rt h)"
  have len: "i < length (r_backends (h_rt h))" "i < length (s_errors ?s)" "i < length (s_failures ?s)" "i < length (s_states ?s)"
    using wf i by (auto simp: wf_runtime_def wf_scheduler_def pool_size_def backend_count_def)
  have st: "s_states ?s ! i \<noteq> Draining" using up len by (simp add: runtime_views scheduler_views slot_def)
  have same: "s_states ?s ! i = Up \<Longrightarrow> (s_states ?s)[i := Up] = s_states ?s" by (metis list_update_id)
  note len' = len [folded not_le]
  from st show ?thesis
    by (cases "s_states ?s ! i")
      (auto simp: health_report_def probed_def runtime_op_defs map_out_def verdict_def Let_def len len' same
        mark_healthy_def mark_failure_def set_state_def consecutive_failures_def checked_get_def state_at_def)
qed

section \<open>What a check does\<close>

text \<open>A probe leaves the descriptors as they were, also when it throws.\<close>

lemma probe_open:
  assumes "kern_ok k" "tcp_probe e t k = (r, k')"
  shows "kern_ok k' \<and> k_open k' = k_open k"
proof -
  obtain r1 k1 where c: "connect_backend e (tick k) = (r1, k1)" by fastforce
  from connect_backend_open [OF _ c] assms(1)
  have k1: "kern_ok k1" "opened_at_most_one (k_open k) r1 (k_open k1)" by simp_all
  have close: "kern_ok (sys_close fd k1)" for fd using k1(1) by (rule kern_ok_close)
  have opn: "k_open (sys_close fd k1) = k_open k1 - {fd}" for fd by (simp add: sys_close_def)
  from c k1 close assms(2) show ?thesis
    by (auto simp: tcp_probe_def Let_def opened_at_most_one_def opn
        split: sum.splits option.splits if_splits)
qed

text \<open>The result of the probe of backend \<open>i\<close>.\<close>

definition probe_of :: "nat \<Rightarrow> prober \<Rightarrow> (bool \<times> u64 option) res \<times> kern" where
  "probe_of i h = tcp_probe (s_backends (r_sched (h_rt h)) ! i)
     (health_timeout_ms (r_config (h_rt h))) (h_kern h)"

lemma check_cases:
  assumes h: "prober_ok h" and i: "i < pool_size (h_rt h)"
  shows "runtime_state (h_rt h) i = Draining \<Longrightarrow> health_check i h = Ok h"
    and "runtime_state (h_rt h) i \<noteq> Draining \<Longrightarrow> probe_of i h = (Inl e, k) \<Longrightarrow>
      health_check i h = Throw e (h\<lparr>h_kern := k\<rparr>)"
    and "runtime_state (h_rt h) i \<noteq> Draining \<Longrightarrow> probe_of i h = (Inr (ok, l), k) \<Longrightarrow>
      health_check i h = health_report i ok (case l of None \<Rightarrow> 0 | Some x \<Rightarrow> x) (h\<lparr>h_kern := k\<rparr>)"
  using state_view [of "h_rt h" i] h i
  by (auto simp: health_check_def probe_of_def prober_ok_def split: backend_state.splits)

text \<open>
  C14. A health check is one step of the backend's state machine, and this is all it does. A draining
  backend is not probed and nothing changes. Otherwise the probe's verdict takes the checked backend
  one step further in \<open>health_step\<close>: success clears its failures and brings it up, failure counts
  one more and takes it down once they reach the threshold; no other backend changes. Besides, a
  success stores the latency of the backend, and a failure adds one to its errors and to those of the
  process; every other field of the runtime, with all metrics and connection counts, is as
  before (\<open>verdict\<close>). No descriptor is left open. When the probe throws, so does the check, with no
  report made.
\<close>

theorem health_check_step:
  assumes h: "prober_ok h" and i: "i < pool_size (h_rt h)"
  shows "case health_check i h of
      Ok h' \<Rightarrow>
        prober_ok h' \<and> k_open (h_kern h') = k_open (h_kern h) \<and>
        (if runtime_state (h_rt h) i = Draining then h' = h
         else (\<exists>ok l k. probe_of i h = (Inr (ok, l), k) \<and>
           h' = \<lparr>h_rt = verdict ok (case l of None \<Rightarrow> 0 | Some x \<Rightarrow> x) i (h_rt h), h_kern = k\<rparr> \<and>
           health_of h' = (health_of h)
             (i := health_step (passive_failure_threshold (r_config (h_rt h))) ok (health_of h i))))
    | Throw e h' \<Rightarrow>
        (\<exists>k. probe_of i h = (Inl e, k) \<and> h' = h\<lparr>h_kern := k\<rparr>) \<and>
        k_open (h_kern h') = k_open (h_kern h)"
proof (cases "runtime_state (h_rt h) i = Draining")
  case True
  with check_cases(1) [OF h i] h show ?thesis by simp
next
  case False
  obtain r k where p: "probe_of i h = (r, k)" by fastforce
  have k: "kern_ok k" "k_open k = k_open (h_kern h)"
    using probe_open [OF _ p [unfolded probe_of_def]] h by (simp_all add: prober_ok_def)
  show ?thesis
  proof (cases r)
    case (Inl e)
    with check_cases(2) [OF h i False] p k show ?thesis by simp
  next
    case (Inr x)
    obtain ok l where x: "x = (ok, l)" by fastforce
    let ?h = "h\<lparr>h_kern := k\<rparr>" and ?l = "case l of None \<Rightarrow> 0 | Some x \<Rightarrow> x"
    have wf: "wf_runtime (h_rt ?h)" "i < pool_size (h_rt ?h)" "runtime_state (h_rt ?h) i \<noteq> Draining"
      using h i False by (simp_all add: prober_ok_def)
    have views: "health_of ?h = health_of h" by (simp add: health_of_def fun_eq_iff)
    note report = report_verdict [OF wf, of ok ?l]
    from report_step [OF wf, of ok ?l, unfolded views report] obtain t where
      t: "?h\<lparr>h_rt := verdict ok ?l i (h_rt h)\<rparr> = ?h\<lparr>h_rt := t\<rparr>" "wf_runtime t"
      "health_of (?h\<lparr>h_rt := t\<rparr>) = (health_of h)
        (i := health_step (passive_failure_threshold (r_config (h_rt h))) ok (health_of h i))" by auto
    have "t = verdict ok ?l i (h_rt h)" using arg_cong [OF t(1), of h_rt] by simp
    with t have "wf_runtime (verdict ok ?l i (h_rt h))"
      "health_of (?h\<lparr>h_rt := verdict ok ?l i (h_rt h)\<rparr>) = (health_of h)
        (i := health_step (passive_failure_threshold (r_config (h_rt h))) ok (health_of h i))" by simp_all
    with check_cases(3) [OF h i False] report p Inr x False k show ?thesis
      by (cases h) (simp add: prober_ok_def)
  qed
qed

definition sample_prober :: prober where
  "sample_prober = \<lparr>h_rt = fresh_runtime 0 sample_config, h_kern = sample_kern\<rparr>"

lemma sample_prober_ok: "prober_ok sample_prober" "pool_size (h_rt sample_prober) = 2"
proof -
  have "wf_runtime (fresh_runtime 0 sample_config)"
    unfolding fresh_runtime_def by (rule wf_new_runtime) (simp add: sample_config_def)
  then show "prober_ok sample_prober" by (simp add: prober_ok_def sample_prober_def sample_kern_ok)
  show "pool_size (h_rt sample_prober) = 2" by (simp add: sample_prober_def sample_config_def)
qed

lemma sample_probe: "\<exists>l k. probe_of 0 sample_prober = (Inr (True, l), k)"
  by (simp add: probe_of_def sample_prober_def tcp_probe_def kern_eval net_eval Let_def
      runtime_eval)

lemma sample_state: "runtime_state (h_rt sample_prober) i = Up \<or> i \<ge> 2" "runtime_state (h_rt sample_prober) 0 = Up"
    "runtime_fails (h_rt sample_prober) i = 0"
  by (auto simp: sample_prober_def runtime_views runtime_eval scheduler_views slot_def less_Suc_eq
      numeral_2_eq_2 nth_Cons')

lemma sample_health: "health_of sample_prober 0 = (Up, 0)"
  by (simp add: health_of_def sample_state)

theorem health_check_step_witness:
  "\<exists>h'. health_check 0 sample_prober = Ok h' \<and> health_of h' 0 = (Up, 0)"
proof -
  have i: "0 < pool_size (h_rt sample_prober)" by (simp add: sample_prober_ok(2))
  obtain l k where "probe_of 0 sample_prober = (Inr (True, l), k)" using sample_probe by blast
  with health_check_step [OF sample_prober_ok(1) i] sample_state(2) show ?thesis
    by (auto simp: sample_health split: out.splits)
qed

section \<open>A backend that cannot be reached\<close>

text \<open>
  A network in which names resolve and no connection is established: either every \<open>connect\<close> fails at
  once, or some are under way and each of them fails later, because \<open>poll\<close> times out (or fails) or
  because the socket then has an error, or it cannot be read. Which of the two happens may
  differ from one probe to the next.
\<close>

definition names_resolve :: "kern \<Rightarrow> bool" where
  "names_resolve k \<longleftrightarrow> (\<forall>n passive e. \<exists>as. k_getaddrinfo k n passive e = Inr as \<and>
     (\<forall>a \<in> set as. a_getfl a \<noteq> -1 \<and> a_setfl a \<noteq> -1))"

definition connects_fail :: "kern \<Rightarrow> bool" where
  "connects_fail k \<longleftrightarrow>
     (\<forall>n passive e as. k_getaddrinfo k n passive e = Inr as \<longrightarrow> (\<forall>a \<in> set as. \<not> a_connect a)) \<or>
     (\<forall>n timeout. k_poll k n timeout \<le> 0 \<or> k_soerror k n \<noteq> Some 0)"

definition dead_network :: "kern \<Rightarrow> bool" where
  "dead_network k \<longleftrightarrow> names_resolve k \<and> connects_fail k"

text \<open>What the network answers does not depend on the descriptors and the number of calls.\<close>

definition same_network :: "kern \<Rightarrow> kern \<Rightarrow> bool" where
  "same_network k k' \<longleftrightarrow> k_getaddrinfo k' = k_getaddrinfo k \<and> k_poll k' = k_poll k \<and> k_soerror k' = k_soerror k"

lemma same_network_calls [simp]:
  "same_network k (tick k')  = same_network k k'" "same_network k (sys_close fd k') = same_network k k'"
  "same_network k (snd (sys_open k')) = same_network k k'" "same_network k k"
  by (simp_all add: same_network_def tick_def sys_close_def sys_open_def Let_def)

lemma same_network_dead: "same_network k k' \<Longrightarrow> dead_network k' = dead_network k"
  by (simp add: same_network_def dead_network_def names_resolve_def connects_fail_def)

text \<open>No address throws, and only an address that connects gives a descriptor.\<close>

lemma connect_loop_resolved:
  assumes "\<forall>a \<in> set as. a_getfl a \<noteq> -1 \<and> a_setfl a \<noteq> -1" and "same_network k0 k"
  shows "\<exists>x k'. connect_loop as k = (Inr x, k') \<and> same_network k0 k' \<and> (x \<noteq> None \<longrightarrow> (\<exists>a \<in> set as. a_connect a))"
  using assms
proof (induction as arbitrary: k)
  case (Cons a as)
  obtain fd k1 where o: "sys_open k = (fd, k1)" by fastforce
  then have k1: "same_network k0 k1" using Cons.prems(2) same_network_calls(3) [of k0 k] by simp
  show ?case
  proof (cases "\<not> a_socket a \<or> table_full k")
    case True
    with Cons.IH [of k] Cons.prems show ?thesis by fastforce
  next
    case False
    with Cons.IH [of "sys_close fd k1"] Cons.prems k1 o show ?thesis
      by (cases "a_connect a") (fastforce simp: set_nonblocking_def)+
  qed
qed simp

lemma dead_probe:
  assumes "dead_network k"
  shows "\<exists>l k'. tcp_probe e t k = (Inr (False, l), k') \<and> dead_network k'"
proof -
  from assms obtain as where as: "k_getaddrinfo k (k_calls (tick k)) False e = Inr as"
    "\<forall>a \<in> set as. a_getfl a \<noteq> -1 \<and> a_setfl a \<noteq> -1" unfolding dead_network_def names_resolve_def by blast
  from connect_loop_resolved [OF as(2), of k "tick (tick k)"] obtain x k1 where
    x: "connect_loop as (tick (tick k)) = (Inr x, k1)" "same_network k k1" "x \<noteq> None \<longrightarrow> (\<exists>a \<in> set as. a_connect a)" by auto
  have "k_getaddrinfo (tick k) = k_getaddrinfo k" by (simp add: tick_def)
  with as(1) x(1) have cb: "connect_backend e (tick k) = (Inr x, k1)"
    by (simp add: connect_backend_def resolve_endpoint_def)
  have late: "k_poll k1 n timeout \<le> 0 \<or> k_soerror k1 n \<noteq> Some 0" if "x \<noteq> None" for n timeout
    using assms as(1) x(2,3) that by (auto simp: dead_network_def connects_fail_def same_network_def)
  have dead: "dead_network k'" if "same_network k k'" for k' using same_network_dead [OF that] assms by simp
  show ?thesis
  proof (cases x)
    case None
    with cb dead [OF x(2)] show ?thesis by (simp add: tcp_probe_def Let_def)
  next
    case (Some fd)
    then have "k_poll k1 (k_calls k1) (sint t) > 0 \<Longrightarrow> k_soerror k1 (k_calls k1) \<noteq> Some 0"
      using late [of "k_calls k1" "sint t"] by auto
    with Some cb x(2) show ?thesis by (auto simp: tcp_probe_def Let_def intro!: dead)
  qed
qed

lemma unat_of_nat_u32: "n < 4294967296 \<Longrightarrow> unat (of_nat n :: u32) = n"
  by (simp add: unat_of_nat take_bit_nat_eq_self)

lemma step_fails_times:
  assumes "k < 2 ^ 32" "threshold > 0"
  shows "(health_step threshold False ^^ k) (Up, 0) = (if k \<ge> unat threshold then Down else Up, of_nat k)"
  using assms(1)
proof (induction k)
  case 0
  with assms(2) show ?case by (simp add: word_gt_0 unat_eq_0)
next
  case (Suc k)
  have "unat (of_nat (Suc k) :: u32) = Suc k" by (rule unat_of_nat_u32) (use Suc.prems in simp)
  then have "(of_nat k + 1 \<ge> threshold) = (Suc k \<ge> unat threshold)"
    by (simp add: word_le_nat_alt add.commute)
  with Suc show ?case by (auto simp: add.commute)
qed

lemma dead_checks:
  assumes "prober_ok h" "i < pool_size (h_rt h)" "dead_network (h_kern h)"
    and "runtime_state (h_rt h) i \<noteq> Draining"
  shows "\<exists>h'. health_checks (replicate k i) h = Ok h' \<and> prober_ok h' \<and>
    health_of h' i = (health_step (passive_failure_threshold (r_config (h_rt h))) False ^^ k) (health_of h i)"
  using assms
proof (induction k arbitrary: h)
  case 0
  then show ?case by simp
next
  case (Suc k)
  let ?t = "passive_failure_threshold (r_config (h_rt h))"
  from dead_probe [OF Suc.prems(3)] obtain l k1 where p: "probe_of i h = (Inr (False, l), k1)" "dead_network k1"
    unfolding probe_of_def by blast
  let ?l = "case l of None \<Rightarrow> 0 | Some x \<Rightarrow> x"
  have k1: "kern_ok k1"
    using probe_open [OF _ p(1) [unfolded probe_of_def]] Suc.prems(1) by (simp add: prober_ok_def)
  let ?h = "h\<lparr>h_kern := k1\<rparr>"
  have "wf_runtime (h_rt ?h)" "i < pool_size (h_rt ?h)" "runtime_state (h_rt ?h) i \<noteq> Draining"
    using Suc.prems by (simp_all add: prober_ok_def)
  from report_step [OF this, of False ?l] obtain r where r: "health_report i False ?l ?h = Ok (?h\<lparr>h_rt := r\<rparr>)"
    "wf_runtime r" "pool_size r = pool_size (h_rt h)" "r_config r = r_config (h_rt h)"
    "health_of (?h\<lparr>h_rt := r\<rparr>) = (health_of ?h)(i := health_step ?t False (health_of ?h i))" by auto
  let ?g = "?h\<lparr>h_rt := r\<rparr>"
  have step: "health_of ?g i = health_step ?t False (health_of h i)"
    by (simp add: r(5)) (simp add: health_of_def)
  then have "runtime_state (h_rt ?g) i \<noteq> Draining"
    using Suc.prems(4) by (cases "runtime_state (h_rt h) i") (auto simp: health_of_def split: if_splits)
  with Suc.IH [of ?g] r k1 p(2) Suc.prems(2) obtain h' where "health_checks (replicate k i) ?g = Ok h'" "prober_ok h'"
    "health_of h' i = (health_step ?t False ^^ k) (health_of ?g i)" by (auto simp: prober_ok_def)
  with check_cases(3) [OF Suc.prems(1,2,4) p(1)] r(1) step show ?case
    by (simp add: funpow_swap1)
qed

text \<open>
  C20. A dead backend is taken down, and not before its time. When no connection is established,
  because it is refused at once, because it is still in progress when its time is up, or because it
  fails while the probe waits, a backend that is up with no failures is still up after fewer checks
  than the threshold and down from the threshold on, with one failure counted per check.
\<close>

theorem dead_backend_goes_down:
  assumes "prober_ok h" and "i < pool_size (h_rt h)" and "dead_network (h_kern h)"
    and "runtime_state (h_rt h) i = Up" and "runtime_fails (h_rt h) i = 0"
    and "passive_failure_threshold (r_config (h_rt h)) > 0" and "k < 2 ^ 32"
  shows "\<exists>h'. health_checks (replicate k i) h = Ok h' \<and> runtime_fails (h_rt h') i = of_nat k \<and>
    runtime_state (h_rt h') i =
      (if k \<ge> unat (passive_failure_threshold (r_config (h_rt h))) then Down else Up)"
  using dead_checks [OF assms(1-3), of k] step_fails_times [OF assms(7,6)] assms(4,5)
  by (auto simp: health_of_def)

text \<open>The backend does not answer: every connection is under way until \<open>poll\<close> times out.\<close>

definition dead_prober :: prober where
  "dead_prober = sample_prober\<lparr>h_kern := sample_kern\<lparr>k_poll := \<lambda>_ _. 0\<rparr>\<rparr>"

theorem dead_backend_goes_down_witness:
  "\<exists>h'. health_checks [0, 0, 0] dead_prober = Ok h' \<and> runtime_state (h_rt h') 0 = Down"
proof -
  have "r_config (h_rt dead_prober) = sample_config"
    by (simp add: dead_prober_def sample_prober_def fresh_runtime_def new_runtime_def)
  then have threshold: "passive_failure_threshold (r_config (h_rt dead_prober)) = 3"
    by (simp add: sample_config_def default_config_def)
  have "dead_network (h_kern dead_prober)"
    by (simp add: dead_prober_def dead_network_def names_resolve_def connects_fail_def) (simp add: sample_kern_def)
  with sample_prober_ok sample_kern_ok
  have h: "prober_ok dead_prober" "0 < pool_size (h_rt dead_prober)" "dead_network (h_kern dead_prober)"
    by (simp_all add: dead_prober_def prober_ok_def kern_ok_def)
  have "runtime_state (h_rt dead_prober) 0 = Up" "runtime_fails (h_rt dead_prober) 0 = 0"
    using sample_state by (simp_all add: dead_prober_def)
  with dead_backend_goes_down [OF h, of 3] threshold show ?thesis by (auto simp: numeral_3_eq_3)
qed

section \<open>Draining and exceptions\<close>

text \<open>
  C33. A drain does not survive the passive ejection. When a connection of a draining backend
  fails and its failures reach the threshold, closing the pair marks the backend as down; down is
  probed again, and the next check that succeeds marks it as up: it gets new connections although
  nobody has enabled it.
\<close>

theorem drain_undone:
  assumes "worker_inv base w" and "w_peers w fd = Some p" and "close_pair fd True w = Ok w'"
    and "runtime_state (w_rt w) (p_backend p) = Draining"
    and "runtime_fails (w_rt w) (p_backend p) + 1 \<ge> passive_failure_threshold (r_config (w_rt w))"
    and "h_rt h = w_rt w'" and "kern_ok (h_kern h)" and "probe_of (p_backend p) h = (Inr (True, l), k)"
  shows "runtime_state (w_rt w') (p_backend p) = Down \<and>
    (\<exists>h'. health_check (p_backend p) h = Ok h' \<and> runtime_state (h_rt h') (p_backend p) = Up)"
proof -
  note inv' = keeps_close_pair [OF assms(1), of fd True]
  from inv' assms(3) have w': "worker_inv base w'" "pool_size (w_rt w') = pool_size (w_rt w)"
    by (auto simp: keeps_def dest: frame_size)
  from close_pair_views [OF assms(1,2), of True] assms(3,5) have down: "runtime_state (w_rt w') (p_backend p) = Down"
    by auto
  have h: "prober_ok h" using worker_invD(1) [OF w'(1)] assms(6,7) by (simp add: prober_ok_def)
  have i: "p_backend p < pool_size (h_rt h)"
    using paired_peer [OF worker_invD(3) [OF assms(1)] assms(2)] w'(2) assms(6) by simp
  have nd: "runtime_state (h_rt h) (p_backend p) \<noteq> Draining" using down assms(6) by simp
  let ?h = "h\<lparr>h_kern := k\<rparr>"
  from check_cases(3) [OF h i nd assms(8)]
  have "health_check (p_backend p) h = health_report (p_backend p) True (case l of None \<Rightarrow> 0 | Some x \<Rightarrow> x) ?h" .
  moreover have "wf_runtime (h_rt ?h)" "p_backend p < pool_size (h_rt ?h)"
      "runtime_state (h_rt ?h) (p_backend p) \<noteq> Draining"
    using h i nd by (simp_all add: prober_ok_def)
  note report_step [OF this, of True "case l of None \<Rightarrow> 0 | Some x \<Rightarrow> x"]
  moreover have "health_of ?h (p_backend p) = (Down, runtime_fails (w_rt w') (p_backend p))"
    using down assms(6) by (simp add: health_of_def)
  ultimately obtain r where "health_check (p_backend p) h = Ok (?h\<lparr>h_rt := r\<rparr>)"
    "health_of (?h\<lparr>h_rt := r\<rparr>) (p_backend p) = (Up, 0)" by auto
  with down show ?thesis by (auto simp: health_of_def)
qed

text \<open>A worker whose backend 0 was set to draining and fails at once.\<close>

definition draining_worker :: worker where
  "draining_worker = busy_worker\<lparr>w_rt := state_of (set_backend_state 0 Draining
     (pair_runtime\<lparr>r_config := sample_config\<lparr>passive_failure_threshold := 1\<rparr>\<rparr>))\<rparr>"

lemma draining_inv: "worker_inv (\<lambda>_. 0) draining_worker"
proof -
  let ?r = "pair_runtime\<lparr>r_config := sample_config\<lparr>passive_failure_threshold := 1\<rparr>\<rparr>"
  note D = worker_invD [OF busy_inv, unfolded sample_rt]
  have wf: "wf_runtime ?r" "0 < pool_size ?r" "pool_size ?r = pool_size pair_runtime"
    using D(1) pair_runtime_size by (simp_all add: wf_runtime_def pool_size_def)
  have "rt.counts ?r (\<lambda>i. 0 + load (shape (w_peers busy_worker)) i)"
    using D(10) by (simp add: rt.counts_def runtime_views)
  from rt.counts_others(3) [OF wf(1,2) this, of Draining] obtain t where
    "set_backend_state 0 Draining ?r = Ok t" "wf_runtime t" "pool_size t = pool_size ?r"
    "rt.counts t (\<lambda>i. 0 + load (shape (w_peers busy_worker)) i)" by blast
  with inv_rt [OF busy_inv, of t] wf(3) show ?thesis by (simp add: draining_worker_def sample_rt)
qed

theorem drain_undone_witness:
  "\<exists>w'. close_pair 7 True draining_worker = Ok w' \<and> runtime_state (w_rt w') 0 = Down \<and>
    (\<exists>h'. health_check 0 \<lparr>h_rt = w_rt w', h_kern = sample_kern\<rparr> = Ok h' \<and> runtime_state (h_rt h') 0 = Up)"
proof -
  have p: "w_peers draining_worker 7 = Some (connected 0 (new_peer 7 6 0 True True 0 3000000000))"
    by (simp add: draining_worker_def busy_peers)
  have i: "p_backend (connected 0 (new_peer 7 6 0 True True 0 3000000000)) = 0"
    by (simp add: connected_def new_peer_def)
  from keeps_close_pair [OF draining_inv, of 7 True] obtain w' where
    w': "close_pair 7 True draining_worker = Ok w'" by (rule keepsE)
  have st: "runtime_state (w_rt draining_worker) 0 = Draining" "runtime_fails (w_rt draining_worker) 0 = 0"
    "passive_failure_threshold (r_config (w_rt draining_worker)) = 1"
    by (simp_all add: draining_worker_def set_backend_state_def pair_runtime_def runtime_eval set_state_def
        runtime_views scheduler_views slot_def)
  obtain l k where "probe_of 0 \<lparr>h_rt = w_rt w', h_kern = sample_kern\<rparr> = (Inr (True, l), k)"
    by (simp add: probe_of_def tcp_probe_def kern_eval net_eval Let_def)
  with drain_undone [OF draining_inv p w', of "\<lparr>h_rt = w_rt w', h_kern = sample_kern\<rparr>" l k] st w'
  show ?thesis by (simp add: i sample_kern_ok)
qed

text \<open>
  C36. A name that does not resolve ends the process. When the lookup of a backend fails during a
  pass, after backends that are draining only, the exception leaves the pass and the function of
  the thread, whatever passes were still to come.
\<close>

theorem resolver_failure_terminates:
  assumes h: "prober_ok h" and i: "i < pool_size (h_rt h)"
    and before: "\<forall>j < i. runtime_state (h_rt h) j = Draining"
    and probed: "runtime_state (h_rt h) i \<noteq> Draining"
    and fails: "k_getaddrinfo (h_kern h) (Suc (k_calls (h_kern h))) False
      (s_backends (r_sched (h_rt h)) ! i) = Inl text"
  shows "\<exists>h'. health_thread (Suc n) h = Terminated (RuntimeError (''getaddrinfo('' @
      endpoint_label (s_backends (r_sched (h_rt h)) ! i) @ '') failed: '' @ text)) h' \<and>
    health_of h' = health_of h"
proof -
  let ?e = "RuntimeError (''getaddrinfo('' @
      endpoint_label (s_backends (r_sched (h_rt h)) ! i) @ '') failed: '' @ text)"
  let ?h = "h\<lparr>h_kern := tick (tick (h_kern h))\<rparr>"
  have "probe_of i h = (Inl ?e, tick (tick (h_kern h)))"
    using fails
    by (simp add: probe_of_def tcp_probe_def connect_backend_def resolve_endpoint_def Let_def)
      (simp add: tick_def)
  note check = check_cases(2) [OF h i probed this]
  have skip: "health_checks ([0..<j] @ is) h = health_checks is h" if "j \<le> i" for j "is"
    using that
  proof (induction j arbitrary: "is")
    case (Suc j)
    have "health_check j h = Ok h"
      by (rule check_cases(1) [OF h]) (use Suc.prems i before in simp_all)
    with Suc show ?case by simp
  qed simp
  have n: "backend_count (r_sched (h_rt h)) = pool_size (h_rt h)"
    using h by (simp add: prober_ok_def wf_runtime_def pool_size_def)
  have "[0..<pool_size (h_rt h)] = [0..<i] @ i # [Suc i..<pool_size (h_rt h)]"
    using i by (metis less_imp_le_nat upt_add_eq_append upt_conv_Cons le_add_diff_inverse zero_le)
  then have "health_pass h = Throw ?e ?h"
    using skip [of i] check by (simp add: health_pass_def n)
  moreover have "health_of ?h = health_of h" by (simp add: health_of_def fun_eq_iff)
  ultimately show ?thesis by simp
qed

theorem resolver_failure_terminates_witness:
  "\<exists>h'. health_thread 5 (sample_prober\<lparr>h_kern := sample_kern\<lparr>k_getaddrinfo := \<lambda>_ _ _. Inl ''down''\<rparr>\<rparr>) =
     Terminated (RuntimeError ''getaddrinfo(127.0.0.1:9101) failed: down'') h'"
proof -
  let ?h = "sample_prober\<lparr>h_kern := sample_kern\<lparr>k_getaddrinfo := \<lambda>_ _ _. Inl ''down''\<rparr>\<rparr>"
  have h: "prober_ok ?h" "0 < pool_size (h_rt ?h)"
    using sample_prober_ok sample_kern_ok by (simp_all add: prober_ok_def kern_ok_def)
  have st: "\<forall>j < 0. runtime_state (h_rt ?h) j = Draining" "runtime_state (h_rt ?h) 0 \<noteq> Draining"
    using sample_state(2) by simp_all
  have label: "endpoint_label (s_backends (r_sched (h_rt ?h)) ! 0) = ''127.0.0.1:9101''"
    by (simp add: sample_prober_def runtime_eval endpoint_label_def show_nat.simps digit_char_def char_of_def bit_0)
  from resolver_failure_terminates [OF h st, of "''down''" 4] label show ?thesis
    by (auto simp: numeral_eq_Suc)
qed

end
