(* ===== verification/LB_Access.thy ===== *)
theory LB_Access
  imports LB_Prog LB_Health
begin

text \<open>
  The operations of \<open>src/scheduler.cpp\<close> and \<open>src/runtime.cpp\<close> at the granularity of their atomic
  accesses. Every \<open>load\<close>, \<open>store\<close> and \<open>fetch_add\<close> of the source is one access of the program; a
  compare-exchange loop is one access as well, which \<open>LB_Atomics\<close> shows to be what it amounts to.
  Each program is proved to be, when nothing interferes, the operation of \<open>LB_Scheduler\<close> and
  \<open>LB_Runtime\<close> of the same name; \<open>LB_Races\<close> shows what can happen when something does.
\<close>

section \<open>Accesses of the scheduler\<close>

type_synonym 'a access = "(runtime, exn, 'a) prog"

definition on_sched :: "(scheduler \<Rightarrow> scheduler) \<Rightarrow> runtime \<Rightarrow> runtime" where
  "on_sched f r = r\<lparr>r_sched := f (r_sched r)\<rparr>"

definition on_metrics :: "(metrics \<Rightarrow> metrics) \<Rightarrow> runtime \<Rightarrow> runtime" where
  "on_metrics f r = r\<lparr>r_metrics := f (r_metrics r)\<rparr>"

text \<open>The sizes of the vectors never change; comparing an index with one of them reads no atomic word.\<close>

definition checked :: "(runtime \<Rightarrow> nat) \<Rightarrow> nat \<Rightarrow> 'a access \<Rightarrow> 'a access" where
  "checked len i p = bind_prog (fetch len) (\<lambda>n. if i \<ge> n then Raise index_error else p)"

definition mark_open_p :: "nat \<Rightarrow> unit access" where
  "mark_open_p i = checked (\<lambda>r. length (s_active (r_sched r))) i
     (bind_prog (modify (on_sched (\<lambda>s. s\<lparr>s_active := (s_active s)[i := s_active s ! i + 1]\<rparr>))) (\<lambda>_.
      modify (on_sched (\<lambda>s. s\<lparr>s_total := (s_total s)[i := s_total s ! i + 1]\<rparr>))))"

definition mark_closed_p :: "nat \<Rightarrow> unit access" where
  "mark_closed_p i = checked (\<lambda>r. length (s_active (r_sched r))) i
     (modify (on_sched (\<lambda>s. s\<lparr>s_active := (s_active s)[i := saturating_dec (s_active s ! i)]\<rparr>)))"

definition mark_failure_p :: "nat \<Rightarrow> unit access" where
  "mark_failure_p i = checked (\<lambda>r. length (s_errors (r_sched r))) i
     (bind_prog (modify (on_sched (\<lambda>s. s\<lparr>s_errors := (s_errors s)[i := s_errors s ! i + 1]\<rparr>))) (\<lambda>_.
      modify (on_sched (\<lambda>s. s\<lparr>s_failures := (s_failures s)[i := s_failures s ! i + 1]\<rparr>))))"

definition state_p :: "nat \<Rightarrow> backend_state access" where
  "state_p i = checked (\<lambda>r. length (s_states (r_sched r))) i (fetch (\<lambda>r. s_states (r_sched r) ! i))"

definition consecutive_failures_p :: "nat \<Rightarrow> u32 access" where
  "consecutive_failures_p i =
     checked (\<lambda>r. length (s_failures (r_sched r))) i (fetch (\<lambda>r. s_failures (r_sched r) ! i))"

definition endpoint_p :: "nat \<Rightarrow> endpoint access" where
  "endpoint_p i = checked (\<lambda>r. length (s_backends (r_sched r))) i (fetch (\<lambda>r. s_backends (r_sched r) ! i))"

definition set_state_p :: "nat \<Rightarrow> backend_state \<Rightarrow> unit access" where
  "set_state_p i st = checked (\<lambda>r. length (s_states (r_sched r))) i
     (modify (on_sched (\<lambda>s. s\<lparr>s_states := (s_states s)[i := st]\<rparr>)))"

definition mark_healthy_p :: "nat \<Rightarrow> unit access" where
  "mark_healthy_p i = checked (\<lambda>r. length (s_states (r_sched r))) i
     (bind_prog (modify (on_sched (\<lambda>s. s\<lparr>s_failures := (s_failures s)[i := 0]\<rparr>))) (\<lambda>_.
      bind_prog (state_p i) (\<lambda>st. if st = Down then set_state_p i Up else Return ())))"

section \<open>Accesses of a selection\<close>

text \<open>The index is in range: \<open>state\<close> does not throw, and \<open>routable\<close> is its one load.\<close>

definition routable_p :: "nat \<Rightarrow> bool access" where
  "routable_p i = fetch (\<lambda>r. routable (r_sched r) i)"

definition active_p :: "nat \<Rightarrow> u64 access" where
  "active_p i = fetch (\<lambda>r. s_active (r_sched r) ! i)"

text \<open>\<open>!\<close> and \<open>&&\<close>: the right operand is evaluated only when the left one holds.\<close>

definition negated :: "bool access \<Rightarrow> bool access" where
  "negated p = bind_prog p (\<lambda>b. Return (\<not> b))"

definition both :: "bool access \<Rightarrow> bool access \<Rightarrow> bool access" where
  "both p q = bind_prog p (\<lambda>b. if b then q else Return False)"

fun rr_p :: "nat \<Rightarrow> u64 \<Rightarrow> nat list \<Rightarrow> nat option access" where
  "rr_p n start [] = Return None"
| "rr_p n start (offset # rest) =
     (let index = unat (start + of_nat offset) mod n in
      bind_prog (routable_p index) (\<lambda>up. if up then Return (Some index) else rr_p n start rest))"

fun p2c_p :: "(nat \<Rightarrow> nat) \<Rightarrow> nat \<Rightarrow> nat \<Rightarrow> nat option access" where
  "p2c_p draw k 0 = Return None"
| "p2c_p draw k (Suc m) =
     (let first = draw (2 * k); second = draw (2 * k + 1) in
      bind_prog (both (negated (routable_p first)) (negated (routable_p second))) (\<lambda>neither.
      if neither then p2c_p draw (Suc k) m
      else bind_prog (both (routable_p first) (negated (routable_p second))) (\<lambda>only_first.
      if only_first then Return (Some first)
      else bind_prog (both (negated (routable_p first)) (routable_p second)) (\<lambda>only_second.
      if only_second then Return (Some second)
      else bind_prog (active_p first) (\<lambda>a. bind_prog (active_p second) (\<lambda>b.
        Return (Some (if a \<le> b then first else second))))))))"

fun lc_p :: "nat list \<Rightarrow> nat option \<Rightarrow> nat option access" where
  "lc_p [] selected = Return selected"
| "lc_p (i # rest) selected =
     bind_prog (routable_p i) (\<lambda>up.
     if \<not> up then lc_p rest selected
     else case selected of
         None \<Rightarrow> lc_p rest (Some i)
       | Some j \<Rightarrow> bind_prog (active_p i) (\<lambda>a. bind_prog (active_p j) (\<lambda>b.
           lc_p rest (if a < b then Some i else selected))))"

definition select_p :: "(nat \<Rightarrow> nat) \<Rightarrow> selected_backend option access" where
  "select_p draw =
     bind_prog (fetch (\<lambda>r. (s_backends (r_sched r), s_policy (r_sched r), length (s_active (r_sched r)))))
       (\<lambda>(backends, policy, size).
     let chosen = (\<lambda>i. \<lparr>sel_index = i, sel_endpoint = backends ! i\<rparr>) in
     if backends = [] then Return None
     else if policy = RoundRobin then
       bind_prog (fetch_modify (\<lambda>r. s_next (r_sched r)) (on_sched (\<lambda>s. s\<lparr>s_next := s_next s + 1\<rparr>))) (\<lambda>start.
       bind_prog (rr_p (length backends) start [0..<length backends]) (\<lambda>i. Return (map_option chosen i)))
     else
       bind_prog (if policy = PowerOfTwoChoices \<and> length backends > 1
           then p2c_p (\<lambda>k. draw k mod length backends) 0 (length backends * 2) else Return None) (\<lambda>pick.
       case pick of
         Some i \<Rightarrow> Return (Some (chosen i))
       | None \<Rightarrow> bind_prog (lc_p [0..<size] None) (\<lambda>i. Return (map_option chosen i))))"

section \<open>Accesses of the runtime\<close>

definition record_connection_open_p :: "nat \<Rightarrow> unit access" where
  "record_connection_open_p i =
     bind_prog (mark_open_p i) (\<lambda>_.
     bind_prog (fetch_modify (\<lambda>r. m_active (r_metrics r) + 1) (on_metrics (\<lambda>m. m\<lparr>m_active := m_active m + 1\<rparr>))) (\<lambda>active.
     bind_prog (modify (on_metrics (\<lambda>m. m\<lparr>m_total := m_total m + 1\<rparr>))) (\<lambda>_.
     modify (on_metrics (\<lambda>m. m\<lparr>m_peak := update_peak active (m_peak m)\<rparr>)))))"

definition record_connection_close_p :: "nat \<Rightarrow> unit access" where
  "record_connection_close_p i =
     bind_prog (mark_closed_p i) (\<lambda>_.
     modify (on_metrics (\<lambda>m. m\<lparr>m_active := saturating_dec (m_active m)\<rparr>)))"

definition backend_p :: "nat \<Rightarrow> (backend_runtime \<Rightarrow> backend_runtime) \<Rightarrow> unit access" where
  "backend_p i f = checked (\<lambda>r. length (r_backends r)) i
     (modify (\<lambda>r. r\<lparr>r_backends := (r_backends r)[i := f (r_backends r ! i)]\<rparr>))"

definition record_bytes_from_client_p :: "nat \<Rightarrow> u64 \<Rightarrow> unit access" where
  "record_bytes_from_client_p i count =
     bind_prog (modify (on_metrics (\<lambda>m. m\<lparr>m_bytes_clients := m_bytes_clients m + count\<rparr>))) (\<lambda>_.
     backend_p i (\<lambda>b. b\<lparr>b_bytes_client := b_bytes_client b + count\<rparr>))"

definition record_bytes_from_backend_p :: "nat \<Rightarrow> u64 \<Rightarrow> unit access" where
  "record_bytes_from_backend_p i count =
     bind_prog (modify (on_metrics (\<lambda>m. m\<lparr>m_bytes_backends := m_bytes_backends m + count\<rparr>))) (\<lambda>_.
     backend_p i (\<lambda>b. b\<lparr>b_bytes_backend := b_bytes_backend b + count\<rparr>))"

definition record_backend_failure_p :: "nat \<Rightarrow> unit access" where
  "record_backend_failure_p i =
     bind_prog (modify (on_metrics (\<lambda>m. m\<lparr>m_errors := m_errors m + 1\<rparr>))) (\<lambda>_. mark_failure_p i)"

definition record_connect_latency_p :: "nat \<Rightarrow> u64 \<Rightarrow> unit access" where
  "record_connect_latency_p i latency = backend_p i (\<lambda>b. b\<lparr>b_latency_us := latency\<rparr>)"

definition set_backend_state_p :: "nat \<Rightarrow> backend_state \<Rightarrow> unit access" where
  "set_backend_state_p i st = set_state_p i st"

text \<open>
  The check that follows a failure, in \<open>Worker::maybe_eject\<close> and in the health thread: the number of
  failures is loaded, and only then the state is stored.
\<close>

definition eject_p :: "nat \<Rightarrow> unit access" where
  "eject_p i =
     bind_prog (consecutive_failures_p i) (\<lambda>failures.
     bind_prog (fetch (\<lambda>r. passive_failure_threshold (r_config r))) (\<lambda>threshold.
     if failures \<ge> threshold then set_backend_state_p i Down else Return ()))"

section \<open>Accesses of the health thread\<close>

definition health_report_p :: "nat \<Rightarrow> bool \<Rightarrow> u64 \<Rightarrow> unit access" where
  "health_report_p i ok latency =
     (if ok then bind_prog (record_connect_latency_p i latency) (\<lambda>_. mark_healthy_p i)
      else bind_prog (record_backend_failure_p i) (\<lambda>_. eject_p i))"

text \<open>
  The probe itself touches nothing shared and takes up to the health timeout: any number of accesses
  of other threads come between the load of the state and the report. The kernel is the thread's own.
\<close>

definition with_kern :: "kern \<Rightarrow> 'a access \<Rightarrow> (runtime, exn \<times> kern, 'a) prog" where
  "with_kern k p = map_prog (\<lambda>e. (e, k)) (\<lambda>a. a) p"

definition health_check_p :: "nat \<Rightarrow> kern \<Rightarrow> (runtime, exn \<times> kern, kern) prog" where
  "health_check_p i k =
     bind_prog (with_kern k (state_p i)) (\<lambda>st.
     if st = Draining then Return k
     else bind_prog (with_kern k (endpoint_p i)) (\<lambda>e.
       bind_prog (fetch (\<lambda>r. health_timeout_ms (r_config r))) (\<lambda>timeout.
       case tcp_probe e timeout k of
         (Inl ex, k1) \<Rightarrow> Raise (ex, k1)
       | (Inr (ok, latency), k1) \<Rightarrow>
           bind_prog (with_kern k1 (health_report_p i ok (case latency of None \<Rightarrow> 0 | Some x \<Rightarrow> x))) (\<lambda>_. Return k1))))"

section \<open>Without interference they are the operations\<close>

lemmas runtime_p_defs = record_connection_open_p_def record_connection_close_p_def backend_p_def
  record_bytes_from_client_p_def record_bytes_from_backend_p_def record_backend_failure_p_def
  record_connect_latency_p_def set_backend_state_p_def mark_open_p_def mark_closed_p_def
  mark_failure_p_def mark_healthy_p_def set_state_p_def state_p_def consecutive_failures_p_def
  endpoint_p_def

lemma run_checked:
  "run (checked len i p) r = (if i \<ge> len r then (Inl index_error, r) else run p r)"
  by (simp add: checked_def run_bind)

text \<open>The result of an operation that returns nothing, as a run.\<close>

definition as_run :: "'s out \<Rightarrow> (exn + unit) \<times> 's" where
  "as_run out = (case out of Ok s \<Rightarrow> (Inr (), s) | Throw e s \<Rightarrow> (Inl e, s))"

lemma as_run_simps [simp]: "as_run (Ok s) = (Inr (), s)" "as_run (Throw e s) = (Inl e, s)"
  by (simp_all add: as_run_def)

lemma as_run_chain:
  "as_run (chain out f) = (case as_run out of (Inl e, s) \<Rightarrow> (Inl e, s) | (Inr _, s) \<Rightarrow> as_run (f s))"
  by (cases out) simp_all

lemmas run_eval = run_bind run_checked on_sched_def on_metrics_def runtime_op_defs count_open_def
  scheduler_op_defs Let_def

lemma run_runtime:
  "run (record_connection_open_p i) r = as_run (record_connection_open i r)"
  "run (record_connection_close_p i) r = as_run (record_connection_close i r)"
  "run (record_bytes_from_client_p i n) r = as_run (record_bytes_from_client i n r)"
  "run (record_bytes_from_backend_p i n) r = as_run (record_bytes_from_backend i n r)"
  "run (record_backend_failure_p i) r = as_run (record_backend_failure i r)"
  "run (record_connect_latency_p i l) r = as_run (record_connect_latency i l r)"
  "run (set_backend_state_p i st) r = as_run (set_backend_state i st r)"
  by (simp_all add: runtime_p_defs run_eval)

lemma run_state:
  "run (state_p i) r = (state_at (r_sched r) i, r)"
  "run (consecutive_failures_p i) r = (consecutive_failures (r_sched r) i, r)"
  "run (endpoint_p i) r = (backend_endpoint (r_sched r) i, r)"
  by (simp_all add: runtime_p_defs run_eval accessor_defs checked_get_def)

lemma run_healthy: "run (mark_healthy_p i) r = as_run (heal_backend i r)"
  by (auto simp: mark_healthy_p_def set_state_p_def state_p_def run_eval accessor_defs)

lemma run_eject:
  "run (eject_p i) r = as_run (case consecutive_failures (r_sched r) i of
     Inl e \<Rightarrow> Throw e r
   | Inr n \<Rightarrow> if n \<ge> passive_failure_threshold (r_config r) then set_backend_state i Down r else Ok r)"
  by (auto simp: eject_p_def run_bind run_state run_runtime split: sum.splits)

lemma run_short_circuit:
  "run (negated p) r = (case run p r of (Inl e, t) \<Rightarrow> (Inl e, t) | (Inr b, t) \<Rightarrow> (Inr (\<not> b), t))"
  "run (both p q) r = (case run p r of (Inl e, t) \<Rightarrow> (Inl e, t)
    | (Inr b, t) \<Rightarrow> if b then run q t else (Inr False, t))"
  by (simp_all add: negated_def both_def run_bind split: prod.splits sum.splits)

lemma run_load [simp]:
  "run (routable_p i) r = (Inr (routable (r_sched r) i), r)"
  "run (active_p i) r = (Inr (s_active (r_sched r) ! i), r)"
  by (simp_all add: routable_p_def active_p_def)

lemma run_rr:
  "run (rr_p (length (s_backends (r_sched r))) start ks) r =
    (Inr (find (routable (r_sched r)) (map (rr_index (r_sched r) start) ks)), r)"
  by (induction ks) (simp_all add: run_bind Let_def rr_index_def)

lemma run_p2c: "run (p2c_p draw k m) r = (Inr (p2c_scan (r_sched r) draw k m), r)"
proof (induction m arbitrary: k)
  case (Suc m)
  then show ?case
    by (cases "routable (r_sched r) (draw (2 * k))"; cases "routable (r_sched r) (draw (2 * k + 1))")
      (simp_all add: run_bind run_short_circuit Let_def)
qed simp

lemma run_lc: "run (lc_p is selected) r = (Inr (foldl (lc_better (r_sched r)) selected is), r)"
proof (induction "is" arbitrary: selected)
  case (Cons i rest)
  then show ?case by (cases selected) (simp_all add: run_bind lc_better_def)
qed simp

lemma run_select:
  "run (select_p draw) r =
    (Inr (fst (select draw (r_sched r))), r\<lparr>r_sched := snd (select draw (r_sched r))\<rparr>)"
proof -
  let ?s = "r_sched r"
  have rr: "run (rr_p (length (s_backends ?s)) start ks) (on_sched f r) =
      (Inr (find (routable ?s) (map (rr_index ?s start) ks)), on_sched f r)"
    if "\<And>s. s_backends (f s) = s_backends s \<and> s_states (f s) = s_states s" for f start ks
    using run_rr [of "on_sched f r" start ks] that
    by (simp add: on_sched_def routable_iff [abs_def] rr_index_def [abs_def])
  have d: "(\<lambda>k. draw k mod length (s_backends ?s)) = drawn ?s draw" by (simp add: drawn_def [abs_def])
  show ?thesis
  proof (cases "s_policy ?s = PowerOfTwoChoices \<and> length (s_backends ?s) > 1")
    case True
    then show ?thesis
      by (cases "p2c_scan ?s (drawn ?s draw) 0 (length (s_backends ?s) * 2)")
        (auto simp: select_p_def run_bind run_p2c run_lc d select_def lc_scan_def selected_at_def [abs_def])
  next
    case False
    then show ?thesis
      by (auto simp: select_p_def run_bind run_lc rr select_def rr_scan_def lc_scan_def
          selected_at_def [abs_def])
        (simp_all add: on_sched_def)
  qed
qed

text \<open>The thread's own result and kernel, with the shared runtime, as the result of the operation.\<close>

definition probe_end :: "((exn \<times> kern) + kern) \<times> runtime \<Rightarrow> prober out" where
  "probe_end x = (case x of
     (Inr k, r) \<Rightarrow> Ok \<lparr>h_rt = r, h_kern = k\<rparr>
   | (Inl (e, k), r) \<Rightarrow> Throw e \<lparr>h_rt = r, h_kern = k\<rparr>)"

lemma run_report:
  "health_report i ok l \<lparr>h_rt = r, h_kern = k\<rparr> =
    probe_end (run (bind_prog (with_kern k (health_report_p i ok l)) (\<lambda>_. Return k)) r)"
proof -
  have p: "probed f \<lparr>h_rt = r, h_kern = k\<rparr> = map_out (\<lambda>r. \<lparr>h_rt = r, h_kern = k\<rparr>) (f r)" for f r
    by (simp add: probed_def)
  show ?thesis
    by (cases "record_connect_latency i l r"; cases "record_backend_failure i r")
      (auto simp: health_report_def p health_report_p_def with_kern_def run_bind run_map run_runtime
        run_healthy run_eject as_run_def map_out_def probe_end_def split: out.splits sum.splits)
qed

lemma run_check:
  "health_check i \<lparr>h_rt = r, h_kern = k\<rparr> = probe_end (run (health_check_p i k) r)"
  by (auto simp: health_check_def health_check_p_def with_kern_def run_bind run_map run_state probe_end_def
      run_report with_kern_def split: sum.splits backend_state.splits prod.splits)

end
