(* ===== verification/LB_Races.thy ===== *)
theory LB_Races
  imports LB_Access
begin

text \<open>
  What other threads can do between the accesses of one operation. Round-robin and
  least-connections only return a backend that they saw up while they ran. Power-of-two-choices
  loads the same states several times and may return a backend that was never up; the operations
  that load a state or a count and then store a state can undo what happened in between. All of
  these are impossible when operations run one after the other.
\<close>

section \<open>What a selection has seen\<close>

lemma watch_fetch:
  "watch (bind_prog (fetch f) g) rs = Some x \<longleftrightarrow> (\<exists>r rest. rs = r # rest \<and> watch (g (f r)) rest = Some x)"
  by (cases rs) (simp_all add: fetch_def)

lemma watch_fetch_modify:
  "watch (bind_prog (fetch_modify f u) g) rs = Some x \<longleftrightarrow> (\<exists>r rest. rs = r # rest \<and> watch (g (f r)) rest = Some x)"
  by (cases rs) (simp_all add: fetch_modify_def)

lemma watch_bind:
  "watch (bind_prog p f) rs = Some (Inr y) \<Longrightarrow>
    \<exists>a us vs. rs = us @ vs \<and> watch p us = Some (Inr a) \<and> watch (f a) vs = Some (Inr y)"
proof (induction p arbitrary: rs)
  case (Return a)
  then show ?case by (intro exI [of _ a] exI [of _ "[]"] exI [of _ rs]) simp
next
  case (Access u k)
  then obtain r rest where rs: "rs = r # rest" by (cases rs) simp_all
  with Access.prems have "watch (bind_prog (k r) f) rest = Some (Inr y)" by simp
  from Access.IH [OF rangeI this] obtain a us vs where
    "rest = us @ vs" "watch (k r) us = Some (Inr a)" "watch (f a) vs = Some (Inr y)" by blast
  with rs show ?case by (intro exI [of _ a] exI [of _ "r # us"] exI [of _ vs]) simp
qed simp

lemma rr_saw_up:
  "watch (rr_p n start ks) rs = Some (Inr (Some i)) \<Longrightarrow> \<exists>r \<in> set rs. routable (r_sched r) i"
  by (induction ks arbitrary: rs) (auto simp: Let_def routable_p_def watch_fetch split: if_splits)

lemma lc_saw_up:
  "watch (lc_p is selected) rs = Some (Inr (Some i)) \<Longrightarrow> selected = Some i \<or> (\<exists>r \<in> set rs. routable (r_sched r) i)"
proof (induction "is" arbitrary: selected rs)
  case (Cons j rest)
  show ?case
  proof (cases selected)
    case None
    with Cons show ?thesis
      by (fastforce simp: routable_p_def watch_fetch split: if_splits)
  next
    case (Some k)
    with Cons show ?thesis
      by (fastforce simp: routable_p_def active_p_def watch_fetch split: if_splits)
  qed
qed simp

text \<open>
  C40. A selection under interference. Whatever the other threads do between its accesses, a backend that
  round-robin or least-connections returns was up at one of the moments at which the call looked.
\<close>

theorem select_saw_up:
  assumes "watch (select_p draw) rs = Some (Inr (Some b))"
    and "\<forall>r \<in> set rs. s_policy (r_sched r) \<noteq> PowerOfTwoChoices"
  shows "\<exists>r \<in> set rs. routable (r_sched r) (sel_index b)"
proof -
  from assms(1) obtain r rest where rs: "rs = r # rest" by (cases rs) (auto simp: select_p_def fetch_def)
  let ?s = "r_sched r"
  have pol: "s_policy ?s \<noteq> PowerOfTwoChoices" using assms(2) rs by simp
  show ?thesis
  proof (cases "s_policy ?s = RoundRobin")
    case True
    with assms(1) obtain q rest' where rest: "rest = q # rest'" and
      "watch (bind_prog (rr_p (length (s_backends ?s)) (s_next (r_sched q)) [0..<length (s_backends ?s)])
        (\<lambda>i. Return (map_option (\<lambda>i. \<lparr>sel_index = i, sel_endpoint = s_backends ?s ! i\<rparr>) i))) rest' = Some (Inr (Some b))"
      by (auto simp: select_p_def rs watch_fetch watch_fetch_modify Let_def split: if_splits)
    from watch_bind [OF this(2)] show ?thesis
      by (auto simp: rs rest dest!: rr_saw_up)
  next
    case False
    with assms(1) pol have
      "watch (bind_prog (lc_p [0..<length (s_active ?s)] None)
        (\<lambda>i. Return (map_option (\<lambda>i. \<lparr>sel_index = i, sel_endpoint = s_backends ?s ! i\<rparr>) i))) rest = Some (Inr (Some b))"
      by (auto simp: select_p_def rs watch_fetch Let_def split: if_splits)
    from watch_bind [OF this] show ?thesis
      by (auto simp: rs dest!: lc_saw_up)
  qed
qed

definition rr_runtime :: runtime where
  "rr_runtime = on_sched (\<lambda>_. only_last_up) (fresh_runtime 0 sample_config)"

theorem select_saw_up_witness:
  "watch (select_p (\<lambda>_. 0)) [rr_runtime, rr_runtime, rr_runtime, rr_runtime, rr_runtime] = Some (Inr (Some (selected_at only_last_up 2))) \<and>
    routable (r_sched rr_runtime) 2"
proof -
  have s: "r_sched rr_runtime = only_last_up" by (simp add: rr_runtime_def on_sched_def)
  have v: "s_policy only_last_up = RoundRobin" "length (s_backends only_last_up) = 3" "s_next only_last_up = 0"
    "s_backends only_last_up \<noteq> []" "length (s_active only_last_up) = 3"
    by (simp_all add: only_last_up_def new_scheduler_def three_backends_def)
  have up: "\<not> routable only_last_up 0" "\<not> routable only_last_up 1" "routable only_last_up 2"
    by (simp_all add: routable_iff only_last_up_def)
  have run: "watch (select_p (\<lambda>_. 0)) [rr_runtime, rr_runtime, rr_runtime, rr_runtime, rr_runtime] = Some (Inr (Some (selected_at only_last_up 2)))"
  proof -
    have "[0..<3] = [0, 1, 2]" by (simp add: upt_rec)
    then show ?thesis
      using up v by (simp add: select_p_def routable_p_def access_defs s selected_at_def Let_def)
  qed
  from select_saw_up [OF run] v(1) show ?thesis by (simp add: run s selected_at_def)
qed

section \<open>A backend that was never up\<close>

text \<open>
  C37. Power-of-two-choices can route to a backend that is not up, and was not at any time. The call draws
  a backend \<open>f\<close> that is up and a backend \<open>g\<close> that is not. Between its first and its second load of
  the state of \<open>f\<close> another thread takes \<open>f\<close> out of service. None of the three conditions then holds,
  the call takes both backends to be up and compares their connections, and \<open>g\<close> wins when it has fewer.
\<close>

theorem p2c_selects_unavailable:
  assumes "s_policy (r_sched r) = PowerOfTwoChoices" and "length (s_backends (r_sched r)) > 1"
    and "drawn (r_sched r) draw 0 = f" and "drawn (r_sched r) draw 1 = g"
    and "routable (r_sched r) f" and "\<not> routable (r_sched r) g"
    and "s_active (r_sched r) ! g < s_active (r_sched r) ! f" and "st \<noteq> Up"
  shows "\<exists>ts r'. schedule ts (r, [select_p draw, bind_prog (set_backend_state_p f st) (\<lambda>_. Return None)]) =
      (r', [Return (Some (selected_at (r_sched r) g)), Return None]) \<and>
    r' = on_sched (\<lambda>s. s\<lparr>s_states := (s_states s)[f := st]\<rparr>) r"
proof -
  let ?s = "r_sched r" and ?n = "length (s_backends (r_sched r))"
  obtain m where m: "?n * 2 = Suc m" using assms(2) by (cases ?n) simp_all
  have d: "draw 0 mod ?n = f" "draw (Suc 0) mod ?n = g" using assms(3,4) by (simp_all add: drawn_def)
  have ne: "f \<noteq> g" using assms(5,6) by auto
  have f: "f < length (s_states ?s)" "s_states ?s ! f = Up" and g: "\<not> (g < length (s_states ?s) \<and> s_states ?s ! g = Up)"
    using assms(5,6) by (simp_all add: routable_iff)
  have "s_backends ?s \<noteq> []" using assms(2) by auto
  then have "schedule [0, 0, 1, 1, 0, 0, 0, 0, 0] (r, [select_p draw, bind_prog (set_backend_state_p f st) (\<lambda>_. Return None)]) =
      (on_sched (\<lambda>s. s\<lparr>s_states := (s_states s)[f := st]\<rparr>) r, [Return (Some (selected_at ?s g)), Return None])"
    using assms(1,2,7,8) f g ne
    by (simp add: select_p_def set_backend_state_p_def set_state_p_def checked_def Let_def m d both_def negated_def
        routable_p_def active_p_def fetch_def modify_def on_sched_def routable_iff selected_at_def)
  then show ?thesis by blast
qed

text \<open>Backend 0 is up with five connections, backend 1 is draining and has none.\<close>

definition half_up :: runtime where
  "half_up = on_sched (\<lambda>s. s\<lparr>s_policy := PowerOfTwoChoices, s_active := [5, 0], s_states := [Up, Draining]\<rparr>)
     (fresh_runtime 0 sample_config)"

lemma half_up_views:
  "length (s_backends (r_sched half_up)) = 2" "s_policy (r_sched half_up) = PowerOfTwoChoices"
  "s_active (r_sched half_up) = [5, 0]" "s_states (r_sched half_up) = [Up, Draining]"
  by (simp_all add: half_up_def on_sched_def fresh_runtime_def new_runtime_def new_scheduler_def sample_config_def)

theorem p2c_selects_unavailable_witness:
  "\<exists>ts r'. schedule ts (half_up, [select_p (\<lambda>k. k), bind_prog (set_backend_state_p 0 Down) (\<lambda>_. Return None)]) =
      (r', [Return (Some (selected_at (r_sched half_up) 1)), Return None]) \<and> s_states (r_sched r') = [Down, Draining]"
proof -
  have "\<exists>ts r'. schedule ts (half_up, [select_p (\<lambda>k. k), bind_prog (set_backend_state_p 0 Down) (\<lambda>_. Return None)]) =
      (r', [Return (Some (selected_at (r_sched half_up) 1)), Return None]) \<and>
    r' = on_sched (\<lambda>s. s\<lparr>s_states := (s_states s)[0 := Down]\<rparr>) half_up"
    by (rule p2c_selects_unavailable) (simp_all add: half_up_views drawn_def routable_iff)
  then obtain ts r' where "schedule ts (half_up, [select_p (\<lambda>k. k), bind_prog (set_backend_state_p 0 Down) (\<lambda>_. Return None)]) =
      (r', [Return (Some (selected_at (r_sched half_up) 1)), Return None])"
    "r' = on_sched (\<lambda>s. s\<lparr>s_states := (s_states s)[0 := Down]\<rparr>) half_up" by blast
  then show ?thesis by (intro exI [of _ ts] exI [of _ r']) (simp add: on_sched_def half_up_views)
qed

section \<open>A drain that is lost\<close>

lemmas prog_eval = set_backend_state_p_def set_state_p_def checked_def mark_healthy_p_def mark_failure_p_def
  state_p_def endpoint_p_def consecutive_failures_p_def eject_p_def health_check_p_def health_report_p_def
  record_connect_latency_p_def record_backend_failure_p_def backend_p_def with_kern_def access_defs on_sched_def
  on_metrics_def

lemma sizes:
  assumes "wf_runtime r" "i < pool_size r"
  shows "i < length (s_states (r_sched r))" "i < length (s_failures (r_sched r))" "i < length (s_errors (r_sched r))"
    "i < length (s_backends (r_sched r))" "i < length (r_backends r)"
  using assms by (simp_all add: wf_runtime_def wf_scheduler_def pool_size_def backend_count_def)

lemma state_view_at: "i < length (s_states (r_sched r)) \<Longrightarrow> runtime_state r i = s_states (r_sched r) ! i"
  by (simp add: runtime_views scheduler_views slot_def)

lemma fails_view_at: "i < length (s_failures (r_sched r)) \<Longrightarrow> runtime_fails r i = s_failures (r_sched r) ! i"
  by (simp add: runtime_views scheduler_views slot_def)

text \<open>The store of a request of the admin server, beside a health check.\<close>

definition request_p :: "nat \<Rightarrow> backend_state \<Rightarrow> kern \<Rightarrow> (runtime, exn \<times> kern, kern) prog" where
  "request_p i st k = bind_prog (with_kern k (set_backend_state_p i st)) (\<lambda>_. Return k)"

text \<open>
  The drain arrives while the probe is on its way, and the probe fails: the ejection overwrites it.
\<close>

lemma drain_then_eject:
  assumes "wf_runtime r" "i < pool_size r" "runtime_state r i \<noteq> Draining"
    and probe: "tcp_probe (s_backends (r_sched r) ! i) (health_timeout_ms (r_config r)) k = (Inr (False, l), k1)"
    and "runtime_fails r i + 1 \<ge> passive_failure_threshold (r_config r)"
  shows "\<exists>ts r'. schedule ts (r, [health_check_p i k, request_p i Draining k]) = (r', [Return k1, Return k]) \<and>
    runtime_state r' i = Down"
  by (rule exI [of _ "[0, 0, 1, 1] @ replicate 16 0"])
    (use sizes [OF assms(1,2)] assms(3-5) in
      \<open>simp add: prog_eval request_p_def state_view_at fails_view_at numeral_eq_Suc\<close>)

text \<open>
  The drain arrives between the load of \<open>Down\<close> and the store of \<open>Up\<close> in \<open>mark_healthy\<close>.
\<close>

lemma drain_then_heal:
  assumes "wf_runtime r" "i < pool_size r" "runtime_state r i = Down"
    and probe: "tcp_probe (s_backends (r_sched r) ! i) (health_timeout_ms (r_config r)) k = (Inr (True, l), k1)"
  shows "\<exists>ts r'. schedule ts (r, [health_check_p i k, request_p i Draining k]) = (r', [Return k1, Return k]) \<and>
    runtime_state r' i = Up"
  by (rule exI [of _ "replicate 11 0 @ [1, 1, 0, 0]"])
    (use sizes [OF assms(1,2)] assms(3,4) in
      \<open>simp add: prog_eval request_p_def state_view_at numeral_eq_Suc\<close>)

text \<open>
  C38. A drain can be lost to a health check that is in progress. When a check and the request to drain the
  same backend run one after the other, in either order, the backend is draining afterwards. When the
  request comes between the accesses of the check, both return without an exception and the backend is
  not draining: it is down when the probe failed often enough, and up, with new connections, when the
  backend was down and the probe succeeded.
\<close>

theorem drain_lost_during_check:
  assumes wf: "wf_runtime r" and i: "i < pool_size r" and st: "runtime_state r i \<noteq> Draining"
    and probe: "tcp_probe (s_backends (r_sched r) ! i) (health_timeout_ms (r_config r)) k = (Inr (ok, l), k1)"
    and due: "if ok then runtime_state r i = Down
      else runtime_fails r i + 1 \<ge> passive_failure_threshold (r_config r)"
  shows "runtime_state (snd (run (bind_prog (request_p i Draining k) (\<lambda>_. health_check_p i k)) r)) i = Draining \<and>
    runtime_state (snd (run (bind_prog (health_check_p i k) (\<lambda>_. request_p i Draining k)) r)) i = Draining \<and>
    (\<exists>ts r'. schedule ts (r, [health_check_p i k, request_p i Draining k]) = (r', [Return k1, Return k]) \<and>
      runtime_state r' i = (if ok then Up else Down))"
proof (intro conjI)
  show "runtime_state (snd (run (bind_prog (request_p i Draining k) (\<lambda>_. health_check_p i k)) r)) i = Draining"
    "runtime_state (snd (run (bind_prog (health_check_p i k) (\<lambda>_. request_p i Draining k)) r)) i = Draining"
    using sizes [OF wf i] probe by (auto simp: prog_eval request_p_def state_view_at)
  show "\<exists>ts r'. schedule ts (r, [health_check_p i k, request_p i Draining k]) = (r', [Return k1, Return k]) \<and>
      runtime_state r' i = (if ok then Up else Down)"
    using drain_then_eject [OF wf i st] drain_then_heal [OF wf i] probe due by (cases ok) auto
qed

definition first_down :: runtime where
  "first_down = on_sched (\<lambda>s. s\<lparr>s_states := [Down, Up]\<rparr>) (fresh_runtime 0 sample_config)"

lemma first_down_views: "wf_runtime first_down" "pool_size first_down = 2" "runtime_state first_down 0 = Down"
  by (simp_all add: first_down_def on_sched_def fresh_runtime_def new_runtime_def new_scheduler_def
      sample_config_def wf_runtime_def wf_scheduler_def pool_size_def backend_count_def state_view_at)

theorem drain_lost_during_check_witness:
  "\<exists>ts r' k1. schedule ts (first_down, [health_check_p 0 sample_kern, request_p 0 Draining sample_kern]) =
      (r', [Return k1, Return sample_kern]) \<and> runtime_state r' 0 = Up"
proof -
  have "s_backends (r_sched first_down) ! 0 = s_backends (r_sched (h_rt sample_prober)) ! 0"
    "r_config first_down = r_config (h_rt sample_prober)" "h_kern sample_prober = sample_kern"
    by (simp_all add: first_down_def on_sched_def sample_prober_def fresh_runtime_def new_runtime_def new_scheduler_def)
  then obtain l k1 where "tcp_probe (s_backends (r_sched first_down) ! 0) (health_timeout_ms (r_config first_down)) sample_kern =
      (Inr (True, l), k1)"
    using sample_probe by (auto simp: probe_of_def)
  from drain_lost_during_check [OF first_down_views(1) _ _ this] first_down_views show ?thesis by fastforce
qed

text \<open>
  C39. A stale count of failures can eject a healthy backend. When a check of the failures and a success
  follow each other, in either order, the backend is up and has no failures. When the success comes
  between the load of the failures and the store of the state, the backend ends up down with no failures.
\<close>

theorem eject_after_heal:
  assumes wf: "wf_runtime r" and i: "i < pool_size r" and st: "runtime_state r i = Up"
    and th: "runtime_fails r i \<ge> passive_failure_threshold (r_config r)" "passive_failure_threshold (r_config r) > 0"
  shows "runtime_state (snd (run (bind_prog (eject_p i) (\<lambda>_. mark_healthy_p i)) r)) i = Up \<and>
    runtime_state (snd (run (bind_prog (mark_healthy_p i) (\<lambda>_. eject_p i)) r)) i = Up \<and>
    (\<exists>ts r'. schedule ts (r, [eject_p i, mark_healthy_p i]) = (r', [Return (), Return ()]) \<and>
      runtime_state r' i = Down \<and> runtime_fails r' i = 0)"
proof (intro conjI)
  note sz = sizes [OF wf i]
  show "runtime_state (snd (run (bind_prog (eject_p i) (\<lambda>_. mark_healthy_p i)) r)) i = Up"
    "runtime_state (snd (run (bind_prog (mark_healthy_p i) (\<lambda>_. eject_p i)) r)) i = Up"
    using sz st th by (auto simp: prog_eval state_view_at fails_view_at)
  show "\<exists>ts r'. schedule ts (r, [eject_p i, mark_healthy_p i]) = (r', [Return (), Return ()]) \<and>
      runtime_state r' i = Down \<and> runtime_fails r' i = 0"
    by (rule exI [of _ "[0, 0, 1, 1, 1, 1, 0, 0, 0]"])
      (use sz st th in \<open>simp add: prog_eval state_view_at fails_view_at\<close>)
qed

definition failed_thrice :: runtime where
  "failed_thrice = on_sched (\<lambda>s. s\<lparr>s_failures := [3, 0]\<rparr>) (fresh_runtime 0 sample_config)"

theorem eject_after_heal_witness:
  "\<exists>ts r'. schedule ts (failed_thrice, [eject_p 0, mark_healthy_p 0]) = (r', [Return (), Return ()]) \<and>
    runtime_state r' 0 = Down \<and> runtime_fails r' 0 = 0"
proof -
  have "wf_runtime failed_thrice" "pool_size failed_thrice = 2" "runtime_state failed_thrice 0 = Up"
    "runtime_fails failed_thrice 0 = 3" "passive_failure_threshold (r_config failed_thrice) = 3"
    by (simp_all add: failed_thrice_def on_sched_def fresh_runtime_def new_runtime_def new_scheduler_def
        sample_config_def default_config_def wf_runtime_def wf_scheduler_def pool_size_def backend_count_def
        state_view_at fails_view_at)
  with eject_after_heal [of failed_thrice 0] show ?thesis by simp
qed

end
