(* ===== verification/LB_Thread.thy ===== *)
theory LB_Thread
  imports LB_Races
begin

text \<open>
  The worker of \<open>src/server.cpp\<close> at the granularity of its accesses to the shared runtime. A member
  function is a program on the worker's own state, its peers and its kernel, which no other thread
  sees; each use of the runtime is a program of \<open>LB_Access\<close>. The worker record's own runtime field
  is not used here. The equations at the end show that a program without interference is the
  function of \<open>LB_Worker\<close> of the same name.
\<close>

section \<open>The member functions as programs\<close>

type_synonym 'a work = "(runtime, exn \<times> worker, 'a) prog"

definition lift_p :: "worker \<Rightarrow> 'a access \<Rightarrow> 'a work" where
  "lift_p w p = map_prog (\<lambda>e. (e, w)) (\<lambda>a. a) p"

definition on_rt_p :: "unit access \<Rightarrow> worker \<Rightarrow> worker work" where
  "on_rt_p p w = bind_prog (lift_p w p) (\<lambda>_. Return w)"

definition config_p :: "(app_config \<Rightarrow> 'v) \<Rightarrow> 'v work" where
  "config_p f = fetch (\<lambda>r. f (r_config r))"

text \<open>A step that only uses the worker's own state, and may throw.\<close>

definition own_p :: "worker out \<Rightarrow> worker work" where
  "own_p out = (case out of Ok w \<Rightarrow> Return w | Throw e w \<Rightarrow> Raise (e, w))"

definition maybe_eject_p :: "nat \<Rightarrow> worker \<Rightarrow> worker work" where
  "maybe_eject_p i w = on_rt_p (eject_p i) w"

definition close_pair_p :: "fd \<Rightarrow> bool \<Rightarrow> worker \<Rightarrow> worker work" where
  "close_pair_p fd backend_failure w =
     (case w_peers w fd of
        None \<Rightarrow> Return w
      | Some peer \<Rightarrow>
          bind_prog (on_rt_p (record_connection_close_p (p_backend peer))
                       (close_one (p_paired peer) (close_one fd w))) (\<lambda>w.
          if backend_failure
          then bind_prog (on_rt_p (record_backend_failure_p (p_backend peer)) w) (maybe_eject_p (p_backend peer))
          else Return w))"

function flush_p :: "fd \<Rightarrow> worker \<Rightarrow> worker work" where
  "flush_p fd w =
     (case w_peers w fd of
        None \<Rightarrow> Return w
      | Some peer \<Rightarrow>
          if p_connecting peer \<or> p_sent peer \<ge> length (p_outbound peer) then
            Return (if p_sent peer \<ge> length (p_outbound peer) then put_peer fd (drained peer) w else w)
          else
            (case sys_write fd (drop (p_sent peer) (p_outbound peer)) (w_kern w) of
               (WTake n, k) \<Rightarrow>
                 if n > 0 then
                   let peer1 = peer\<lparr>p_sent := p_sent peer + n, p_last := clock_now k\<rparr>;
                       w1 = w\<lparr>w_kern := tick k\<rparr>
                   in if p_sent peer1 = length (p_outbound peer1)
                      then Return (modify_fd (p_paired peer) (put_peer fd (drained peer1) w1))
                      else flush_p fd (put_peer fd peer1 w1)
                 else close_pair_p fd (p_backend_side peer) (w\<lparr>w_kern := k\<rparr>)
             | (WAgain, k) \<Rightarrow> Return (w\<lparr>w_kern := k\<rparr>)
             | (WIntr, k) \<Rightarrow> flush_p fd (w\<lparr>w_kern := k\<rparr>)
             | (WFail, k) \<Rightarrow> close_pair_p fd (p_backend_side peer) (w\<lparr>w_kern := k\<rparr>)))"
  by pat_completeness auto
termination
  by (relation "measure (\<lambda>(fd, w). length (k_writes (w_kern w) fd))")
    (auto simp: sys_write_def tick_def put_peer_def Let_def split: list.splits write_result.splits)

declare flush_p.simps [simp del]

definition record_bytes_p :: "bool \<Rightarrow> nat \<Rightarrow> nat \<Rightarrow> unit access" where
  "record_bytes_p from_backend i n =
     (if from_backend then record_bytes_from_backend_p i (of_nat n) else record_bytes_from_client_p i (of_nat n))"

definition deliver_p :: "fd \<Rightarrow> bytes \<Rightarrow> peer \<Rightarrow> peer \<Rightarrow> worker \<Rightarrow> worker work" where
  "deliver_p fd bs source paired w =
     (let w1 = put_peer (p_paired source) (append_outbound bs (p_last source) paired) w in
      bind_prog (on_rt_p (record_bytes_p (p_backend_side source) (p_backend source) (length bs)) w1) (\<lambda>w.
      bind_prog (flush_p (p_paired source) w) (\<lambda>w.
      Return (modify_fd (p_paired source) (modify_fd fd w)))))"

text \<open>No result of a program but of \<open>read_available_p\<close> has taken from the read scripts.\<close>

definition reads_same :: "worker \<Rightarrow> worker work \<Rightarrow> bool" where
  "reads_same w p \<longleftrightarrow> (\<forall>w' \<in> results p. k_reads (w_kern w') = k_reads (w_kern w))"

lemma results_on_rt: "results (on_rt_p p w) \<subseteq> {w}"
  by (auto simp: on_rt_p_def lift_p_def results_bind)

lemma reads_same_bind:
  "reads_same w p \<Longrightarrow> (\<And>v. reads_same v (f v)) \<Longrightarrow> reads_same w (bind_prog p f)"
  by (fastforce simp: reads_same_def results_bind)

lemma reads_same_Return [simp]: "reads_same w (Return v) \<longleftrightarrow> k_reads (w_kern v) = k_reads (w_kern w)"
  by (simp add: reads_same_def)

lemma reads_same_on_rt: "k_reads (w_kern v) = k_reads (w_kern w) \<Longrightarrow> reads_same w (on_rt_p p v)"
  using results_on_rt [of p v] by (auto simp: reads_same_def)

lemma reads_same_close_pair:
  "k_reads (w_kern v) = k_reads (w_kern w) \<Longrightarrow> reads_same w (close_pair_p fd b v)"
  by (auto simp: close_pair_p_def maybe_eject_p_def intro!: reads_same_bind reads_same_on_rt split: option.split)

lemma reads_same_flush: "reads_same w (flush_p fd w)"
proof (induction fd w rule: flush_p.induct)
  case (1 fd w)
  show ?case
  proof (cases "w_peers w fd")
    case (Some p)
    obtain r k where wr: "sys_write fd (drop (p_sent p) (p_outbound p)) (w_kern w) = (r, k)" by fastforce
    note IH = "1.IH" [OF Some _ wr [symmetric]]
    have k: "k_reads k = k_reads (w_kern w)" by (rule reads_write [OF wr])
    have close: "reads_same w (close_pair_p fd b (w\<lparr>w_kern := k\<rparr>))" for b
      by (rule reads_same_close_pair) (simp add: k)
    show ?thesis
    proof (cases "p_connecting p \<or> p_sent p \<ge> length (p_outbound p)")
      case True
      with Some show ?thesis by (simp add: flush_p.simps [of fd w])
    next
      case False
      with Some wr IH k close show ?thesis
        by (cases r) (simp_all add: flush_p.simps [of fd w] Let_def tick_def reads_same_def)
    qed
  qed (simp add: flush_p.simps [of fd w])
qed

lemma reads_same_deliver: "reads_same w (deliver_p fd bs source paired w)"
  unfolding deliver_p_def Let_def
  by (intro reads_same_bind reads_same_on_rt reads_same_flush) simp_all

function read_available_p :: "fd \<Rightarrow> worker \<Rightarrow> worker work" where
  "read_available_p fd w =
     (case w_peers w fd of
        None \<Rightarrow> Return w
      | Some peer \<Rightarrow>
          (case sys_read fd (w_kern w) of
             (RData bs, k) \<Rightarrow>
               if bs = [] then close_pair_p fd False (w\<lparr>w_kern := k\<rparr>)
               else
                 let source = peer\<lparr>p_last := clock_now k\<rparr>;
                     w1 = put_peer fd source (w\<lparr>w_kern := tick k\<rparr>)
                 in (case w_peers w1 (p_paired source) of
                       None \<Rightarrow> close_pair_p fd False w1
                     | Some paired \<Rightarrow>
                         bind_prog (deliver_p fd bs source paired w1) (\<lambda>w2.
                           if outbound_full (p_paired source) w2 then Return w2
                           else read_available_p fd w2))
           | (RAgain, k) \<Rightarrow> Return (w\<lparr>w_kern := k\<rparr>)
           | (RIntr, k) \<Rightarrow> read_available_p fd (w\<lparr>w_kern := k\<rparr>)
           | (RFail, k) \<Rightarrow> close_pair_p fd (p_backend_side peer) (w\<lparr>w_kern := k\<rparr>)))"
  by pat_completeness auto
termination
proof (relation "measure (\<lambda>(fd, w). length (k_reads (w_kern w) fd))", goal_cases)
  case (2 fd w p r k bs source w1 paired w2)
  have "k_reads (w_kern w2) = k_reads k"
    using reads_same_deliver [of w1 fd bs source paired] 2(8)
    by (simp add: reads_same_def 2(6) put_peer_def tick_def)
  with 2(2,3) show ?case by (auto simp: sys_read_def split: list.splits)
qed (auto simp: sys_read_def split: list.splits)

declare read_available_p.simps [simp del]

definition finish_connect_p :: "fd \<Rightarrow> worker \<Rightarrow> worker work" where
  "finish_connect_p fd w =
     (case w_peers w fd of
        None \<Rightarrow> Return w
      | Some peer \<Rightarrow>
          if k_soerror (w_kern w) (k_calls (w_kern w)) \<noteq> Some 0
          then close_pair_p fd True (on_kern tick w)
          else
            let w1 = on_kern tick w;
                now = clock_now (w_kern w1);
                peer1 = connected now peer;
                w2 = put_peer fd peer1 (on_kern tick w1)
            in bind_prog (on_rt_p (record_connect_latency_p (p_backend peer1)
                              (latency_us (p_last peer1 - p_started peer1))) w2) (\<lambda>w.
               bind_prog (on_rt_p (mark_healthy_p (p_backend peer1)) w) (\<lambda>w.
               bind_prog (flush_p fd w) (\<lambda>w.
               Return (modify_fd fd w)))))"

text \<open>\<open>attach_backend\<close> once the backend is selected.\<close>

definition attached_p :: "fd \<Rightarrow> selected_backend option \<Rightarrow> worker \<Rightarrow> worker work" where
  "attached_p client_fd selected w =
     (case selected of
        None \<Rightarrow> Return (on_kern (sys_close client_fd) w)
      | Some b \<Rightarrow>
          (case connect_backend (sel_endpoint b) (w_kern w) of
             (Inl e, k) \<Rightarrow> Raise (e, w\<lparr>w_kern := k\<rparr>)
           | (Inr None, k) \<Rightarrow>
               bind_prog (on_rt_p (record_backend_failure_p (sel_index b)) (w\<lparr>w_kern := k\<rparr>)) (\<lambda>w.
               bind_prog (maybe_eject_p (sel_index b) w) (\<lambda>w.
               Return (on_kern (sys_close client_fd) w)))
           | (Inr (Some backend_fd), k) \<Rightarrow>
               let now = clock_now k in
               bind_prog (config_p connect_timeout_ms) (\<lambda>connect_timeout.
               let deadline = now + milliseconds connect_timeout in
               bind_prog (on_rt_p (record_connection_open_p (sel_index b)) (w\<lparr>w_kern := tick k\<rparr>)) (\<lambda>w.
               let w1 = emplace client_fd
                          (new_peer client_fd backend_fd (sel_index b) False False now deadline) w;
                   w2 = emplace backend_fd
                          (new_peer backend_fd client_fd (sel_index b) True True now deadline) w1
               in bind_prog (own_p (add_fd client_fd (EPOLLIN OR EPOLLERR OR EPOLLHUP OR EPOLLRDHUP) w2)) (\<lambda>w.
                  own_p (add_fd backend_fd (EPOLLOUT OR EPOLLERR OR EPOLLHUP OR EPOLLRDHUP) w))))))"

definition attach_backend_p :: "fd \<Rightarrow> worker \<Rightarrow> worker work" where
  "attach_backend_p client_fd w =
     bind_prog (lift_p w (select_p (k_draw (w_kern w) (k_calls (w_kern w))))) (\<lambda>selected.
     attached_p client_fd selected (on_kern tick w))"

definition accepts_same :: "worker \<Rightarrow> worker work \<Rightarrow> bool" where
  "accepts_same w p \<longleftrightarrow> (\<forall>w' \<in> results p. k_accepts (w_kern w') = k_accepts (w_kern w))"

lemma accepts_same_bind:
  "accepts_same w p \<Longrightarrow> (\<And>v. accepts_same v (f v)) \<Longrightarrow> accepts_same w (bind_prog p f)"
  by (fastforce simp: accepts_same_def results_bind)

lemma accepts_same_own:
  "k_accepts (w_kern v) = k_accepts (w_kern w) \<Longrightarrow> accepts_same w (Return v)"
  "k_accepts (w_kern v) = k_accepts (w_kern w) \<Longrightarrow> accepts_same w (on_rt_p p v)"
  "k_accepts (w_kern v) = k_accepts (w_kern w) \<Longrightarrow> accepts_same w (maybe_eject_p i v)"
  "k_accepts (w_kern (state_of out)) = k_accepts (w_kern w) \<Longrightarrow> accepts_same w (own_p out)"
  "accepts_same w (Raise x)"
  using results_on_rt by (cases out; force simp: accepts_same_def maybe_eject_p_def own_p_def)+

lemma accepts_same_attached: "accepts_same w (attached_p c sel w)"
proof -
  have step: "accepts_same w (bind_prog (config_p f) g)" if "\<And>x. accepts_same w (g x)" for f :: "app_config \<Rightarrow> u32" and g
    using that by (auto simp: accepts_same_def results_bind)
  have reject: "accepts_same w (bind_prog (on_rt_p p (w\<lparr>w_kern := k\<rparr>)) (\<lambda>w.
      bind_prog (maybe_eject_p i w) (\<lambda>w. Return (on_kern (sys_close c) w))))"
    if "k_accepts k = k_accepts (w_kern w)" for p k i
    using that by (intro accepts_same_bind accepts_same_own) simp_all
  have new: "accepts_same w (bind_prog (on_rt_p p (w\<lparr>w_kern := tick k\<rparr>)) (\<lambda>w.
      bind_prog (own_p (add_fd f1 e1 (emplace g2 q2 (emplace g1 q1 w)))) (\<lambda>w. own_p (add_fd f2 e2 w))))"
    if "k_accepts k = k_accepts (w_kern w)" for p k f1 e1 g1 q1 g2 q2 f2 e2
    using that by (intro accepts_same_bind accepts_same_own) simp_all
  show ?thesis
    by (auto simp: attached_p_def Let_def split: option.split sum.split prod.split dest!: accepts_connect
        intro!: step reject new accepts_same_own)
qed

lemma accepts_same_attach: "accepts_same w (attach_backend_p c w)"
  using accepts_same_attached [of "on_kern tick w" c] by (simp add: accepts_same_def attach_backend_p_def results_bind)

function accept_clients_p :: "worker \<Rightarrow> worker work" where
  "accept_clients_p w =
     (case sys_accept (w_kern w) of
        (AAgain, _, k) \<Rightarrow> Return (w\<lparr>w_kern := k\<rparr>)
      | (AIntr, _, k) \<Rightarrow> accept_clients_p (w\<lparr>w_kern := k\<rparr>)
      | (AFail, _, k) \<Rightarrow> Return (w\<lparr>w_kern := k\<rparr>)
      | (AClient, client_fd, k) \<Rightarrow>
          bind_prog (attach_backend_p client_fd (w\<lparr>w_kern := k\<rparr>)) accept_clients_p)"
  by pat_completeness auto
termination
  by (relation "measure (\<lambda>w. length (k_accepts (w_kern w)))")
    (auto dest!: sym [of "(_, _, _)"] accepts_same_attach [unfolded accepts_same_def, rule_format]
      dest: accepts_sys_accept)

declare accept_clients_p.simps [simp del]

fun close_expired_p :: "(fd \<times> bool) list \<Rightarrow> worker \<Rightarrow> worker work" where
  "close_expired_p [] w = Return w"
| "close_expired_p ((fd, backend_failure) # rest) w =
     bind_prog (on_rt_p (modify (if backend_failure then count_connect_timeout else count_idle_timeout)) w) (\<lambda>w.
     bind_prog (close_pair_p fd backend_failure w) (close_expired_p rest))"

definition reap_timeouts_p :: "worker \<Rightarrow> worker work" where
  "reap_timeouts_p w =
     (let now = clock_now (w_kern w) in
      bind_prog (config_p idle_timeout_ms) (\<lambda>idle_timeout.
      let order = k_order (w_kern w) (dom (w_peers w))
      in close_expired_p (expired_list (w_peers w) now (milliseconds idle_timeout) order) (on_kern tick w)))"

definition handle_event_p :: "event \<Rightarrow> worker \<Rightarrow> worker work" where
  "handle_event_p ev w =
     (case ev of (fd, flags) \<Rightarrow>
        if fd = w_listener w then accept_clients_p w
        else if fd = w_timer w then reap_timeouts_p (on_kern (consume_timer fd) w)
        else case w_peers w fd of
            None \<Rightarrow> Return w
          | Some peer \<Rightarrow>
              if has_flag flags (EPOLLERR OR EPOLLHUP OR EPOLLRDHUP)
              then close_pair_p fd (p_backend_side peer) w
              else
                bind_prog (if p_connecting peer \<and> has_flag flags EPOLLOUT then finish_connect_p fd w else Return w) (\<lambda>w.
                bind_prog (if w_peers w fd \<noteq> None \<and> has_flag flags EPOLLIN then read_available_p fd w else Return w) (\<lambda>w.
                if w_peers w fd \<noteq> None \<and> has_flag flags EPOLLOUT then flush_p fd w else Return w)))"

fun close_all_p :: "fd list \<Rightarrow> worker \<Rightarrow> worker work" where
  "close_all_p [] w = Return w"
| "close_all_p (fd # fds) w = bind_prog (close_pair_p fd False w) (close_all_p fds)"

definition shutdown_p :: "worker \<Rightarrow> worker work" where
  "shutdown_p w =
     bind_prog (close_all_p (k_order (w_kern w) (dom (w_peers w))) w) (\<lambda>w.
       Return ((on_kern (close_fd (w_epoll w) \<circ> close_fd (w_timer w) \<circ> close_fd (w_listener w)) w)
             \<lparr>w_listener := -1, w_timer := -1, w_epoll := -1\<rparr>))"

section \<open>Without interference they are the member functions\<close>

text \<open>The worker's own result with the shared runtime, as the result of the function.\<close>

definition at_end :: "((exn \<times> worker) + worker) \<times> runtime \<Rightarrow> worker out" where
  "at_end x = (case x of
     (Inr w, r) \<Rightarrow> Ok (w\<lparr>w_rt := r\<rparr>)
   | (Inl (e, w), r) \<Rightarrow> Throw e (w\<lparr>w_rt := r\<rparr>))"

definition alone :: "worker work \<Rightarrow> runtime \<Rightarrow> worker out" where
  "alone p r = at_end (run p r)"

lemma alone_simps [simp]:
  "alone (Return w) r = Ok (w\<lparr>w_rt := r\<rparr>)"
  "alone (Raise (e, w)) r = Throw e (w\<lparr>w_rt := r\<rparr>)"
  by (simp_all add: alone_def at_end_def)

lemma alone_bind:
  assumes "\<And>w r. alone (f w) r = F (w\<lparr>w_rt := r\<rparr>)"
  shows "alone (bind_prog p f) r = chain (alone p r) F"
proof -
  obtain x t where "run p r = (x, t)" by fastforce
  with assms show ?thesis by (cases x) (auto simp: alone_def run_bind at_end_def)
qed

lemma alone_on_rt:
  "(\<And>r. run p r = as_run (f r)) \<Longrightarrow> alone (on_rt_p p w) r = on_rt f (w\<lparr>w_rt := r\<rparr>)"
  by (cases "f r") (simp_all add: alone_def on_rt_p_def lift_p_def run_bind run_map at_end_def on_rt_def)

text \<open>The worker's own operations do not look at its runtime.\<close>

lemma own_rt [simp]:
  "(put_peer fd p w)\<lparr>w_rt := r\<rparr> = put_peer fd p (w\<lparr>w_rt := r\<rparr>)"
  "(on_kern f w)\<lparr>w_rt := r\<rparr> = on_kern f (w\<lparr>w_rt := r\<rparr>)"
  "(modify_fd fd w)\<lparr>w_rt := r\<rparr> = modify_fd fd (w\<lparr>w_rt := r\<rparr>)"
  "(close_one fd w)\<lparr>w_rt := r\<rparr> = close_one fd (w\<lparr>w_rt := r\<rparr>)"
  "(emplace fd p w)\<lparr>w_rt := r\<rparr> = emplace fd p (w\<lparr>w_rt := r\<rparr>)"
  by (auto simp: put_peer_def on_kern_def modify_fd_def close_one_def emplace_def split: option.split)

lemma outbound_full_rt [simp]: "outbound_full fd (w\<lparr>w_rt := r\<rparr>) = outbound_full fd w"
  by (simp add: outbound_full_def)

lemma alone_eject: "alone (maybe_eject_p i w) r = maybe_eject i (w\<lparr>w_rt := r\<rparr>)"
proof -
  let ?f = "\<lambda>r. case consecutive_failures (r_sched r) i of Inl e \<Rightarrow> Throw e r
    | Inr n \<Rightarrow> if n \<ge> passive_failure_threshold (r_config r) then set_backend_state i Down r else Ok r"
  have "alone (maybe_eject_p i w) r = on_rt ?f (w\<lparr>w_rt := r\<rparr>)"
    unfolding maybe_eject_p_def by (rule alone_on_rt) (rule run_eject)
  then show ?thesis by (auto simp: maybe_eject_def on_rt_def split: sum.split)
qed

lemmas alone_runtime = run_runtime [THEN alone_on_rt] run_healthy [THEN alone_on_rt]

lemma alone_close_pair: "alone (close_pair_p fd b w) r = close_pair fd b (w\<lparr>w_rt := r\<rparr>)"
proof (cases "w_peers w fd")
  case (Some p)
  have fail: "alone (bind_prog (on_rt_p (record_backend_failure_p i) w) (maybe_eject_p i)) r =
      chain (on_rt (record_backend_failure i) (w\<lparr>w_rt := r\<rparr>)) (maybe_eject i)" for i w r
    by (simp add: alone_bind [OF alone_eject] alone_runtime)
  have "alone (if b then bind_prog (on_rt_p (record_backend_failure_p i) w) (maybe_eject_p i) else Return w) r =
      (\<lambda>w. if b then chain (on_rt (record_backend_failure i) w) (maybe_eject i) else Ok w) (w\<lparr>w_rt := r\<rparr>)" for i w r
    by (simp add: fail)
  from alone_bind [where f = "\<lambda>w. if b then bind_prog (on_rt_p (record_backend_failure_p (p_backend p)) w)
      (maybe_eject_p (p_backend p)) else Return w", OF this] Some
  show ?thesis by (simp add: close_pair_p_def close_pair_def alone_runtime)
qed (simp add: close_pair_p_def close_pair_def)

lemma alone_flush: "alone (flush_p fd w) r = flush fd (w\<lparr>w_rt := r\<rparr>)"
proof (induction fd w arbitrary: r rule: flush_p.induct)
  case (1 fd w)
  show ?case
  proof (cases "w_peers w fd")
    case (Some p)
    obtain x k where wr: "sys_write fd (drop (p_sent p) (p_outbound p)) (w_kern w) = (x, k)" by fastforce
    note IH = "1.IH" [OF Some _ wr [symmetric]]
    show ?thesis
    proof (cases "p_connecting p \<or> p_sent p \<ge> length (p_outbound p)")
      case True
      with Some show ?thesis by (simp add: flush_p.simps [of fd w] flush.simps [of fd "w\<lparr>w_rt := r\<rparr>"])
    next
      case False
      with Some wr IH show ?thesis
        by (cases x) (simp_all add: flush_p.simps [of fd w] flush.simps [of fd "w\<lparr>w_rt := r\<rparr>"] Let_def alone_close_pair)
    qed
  qed (simp add: flush_p.simps [of fd w] flush.simps [of fd "w\<lparr>w_rt := r\<rparr>"])
qed

lemma run_record_bytes: "run (record_bytes_p b i n) r = as_run (record_bytes b i n r)"
  by (simp add: record_bytes_p_def record_bytes_def run_runtime)

lemma alone_deliver: "alone (deliver_p fd bs source paired w) r = deliver fd bs source paired (w\<lparr>w_rt := r\<rparr>)"
proof -
  let ?armed = "\<lambda>w. Ok (modify_fd (p_paired source) (modify_fd fd w))"
  let ?rest = "\<lambda>w. chain (flush (p_paired source) w) ?armed"
  have "alone (bind_prog (flush_p (p_paired source) w) (\<lambda>w. Return (modify_fd (p_paired source) (modify_fd fd w)))) r =
      ?rest (w\<lparr>w_rt := r\<rparr>)" for w r
    by (subst alone_bind [where F = ?armed]) (simp_all add: alone_flush)
  from alone_bind [where F = ?rest, OF this] show ?thesis
    by (simp add: deliver_p_def deliver_def Let_def alone_on_rt [OF run_record_bytes])
qed

lemma alone_read: "alone (read_available_p fd w) r = read_available fd (w\<lparr>w_rt := r\<rparr>)"
proof (induction fd w arbitrary: r rule: read_available_p.induct)
  case (1 fd w)
  let ?v = "w\<lparr>w_rt := r\<rparr>"
  show ?case
  proof (cases "w_peers w fd")
    case (Some p)
    obtain x k where rd: "sys_read fd (w_kern w) = (x, k)" by fastforce
    note IH = "1.IH" [OF Some rd [symmetric]]
    show ?thesis
    proof (cases x)
      case (RData bs)
      let ?p = "p\<lparr>p_last := clock_now k\<rparr>"
      let ?w = "put_peer fd ?p (w\<lparr>w_kern := tick k\<rparr>)" and ?u = "put_peer fd ?p (w\<lparr>w_rt := r, w_kern := tick k\<rparr>)"
      have peers: "w_peers ?u = w_peers ?w" by (simp add: put_peer_def)
      show ?thesis
      proof (cases "bs = [] \<or> w_peers ?w (p_paired ?p) = None")
        case True
        with Some rd RData peers show ?thesis
          by (cases "bs = []") (simp_all add: read_available_p.simps [of fd w] read_available.simps [of fd ?v]
            Let_def alone_close_pair)
      next
        case False
        then obtain q where q: "bs \<noteq> []" "w_peers ?w (p_paired ?p) = Some q" by auto
        let ?d = "deliver_p fd bs ?p q ?w"
        let ?f = "\<lambda>w2. if outbound_full (p_paired ?p) w2 then Return w2 else read_available_p fd w2"
        obtain y t where run: "run ?d r = (y, t)" by fastforce
        have d: "deliver fd bs ?p q ?u = at_end (y, t)"
          using alone_deliver [of fd bs ?p q ?w r] run by (simp add: alone_def)
        have "alone (bind_prog ?d ?f) r = (case deliver fd bs ?p q ?u of
            Throw e w2 \<Rightarrow> Throw e w2
          | Ok w2 \<Rightarrow> if outbound_full (p_paired ?p) w2 then Ok w2 else read_available fd w2)"
        proof (cases y)
          case (Inl z)
          with d run show ?thesis by (cases z) (simp add: alone_def run_bind at_end_def)
        next
          case (Inr w2)
          have "w2 \<in> results ?d" using run_results [of ?d r] run Inr by simp
          from IH(1) [OF RData q(1) refl refl q(2) this] d run Inr show ?thesis
            by (auto simp: alone_def run_bind at_end_def)
        qed
        with Some rd RData q peers show ?thesis
          by (simp add: read_available_p.simps [of fd w] read_available.simps [of fd ?v] Let_def)
      qed
    next
      case RIntr
      with Some rd IH(2) [OF RIntr] show ?thesis
        by (simp add: read_available_p.simps [of fd w] read_available.simps [of fd ?v])
    qed (use Some rd in \<open>simp_all add: read_available_p.simps [of fd w] read_available.simps [of fd ?v] alone_close_pair\<close>)
  qed (simp add: read_available_p.simps [of fd w] read_available.simps [of fd ?v])
qed

lemma alone_finish_connect: "alone (finish_connect_p fd w) r = finish_connect fd (w\<lparr>w_rt := r\<rparr>)"
proof (cases "w_peers w fd")
  case (Some p)
  let ?last = "\<lambda>w. chain (flush fd w) (\<lambda>w. Ok (modify_fd fd w))"
  let ?heal = "\<lambda>w. chain (on_rt (heal_backend (p_backend p)) w) ?last"
  have l: "alone (bind_prog (flush_p fd w) (\<lambda>w. Return (modify_fd fd w))) r = ?last (w\<lparr>w_rt := r\<rparr>)" for w r
    by (subst alone_bind [where F = "\<lambda>w. Ok (modify_fd fd w)"]) (simp_all add: alone_flush)
  have h: "alone (bind_prog (on_rt_p (mark_healthy_p (p_backend p)) w)
      (\<lambda>w. bind_prog (flush_p fd w) (\<lambda>w. Return (modify_fd fd w)))) r = ?heal (w\<lparr>w_rt := r\<rparr>)" for w r
    by (subst alone_bind [where F = ?last, OF l]) (simp add: alone_runtime)
  from Some show ?thesis
    by (simp add: finish_connect_p_def finish_connect_def Let_def alone_close_pair connected_def
        alone_bind [where F = ?heal, OF h] alone_runtime on_kern_def)
qed (simp add: finish_connect_p_def finish_connect_def)

definition attached :: "fd \<Rightarrow> selected_backend option \<Rightarrow> worker \<Rightarrow> worker out" where
  "attached c selected w =
     (case selected of
        None \<Rightarrow> Ok (on_kern (sys_close c) w)
      | Some b \<Rightarrow>
          (case connect_backend (sel_endpoint b) (w_kern w) of
             (Inl e, k) \<Rightarrow> Throw e (w\<lparr>w_kern := k\<rparr>)
           | (Inr None, k) \<Rightarrow>
               chain (on_rt (record_backend_failure (sel_index b)) (w\<lparr>w_kern := k\<rparr>)) (\<lambda>w.
               chain (maybe_eject (sel_index b) w) (\<lambda>w. Ok (on_kern (sys_close c) w)))
           | (Inr (Some s), k) \<Rightarrow>
               chain (on_rt (record_connection_open (sel_index b)) (w\<lparr>w_kern := tick k\<rparr>)) (\<lambda>v.
               chain (add_fd c (EPOLLIN OR EPOLLERR OR EPOLLHUP OR EPOLLRDHUP)
                 (new_pair c s (sel_index b) (clock_now k)
                   (clock_now k + milliseconds (connect_timeout_ms (r_config (w_rt w)))) v))
               (add_fd s (EPOLLOUT OR EPOLLERR OR EPOLLHUP OR EPOLLRDHUP)))))"

lemma attach_attached:
  "attach_backend c w = attached c (fst (select (k_draw (w_kern w) (k_calls (w_kern w))) (r_sched (w_rt w))))
     (on_kern tick (w\<lparr>w_rt := (w_rt w)\<lparr>r_sched :=
       snd (select (k_draw (w_kern w) (k_calls (w_kern w))) (r_sched (w_rt w)))\<rparr>\<rparr>))"
proof -
  obtain sel t where sel: "select (k_draw (w_kern w) (k_calls (w_kern w))) (r_sched (w_rt w)) = (sel, t)" by fastforce
  show ?thesis
  proof (cases sel)
    case (Some b)
    obtain x k where cb: "connect_backend (sel_endpoint b) (tick (w_kern w)) = (x, k)" by fastforce
    consider e where "x = Inl e" | "x = Inr None" | s where "x = Inr (Some s)"
      by (metis old.sum.exhaust option.exhaust)
    then show ?thesis
      by cases (use sel Some cb in
        \<open>simp_all add: attach_backend_def attached_def Let_def new_pair_def on_kern_def\<close>)
  qed (simp add: attach_backend_def attached_def Let_def sel)
qed

lemma alone_own_add: "alone (own_p (add_fd fd ev w)) r = add_fd fd ev (w\<lparr>w_rt := r\<rparr>)"
  by (simp add: own_p_def add_fd_def)

lemma alone_config: "alone (bind_prog (config_p f) g) r = alone (g (f (r_config r))) r"
  by (simp add: alone_def config_p_def run_bind)

lemma alone_attached: "alone (attached_p c sel w) r = attached c sel (w\<lparr>w_rt := r\<rparr>)"
proof (cases sel)
  case (Some b)
  let ?i = "sel_index b"
  let ?shut = "\<lambda>w. chain (maybe_eject ?i w) (\<lambda>w. Ok (on_kern (sys_close c) w))"
  have s: "alone (bind_prog (maybe_eject_p ?i w) (\<lambda>w. Return (on_kern (sys_close c) w))) r = ?shut (w\<lparr>w_rt := r\<rparr>)" for w r
    by (subst alone_bind [where F = "\<lambda>w. Ok (on_kern (sys_close c) w)"]) (simp_all add: alone_eject)
  note reject = alone_bind [where F = ?shut, OF s]
  have n: "alone (bind_prog (own_p (add_fd c e1 (emplace s q2 (emplace c q1 w)))) (\<lambda>w. own_p (add_fd s e2 w))) r =
      (\<lambda>w. chain (add_fd c e1 (emplace s q2 (emplace c q1 w))) (add_fd s e2)) (w\<lparr>w_rt := r\<rparr>)" for s e1 e2 q1 q2 w r
    by (subst alone_bind [where F = "add_fd s e2"]) (simp_all add: alone_own_add)
  obtain x k where cb: "connect_backend (sel_endpoint b) (w_kern w) = (x, k)" by fastforce
  consider e where "x = Inl e" | "x = Inr None" | s where "x = Inr (Some s)"
    by (metis old.sum.exhaust option.exhaust)
  then show ?thesis
  proof cases
    case (3 s)
    note new = alone_bind [where F = "\<lambda>w. chain (add_fd c (EPOLLIN OR EPOLLERR OR EPOLLHUP OR EPOLLRDHUP)
        (emplace s (new_peer s c ?i True True (clock_now k) (clock_now k + milliseconds t))
          (emplace c (new_peer c s ?i False False (clock_now k) (clock_now k + milliseconds t)) w)))
        (add_fd s (EPOLLOUT OR EPOLLERR OR EPOLLHUP OR EPOLLRDHUP))" for t, OF n]
    with 3 Some cb show ?thesis
      by (simp add: attached_p_def attached_def Let_def alone_config alone_runtime new_pair_def new)
  qed (use Some cb in \<open>simp_all add: attached_p_def attached_def reject alone_runtime\<close>)
qed (simp add: attached_p_def attached_def)

lemma alone_attach: "alone (attach_backend_p c w) r = attach_backend c (w\<lparr>w_rt := r\<rparr>)"
  using alone_attached
  by (simp add: attach_backend_p_def attach_attached lift_p_def alone_def run_bind run_map run_select on_kern_def)

lemma alone_accept: "alone (accept_clients_p w) r = accept_clients (w\<lparr>w_rt := r\<rparr>)"
proof (induction w arbitrary: r rule: accept_clients_p.induct)
  case (1 w)
  let ?v = "w\<lparr>w_rt := r\<rparr>"
  obtain x c k where acc: "sys_accept (w_kern w) = (x, c, k)" by (metis prod_cases3)
  show ?case
  proof (cases x)
    case AClient
    let ?a = "attach_backend_p c (w\<lparr>w_kern := k\<rparr>)"
    obtain y t where run: "run ?a r = (y, t)" by fastforce
    then have a: "attach_backend c (w\<lparr>w_rt := r, w_kern := k\<rparr>) = at_end (y, t)"
      using alone_attach [of c "w\<lparr>w_kern := k\<rparr>" r] by (simp add: alone_def)
    have "alone (bind_prog ?a accept_clients_p) r = (case attach_backend c (w\<lparr>w_rt := r, w_kern := k\<rparr>) of
        Throw e w1 \<Rightarrow> Throw e w1 | Ok w1 \<Rightarrow> accept_clients w1)"
    proof (cases y)
      case (Inl z)
      with a run show ?thesis by (cases z) (simp add: alone_def run_bind at_end_def)
    next
      case (Inr w2)
      have "w2 \<in> results ?a" using run_results [of ?a r] run Inr by simp
      from "1.IH"(1) [OF acc [symmetric] AClient refl this] a run Inr show ?thesis
        by (simp add: alone_def run_bind at_end_def)
    qed
    with acc AClient show ?thesis by (simp add: accept_clients_p.simps [of w] accept_clients.simps [of ?v])
  next
    case AIntr
    with acc "1.IH"(2) show ?thesis by (simp add: accept_clients_p.simps [of w] accept_clients.simps [of ?v])
  qed (use acc in \<open>simp_all add: accept_clients_p.simps [of w] accept_clients.simps [of ?v]\<close>)
qed

lemma alone_close_expired: "alone (close_expired_p es w) r = close_expired es (w\<lparr>w_rt := r\<rparr>)"
proof (induction es arbitrary: w r)
  case (Cons e es)
  obtain fd b where e: "e = (fd, b)" by fastforce
  let ?c = "if b then count_connect_timeout else count_idle_timeout"
  have "alone (bind_prog (close_pair_p fd b w) (close_expired_p es)) r =
      (\<lambda>w. chain (close_pair fd b w) (close_expired es)) (w\<lparr>w_rt := r\<rparr>)" for w r
    by (simp add: alone_bind [where F = "close_expired es", OF Cons] alone_close_pair)
  note rest = alone_bind [where F = "\<lambda>w. chain (close_pair fd b w) (close_expired es)", OF this]
  have "alone (on_rt_p (modify ?c) w) r = Ok (w\<lparr>w_rt := ?c r\<rparr>)"
    by (simp add: alone_def on_rt_p_def lift_p_def run_bind run_map at_end_def)
  then show ?case by (simp add: e rest)
qed simp

lemma alone_reap: "alone (reap_timeouts_p w) r = reap_timeouts (w\<lparr>w_rt := r\<rparr>)"
  by (simp add: reap_timeouts_p_def reap_timeouts_def Let_def alone_config alone_close_expired)

lemma alone_close_all: "alone (close_all_p fds w) r = close_all fds (w\<lparr>w_rt := r\<rparr>)"
proof (induction fds arbitrary: w r)
  case (Cons fd fds)
  then show ?case by (simp add: alone_bind [where F = "close_all fds", OF Cons] alone_close_pair)
qed simp

text \<open>
  The fine-grained worker is the worker. One event handled access by access, with no other thread in
  between, leaves the same peers, the same kernel and the same shared runtime, and throws the same
  exception or none, as \<open>handle_event\<close> in one step.
\<close>

lemma event_accesses:
  "alone (handle_event_p ev w) r = handle_event ev (w\<lparr>w_rt := r\<rparr>)"
proof -
  obtain fd flags where ev: "ev = (fd, flags)" by fastforce
  let ?F3 = "\<lambda>w. if w_peers w fd \<noteq> None \<and> has_flag flags EPOLLOUT then flush fd w else Ok w"
  let ?F2 = "\<lambda>w. chain (if w_peers w fd \<noteq> None \<and> has_flag flags EPOLLIN then read_available fd w else Ok w) ?F3"
  have a3: "alone (if w_peers w fd \<noteq> None \<and> has_flag flags EPOLLOUT then flush_p fd w else Return w) r = ?F3 (w\<lparr>w_rt := r\<rparr>)" for w r
    by (simp add: alone_flush)
  have a2: "alone (bind_prog (if w_peers w fd \<noteq> None \<and> has_flag flags EPOLLIN then read_available_p fd w else Return w)
      (\<lambda>w. if w_peers w fd \<noteq> None \<and> has_flag flags EPOLLOUT then flush_p fd w else Return w)) r = ?F2 (w\<lparr>w_rt := r\<rparr>)" for w r
    by (subst alone_bind [where F = ?F3, OF a3]) (simp add: alone_read)
  note alone_bind [where F = ?F2, OF a2]
  then show ?thesis
    by (simp add: handle_event_p_def handle_event_def ev alone_accept alone_reap alone_close_pair
        alone_finish_connect split: option.split)
qed

lemma shutdown_accesses: "alone (shutdown_p w) r = shutdown (w\<lparr>w_rt := r\<rparr>)"
proof -
  let ?F = "\<lambda>w. Ok ((on_kern (close_fd (w_epoll w) \<circ> close_fd (w_timer w) \<circ> close_fd (w_listener w)) w)
    \<lparr>w_listener := -1, w_timer := -1, w_epoll := -1\<rparr>)"
  have "alone (Return ((on_kern (close_fd (w_epoll w) \<circ> close_fd (w_timer w) \<circ> close_fd (w_listener w)) w)
      \<lparr>w_listener := -1, w_timer := -1, w_epoll := -1\<rparr>)) r = ?F (w\<lparr>w_rt := r\<rparr>)" for w r
    by (simp add: on_kern_def)
  from alone_bind [where F = ?F, OF this] show ?thesis
    by (simp add: shutdown_p_def shutdown_def alone_close_all)
qed

end
