(* ===== verification/LB_Render.thy ===== *)
theory LB_Render
  imports LB_Health
begin

text \<open>
  The two renderings of the runtime in \<open>src/runtime.cpp\<close>: \<open>stats_json\<close>, which the
  dashboard reads, and \<open>prometheus_metrics\<close>. Integers are printed in decimal; the one
  \<open>double\<close>, the rate of connections, goes through the rounding of the division and the
  default formatting of an output stream.
\<close>

section \<open>Doubles\<close>

text \<open>
  A positive \<open>double\<close> is kept as an exact fraction. \<open>round_half_even n d\<close> rounds
  \<open>n / d\<close> to the nearest integer, ties to even, as the conversions and the division do.
\<close>

definition round_half_even :: "nat \<Rightarrow> nat \<Rightarrow> nat" where
  "round_half_even n d =
     (let q = n div d; r = n mod d in
      if 2 * r > d \<or> (2 * r = d \<and> odd q) then q + 1 else q)"

fun bit_length :: "nat \<Rightarrow> nat" where
  "bit_length n = (if n = 0 then 0 else Suc (bit_length (n div 2)))"

declare bit_length.simps [simp del]

text \<open>The scale at which \<open>n / d\<close> has 53 significant bits: \<open>Inl k\<close> is division by
  \<open>2 ^ k\<close>, \<open>Inr k\<close> multiplication with it.\<close>

definition scaled :: "nat \<Rightarrow> nat \<Rightarrow> int \<Rightarrow> nat \<times> nat" where
  "scaled n d e = (if e \<ge> 0 then (n, d * 2 ^ nat e) else (n * 2 ^ nat (- e), d))"

definition to_double :: "nat \<Rightarrow> nat \<Rightarrow> nat \<times> nat" where
  "to_double n d =
     (if n = 0 then (0, 1)
      else
        let e0 = int (bit_length n) - int (bit_length d) - 53;
            (n0, d0) = scaled n d e0;
            e = (if n0 \<ge> d0 * 2 ^ 53 then e0 + 1 else e0);
            (n1, d1) = scaled n d e;
            m = round_half_even n1 d1
        in if e \<ge> 0 then (m * 2 ^ nat e, 1) else (m, 2 ^ nat (- e)))"

text \<open>
  The format of an output stream with its default precision: six significant digits, no trailing
  zeros, an exponent when it is below -4 or above 5.
\<close>

definition strip_zeros :: "string \<Rightarrow> string" where
  "strip_zeros s = rev (dropWhile (\<lambda>c. c = CHR ''0'') (rev s))"

definition with_fraction :: "string \<Rightarrow> string \<Rightarrow> string" where
  "with_fraction whole frac =
     (if strip_zeros frac = [] then whole else whole @ ''.'' @ strip_zeros frac)"

fun leading_zeros :: "nat \<Rightarrow> nat \<Rightarrow> nat \<Rightarrow> nat" where
  "leading_zeros 0 n d = 0"
| "leading_zeros (Suc fuel) n d = (if n \<ge> d then 0 else Suc (leading_zeros fuel (10 * n) d))"

definition decimal_exponent :: "nat \<Rightarrow> nat \<Rightarrow> int" where
  "decimal_exponent n d =
     (if n \<ge> d then int (length (show_nat (n div d))) - 1 else - int (leading_zeros (length (show_nat d)) n d))"

definition show_exponent :: "int \<Rightarrow> string" where
  "show_exponent x =
     (if x < 0 then ''e-'' else ''e+'') @
     (let s = show_nat (nat \<bar>x\<bar>) in if length s < 2 then ''0'' @ s else s)"

definition show_double :: "nat \<times> nat \<Rightarrow> string" where
  "show_double v =
     (case v of (n, d) \<Rightarrow>
        if n = 0 then ''0''
        else
          let x0 = decimal_exponent n d;
              m0 = (if x0 \<le> 5 then round_half_even (n * 10 ^ nat (5 - x0)) d
                    else round_half_even n (d * 10 ^ nat (x0 - 5)));
              (m, x) = (if m0 = 10 ^ 6 then (10 ^ 5, x0 + 1) else (m0, x0));
              digits = show_nat m
          in if x < -4 \<or> x > 5 then with_fraction (take 1 digits) (drop 1 digits) @ show_exponent x
             else if x \<ge> 0 then with_fraction (take (nat x + 1) digits) (drop (nat x + 1) digits)
             else with_fraction ''0'' (replicate (nat (- x) - 1) (CHR ''0'') @ digits))"

text \<open>\<open>uptime > 0 ? double(total) / double(uptime) : 0.0\<close>, printed.\<close>

definition show_rate :: "u64 \<Rightarrow> int \<Rightarrow> string" where
  "show_rate count uptime =
     (if uptime > 0
      then let (n1, d1) = to_double (unat count) 1; (n2, d2) = to_double (nat uptime) 1
           in show_double (to_double (n1 * d2) (d1 * n2))
      else show_double (0, 1))"

section \<open>JSON text\<close>

definition quote :: char where
  "quote = CHR 0x22"

definition backslash :: char where
  "backslash = CHR 0x5C"

definition json_escape :: "string \<Rightarrow> string" where
  "json_escape value = concat (map (\<lambda>c. if c = quote \<or> c = backslash then [backslash, c] else [c]) value)"

definition show_u64 :: "u64 \<Rightarrow> string" where
  "show_u64 x = show_nat (unat x)"

definition show_int :: "int \<Rightarrow> string" where
  "show_int x = (if x < 0 then ''-'' @ show_nat (nat (- x)) else show_nat (nat x))"

text \<open>\<open>"name":value\<close>, a quoted string, and values with commas between them.\<close>

definition json_field :: "string \<Rightarrow> string \<Rightarrow> string" where
  "json_field name value = quote # name @ quote # CHR '':'' # value"

definition json_quoted :: "string \<Rightarrow> string" where
  "json_quoted text = quote # text @ [quote]"

fun with_commas :: "string list \<Rightarrow> string" where
  "with_commas [] = []"
| "with_commas [x] = x"
| "with_commas (x # y # xs) = x @ CHR '','' # with_commas (y # xs)"

section \<open>The statistics\<close>

definition backend_json :: "runtime \<Rightarrow> nat \<Rightarrow> string res" where
  "backend_json r i =
     bind_res (state_at (r_sched r) i) (\<lambda>state.
     bind_res (active_connections (r_sched r) i) (\<lambda>active.
     bind_res (total_connections (r_sched r) i) (\<lambda>count.
     bind_res (error_count (r_sched r) i) (\<lambda>errors.
       let backend = r_backends r ! i in
       Inr (''{'' @ with_commas [
         json_field ''id'' (show_nat i),
         json_field ''address'' (json_quoted (json_escape (endpoint_label (b_endpoint backend)))),
         json_field ''state'' (json_quoted (state_to_string state)),
         json_field ''active_connections'' (show_u64 active),
         json_field ''total_connections'' (show_u64 count),
         json_field ''bytes_in'' (show_u64 (b_bytes_client backend)),
         json_field ''bytes_out'' (show_u64 (b_bytes_backend backend)),
         json_field ''errors'' (show_u64 errors),
         json_field ''connect_latency_us'' (show_u64 (b_latency_us backend))] @ ''}'')))))"

fun collect_res :: "'a res list \<Rightarrow> 'a list res" where
  "collect_res [] = Inr []"
| "collect_res (x # xs) = bind_res x (\<lambda>v. bind_res (collect_res xs) (\<lambda>vs. Inr (v # vs)))"

text \<open>\<open>duration_cast<seconds>\<close> truncates towards zero; \<open>now\<close> is in nanoseconds.\<close>

definition uptime_seconds :: "int \<Rightarrow> runtime \<Rightarrow> int" where
  "uptime_seconds now r =
     (let ns = now - m_started_at (r_metrics r) in
      if ns < 0 then - ((- ns) div 1000000000) else ns div 1000000000)"

definition stats_json :: "int \<Rightarrow> runtime \<Rightarrow> string res" where
  "stats_json now r =
     (let uptime = uptime_seconds now r; m = r_metrics r; config = r_config r in
      bind_res (collect_res (map (backend_json r) [0..<length (r_backends r)])) (\<lambda>backends.
        Inr (''{'' @ with_commas [
          json_field ''uptime_seconds'' (show_int uptime),
          json_field ''listener'' (json_quoted (json_escape (endpoint_label (listen config)))),
          json_field ''policy'' (json_quoted (policy_to_string (policy config))),
          json_field ''worker_count'' (show_nat (unat (worker_count config))),
          json_field ''active_connections'' (show_u64 (m_active m)),
          json_field ''peak_connections'' (show_u64 (m_peak m)),
          json_field ''total_connections'' (show_u64 (m_total m)),
          json_field ''connections_per_sec'' (show_rate (m_total m) uptime),
          json_field ''bytes_in'' (show_u64 (m_bytes_clients m)),
          json_field ''bytes_out'' (show_u64 (m_bytes_backends m)),
          json_field ''errors'' (show_u64 (m_errors m)),
          json_field ''connect_timeouts'' (show_u64 (m_connect_timeouts m)),
          json_field ''idle_timeouts'' (show_u64 (m_idle_timeouts m)),
          json_field ''latency''
            (''{'' @ with_commas [json_field ''p50'' ''0'', json_field ''p99'' ''0'', json_field ''p999'' ''0''] @ ''}''),
          json_field ''backends'' (''['' @ with_commas backends @ '']'')] @ ''}'')))"

section \<open>The metrics for Prometheus\<close>

definition prom_metric :: "string \<Rightarrow> string \<Rightarrow> u64 \<Rightarrow> string" where
  "prom_metric name kind value =
     ''# TYPE '' @ name @ '' '' @ kind @ [newline] @ name @ '' '' @ show_u64 value @ [newline]"

definition prom_backend :: "runtime \<Rightarrow> nat \<Rightarrow> string res" where
  "prom_backend r i =
     (let label = json_quoted (endpoint_label (b_endpoint (r_backends r ! i))) in
      bind_res (active_connections (r_sched r) i) (\<lambda>active.
      bind_res (state_at (r_sched r) i) (\<lambda>state.
        Inr (''lb_backend_active_connections{backend='' @ label @ ''} '' @ show_u64 active @ [newline] @
             ''lb_backend_up{backend='' @ label @ ''} '' @ (if state = Up then ''1'' else ''0'') @ [newline]))))"

definition prometheus_metrics :: "runtime \<Rightarrow> string res" where
  "prometheus_metrics r =
     (let m = r_metrics r in
      bind_res (collect_res (map (prom_backend r) [0..<length (r_backends r)])) (\<lambda>backends.
        Inr (prom_metric ''lb_active_connections'' ''gauge'' (m_active m) @
             prom_metric ''lb_total_connections'' ''counter'' (m_total m) @
             prom_metric ''lb_bytes_from_clients'' ''counter'' (m_bytes_clients m) @
             prom_metric ''lb_bytes_from_backends'' ''counter'' (m_bytes_backends m) @
             prom_metric ''lb_connection_errors'' ''counter'' (m_errors m) @
             concat backends)))"

section \<open>Reading the text back\<close>

text \<open>The rest of a JSON string after its opening quote: its value and what follows it.\<close>

fun read_string :: "string \<Rightarrow> (string \<times> string) option" where
  "read_string [] = None"
| "read_string (c # cs) =
     (if c = quote then Some ([], cs)
      else if c = backslash then
        (case cs of [] \<Rightarrow> None | d # ds \<Rightarrow> map_option (\<lambda>(s, rest). (d # s, rest)) (read_string ds))
      else map_option (\<lambda>(s, rest). (c # s, rest)) (read_string cs))"

lemma read_string_escape: "read_string (json_escape s @ quote # rest) = Some (s, rest)"
  by (induction s) (auto simp: json_escape_def quote_def backslash_def)

lemma read_string_shorter: "read_string s = Some (v, rest) \<Longrightarrow> length rest < length s"
  by (induction s arbitrary: v rest rule: read_string.induct)
    (fastforce split: if_splits list.splits)+

definition unquote :: "string \<Rightarrow> string res" where
  "unquote s = (case s of
     [] \<Rightarrow> Inl (InvalidArgument ''string'')
   | c # cs \<Rightarrow> (case read_string cs of
        Some (v, []) \<Rightarrow> if c = quote then Inr v else Inl (InvalidArgument ''string'')
      | _ \<Rightarrow> Inl (InvalidArgument ''string'')))"

interpretation json_text: codec "\<lambda>s. json_quoted (json_escape s)" unquote "\<lambda>_. True"
  by unfold_locales (simp add: unquote_def json_quoted_def read_string_escape)

section \<open>The text as a document\<close>

text \<open>
  What the statistics say, as a JSON document, and the tokens of a document: punctuation, strings
  by their value, and everything else as words.
\<close>

datatype json = JWord string | JStr string | JObj "(string \<times> json) list" | JArr "json list"

datatype token = TPunct char | TStr string | TWord string

fun token_commas :: "token list list \<Rightarrow> token list" where
  "token_commas [] = []"
| "token_commas [x] = x"
| "token_commas (x # y # xs) = x @ TPunct (CHR '','') # token_commas (y # xs)"

fun json_tokens :: "json \<Rightarrow> token list" where
  "json_tokens (JWord w) = [TWord w]"
| "json_tokens (JStr s) = [TStr s]"
| "json_tokens (JObj ms) = TPunct (CHR ''{'') #
     token_commas (map (\<lambda>(name, v). TStr name # TPunct (CHR '':'') # json_tokens v) ms) @ [TPunct (CHR ''}'')]"
| "json_tokens (JArr vs) = TPunct (CHR ''['') # token_commas (map json_tokens vs) @ [TPunct (CHR '']'')]"

definition punctuation :: "char \<Rightarrow> bool" where
  "punctuation c \<longleftrightarrow> c \<in> set ''{}[]:,''"

definition plain :: "char \<Rightarrow> bool" where
  "plain c \<longleftrightarrow> c \<noteq> quote \<and> \<not> punctuation c"

lemma dropWhile_shorter: "P x \<Longrightarrow> length (dropWhile P (x # xs)) < length (x # xs)"
  using length_dropWhile_le [of P xs] by simp

text \<open>A reader of JSON text, independent of the writer.\<close>

function tokenise :: "string \<Rightarrow> token list option" where
  "tokenise [] = Some []"
| "tokenise (c # cs) =
     (if c = quote then
        (case read_string cs of
           None \<Rightarrow> None | Some (v, rest) \<Rightarrow> map_option (Cons (TStr v)) (tokenise rest))
      else if punctuation c then map_option (Cons (TPunct c)) (tokenise cs)
      else map_option (Cons (TWord (takeWhile plain (c # cs)))) (tokenise (dropWhile plain (c # cs))))"
  by pat_completeness auto
termination
  by (relation "measure length")
    (auto dest: read_string_shorter simp: plain_def less_Suc_eq_le length_dropWhile_le)

declare tokenise.simps(2) [simp del]

text \<open>Tokens in front of what was read.\<close>

definition before :: "token list \<Rightarrow> token list option \<Rightarrow> token list option" where
  "before ts r = (case r of None \<Rightarrow> None | Some us \<Rightarrow> Some (ts @ us))"

lemma before_simps [simp]:
  "before [] r = r"
  "before ts (before us r) = before (ts @ us) r"
  "map_option (Cons t) r = before [t] r"
  by (simp_all add: before_def split: option.splits)

text \<open>
  A piece of text \<open>s\<close> reads as the tokens \<open>ts\<close> wherever it stands before the end or
  a character that ends a word.
\<close>

definition ends_word :: "string \<Rightarrow> bool" where
  "ends_word rest \<longleftrightarrow> (case rest of [] \<Rightarrow> True | c # _ \<Rightarrow> \<not> plain c)"

definition reads_as :: "string \<Rightarrow> token list \<Rightarrow> bool" where
  "reads_as s ts \<longleftrightarrow> (\<forall>rest. ends_word rest \<longrightarrow> tokenise (s @ rest) = before ts (tokenise rest))"

lemma reads_asD: "reads_as s ts \<Longrightarrow> ends_word rest \<Longrightarrow> tokenise (s @ rest) = before ts (tokenise rest)"
  by (simp add: reads_as_def)

lemma reads_append:
  assumes "reads_as s ts" "reads_as t us" "ends_word t"
  shows "reads_as (s @ t) (ts @ us)"
  unfolding reads_as_def
proof (intro allI impI)
  fix rest :: string
  assume rest: "ends_word rest"
  then have "ends_word (t @ rest)" using assms(3) by (cases t) (auto simp: ends_word_def)
  from reads_asD [OF assms(1) this] reads_asD [OF assms(2) rest]
  show "tokenise ((s @ t) @ rest) = before (ts @ us) (tokenise rest)" by simp
qed

lemma reads_punct:
  assumes "punctuation c" "reads_as t us"
  shows "reads_as (c # t) (TPunct c # us)"
  unfolding reads_as_def
proof (intro allI impI)
  fix rest :: string
  assume "ends_word rest"
  moreover have "c \<noteq> quote" using assms(1) by (auto simp: punctuation_def quote_def)
  ultimately show "tokenise ((c # t) @ rest) = before (TPunct c # us) (tokenise rest)"
    using assms by (simp add: tokenise.simps(2) reads_asD)
qed

lemma reads_quoted:
  assumes "reads_as t us"
  shows "reads_as (quote # json_escape s @ quote # t) (TStr s # us)"
  unfolding reads_as_def
proof (intro allI impI)
  fix rest :: string
  assume "ends_word rest"
  with assms show "tokenise ((quote # json_escape s @ quote # t) @ rest) = before (TStr s # us) (tokenise rest)"
    by (simp add: tokenise.simps(2) read_string_escape reads_asD)
qed

lemma reads_word:
  assumes "w \<noteq> []" "\<forall>c \<in> set w. plain c"
  shows "reads_as w [TWord w]"
  unfolding reads_as_def
proof (intro allI impI)
  fix rest :: string
  assume rest: "ends_word rest"
  obtain c cs where c: "w = c # cs" "plain c" using assms by (cases w) auto
  have "takeWhile plain (w @ rest) = w" "dropWhile plain (w @ rest) = rest"
    using assms(2) rest by (cases rest; auto simp: ends_word_def)+
  then show "tokenise (w @ rest) = before [TWord w] (tokenise rest)"
    using c by (simp add: tokenise.simps(2) plain_def)
qed

lemma reads_Nil: "reads_as [] []"
  by (simp add: reads_as_def)

lemma escape_plain: "quote \<notin> set s \<Longrightarrow> backslash \<notin> set s \<Longrightarrow> json_escape s = s"
  by (induction s) (auto simp: json_escape_def)

definition represents :: "string \<Rightarrow> json \<Rightarrow> bool" where
  "represents s j \<longleftrightarrow> reads_as s (json_tokens j)"

lemma ends_word_Nil [simp]: "ends_word []"
  by (simp add: ends_word_def)

lemma ends_word_punct: "punctuation c \<Longrightarrow> ends_word (c # s)"
  by (simp add: ends_word_def plain_def)

lemma punctuations [simp]:
  "punctuation (CHR '','')" "punctuation (CHR '':'')" "punctuation (CHR ''{'')"
  "punctuation (CHR ''}'')" "punctuation (CHR ''['')" "punctuation (CHR '']'')"
  by (simp_all add: punctuation_def)

lemma reads_field:
  assumes "quote \<notin> set name" "backslash \<notin> set name" "represents v j"
  shows "reads_as (json_field name v) (TStr name # TPunct (CHR '':'') # json_tokens j)"
proof -
  have "reads_as (CHR '':'' # v) (TPunct (CHR '':'') # json_tokens j)"
    using assms(3) by (intro reads_punct) (simp_all add: represents_def)
  from reads_quoted [OF this, of name] show ?thesis
    by (simp add: json_field_def escape_plain [OF assms(1,2)])
qed

lemma reads_commas: "list_all2 reads_as xs tss \<Longrightarrow> reads_as (with_commas xs) (token_commas tss)"
proof (induction xs arbitrary: tss rule: with_commas.induct)
  case 1
  then show ?case by (simp add: reads_Nil)
next
  case (2 x)
  then show ?case by (auto simp: list_all2_Cons1)
next
  case (3 x y xs)
  then obtain t u us where tss: "tss = t # u # us" "reads_as x t" "list_all2 reads_as (y # xs) (u # us)"
    by (auto simp: list_all2_Cons1)
  have "reads_as (CHR '','' # with_commas (y # xs)) (TPunct (CHR '','') # token_commas (u # us))"
    by (rule reads_punct) (simp_all add: "3.IH" [OF tss(3)])
  from reads_append [OF tss(2) this ends_word_punct] show ?case by (simp add: tss(1))
qed

lemma reads_bracketed:
  assumes "reads_as s ts" "punctuation l" "punctuation r"
  shows "reads_as (l # s @ [r]) (TPunct l # ts @ [TPunct r])"
  by (rule reads_punct [OF assms(2)], rule reads_append [OF assms(1)], rule reads_punct [OF assms(3)])
    (simp_all add: reads_Nil ends_word_punct assms(3))

lemma represents_object:
  assumes "list_all2 (\<lambda>x m. reads_as x (TStr (fst m) # TPunct (CHR '':'') # json_tokens (snd m))) xs ms"
  shows "represents (''{'' @ with_commas xs @ ''}'') (JObj ms)"
proof -
  have "list_all2 reads_as xs (map (\<lambda>(name, v). TStr name # TPunct (CHR '':'') # json_tokens v) ms)"
    using assms by (simp add: list_all2_map2 case_prod_beta)
  from reads_bracketed [OF reads_commas [OF this], of "CHR ''{''" "CHR ''}''"] show ?thesis
    by (simp add: represents_def)
qed

lemma represents_array:
  assumes "list_all2 represents xs js"
  shows "represents (''['' @ with_commas xs @ '']'') (JArr js)"
proof -
  have "list_all2 reads_as xs (map json_tokens js)"
    using assms by (simp add: list_all2_map2 represents_def [abs_def])
  from reads_bracketed [OF reads_commas [OF this], of "CHR ''[''" "CHR '']''"] show ?thesis
    by (simp add: represents_def)
qed

lemma represents_string: "represents (json_quoted (json_escape s)) (JStr s)"
  using reads_quoted [OF reads_Nil, of s] by (simp add: represents_def json_quoted_def)

lemma represents_name:
  "quote \<notin> set s \<Longrightarrow> backslash \<notin> set s \<Longrightarrow> represents (json_quoted s) (JStr s)"
  using represents_string [of s] by (simp add: escape_plain)

section \<open>Numbers are words\<close>

definition word_text :: "string \<Rightarrow> bool" where
  "word_text s \<longleftrightarrow> s \<noteq> [] \<and> (\<forall>c \<in> set s. plain c)"

lemma represents_word: "word_text s \<Longrightarrow> represents s (JWord s)"
  using reads_word by (simp add: word_text_def represents_def)

lemma plain_chars [simp]:
  "plain (CHR ''0'')" "plain (CHR ''.'')" "plain (CHR ''e'')" "plain (CHR ''-'')" "plain (CHR ''+'')"
  by (simp_all add: plain_def quote_def punctuation_def)

lemma digit_plain: "isdigit c \<Longrightarrow> plain c"
proof -
  assume d: "isdigit c"
  then have "c \<noteq> x" if "\<not> isdigit x" for x using that by auto
  then show "plain c" by (simp add: plain_def quote_def punctuation_def isdigit_def code_def)
qed

lemma plain_show_nat: "\<forall>c \<in> set (show_nat n). plain c"
  using show_nat_digits digit_plain by blast

lemma word_show_nat: "word_text (show_nat n)"
  by (simp add: word_text_def plain_show_nat)

lemma plain_strip: "\<forall>c \<in> set s. plain c \<Longrightarrow> \<forall>c \<in> set (strip_zeros s). plain c"
  unfolding strip_zeros_def set_rev using set_dropWhileD by fastforce

lemma word_fraction:
  "word_text w \<Longrightarrow> \<forall>c \<in> set f. plain c \<Longrightarrow> word_text (with_fraction w f)"
  using plain_strip [of f] by (auto simp: with_fraction_def word_text_def)

lemma word_append: "word_text w \<Longrightarrow> \<forall>c \<in> set f. plain c \<Longrightarrow> word_text (w @ f)"
  by (auto simp: word_text_def)

lemma word_take: "word_text w \<Longrightarrow> n > 0 \<Longrightarrow> word_text (take n w)"
  by (auto simp: word_text_def dest: in_set_takeD)

lemma plain_drop: "word_text w \<Longrightarrow> \<forall>c \<in> set (drop n w). plain c"
  by (auto simp: word_text_def dest: in_set_dropD)

lemma plain_exponent: "\<forall>c \<in> set (show_exponent x). plain c"
  using plain_show_nat [of "nat \<bar>x\<bar>"] by (auto simp: show_exponent_def Let_def)

lemma word_show_double: "word_text (show_double v)"
proof -
  obtain n d where v: "v = (n, d)" by fastforce
  have zero: "word_text ''0''" by (simp add: word_text_def)
  have pos: "nat x + 1 > 0" for x :: int by simp
  show ?thesis
    using zero word_take [OF word_show_nat] plain_drop [OF word_show_nat] plain_exponent plain_show_nat
    by (auto simp: v show_double_def Let_def intro!: word_append word_fraction split: prod.splits)
qed

lemma word_numbers: "word_text (show_u64 x)" "word_text (show_rate count up)" "word_text (show_int i)"
proof -
  show "word_text (show_u64 x)" by (simp add: show_u64_def word_show_nat)
  show "word_text (show_rate count up)"
    using word_show_double by (simp add: show_rate_def split: prod.splits)
  have "word_text (''-'' @ show_nat n)" for n
    using plain_show_nat [of n] by (simp add: word_text_def)
  then show "word_text (show_int i)" by (simp add: show_int_def word_show_nat)
qed

section \<open>The document of the statistics\<close>

definition backend_doc :: "runtime \<Rightarrow> nat \<Rightarrow> json" where
  "backend_doc r i = JObj [
     (''id'', JWord (show_nat i)),
     (''address'', JStr (endpoint_label (b_endpoint (r_backends r ! i)))),
     (''state'', JStr (state_to_string (s_states (r_sched r) ! i))),
     (''active_connections'', JWord (show_u64 (s_active (r_sched r) ! i))),
     (''total_connections'', JWord (show_u64 (s_total (r_sched r) ! i))),
     (''bytes_in'', JWord (show_u64 (b_bytes_client (r_backends r ! i)))),
     (''bytes_out'', JWord (show_u64 (b_bytes_backend (r_backends r ! i)))),
     (''errors'', JWord (show_u64 (s_errors (r_sched r) ! i))),
     (''connect_latency_us'', JWord (show_u64 (b_latency_us (r_backends r ! i))))]"

definition stats_doc :: "int \<Rightarrow> runtime \<Rightarrow> json" where
  "stats_doc now r = (let m = r_metrics r; uptime = uptime_seconds now r in JObj [
     (''uptime_seconds'', JWord (show_int uptime)),
     (''listener'', JStr (endpoint_label (listen (r_config r)))),
     (''policy'', JStr (policy_to_string (policy (r_config r)))),
     (''worker_count'', JWord (show_nat (unat (worker_count (r_config r))))),
     (''active_connections'', JWord (show_u64 (m_active m))),
     (''peak_connections'', JWord (show_u64 (m_peak m))),
     (''total_connections'', JWord (show_u64 (m_total m))),
     (''connections_per_sec'', JWord (show_rate (m_total m) uptime)),
     (''bytes_in'', JWord (show_u64 (m_bytes_clients m))),
     (''bytes_out'', JWord (show_u64 (m_bytes_backends m))),
     (''errors'', JWord (show_u64 (m_errors m))),
     (''connect_timeouts'', JWord (show_u64 (m_connect_timeouts m))),
     (''idle_timeouts'', JWord (show_u64 (m_idle_timeouts m))),
     (''latency'', JObj [(''p50'', JWord ''0''), (''p99'', JWord ''0''), (''p999'', JWord ''0'')]),
     (''backends'', JArr (map (backend_doc r) [0..<length (r_backends r)]))])"

lemma state_name_plain: "quote \<notin> set (state_to_string st) \<and> backslash \<notin> set (state_to_string st)"
  by (cases st) (simp_all add: quote_def backslash_def)

lemma policy_name_plain: "quote \<notin> set (policy_to_string p) \<and> backslash \<notin> set (policy_to_string p)"
  by (cases p) (simp_all add: quote_def backslash_def)

lemma represents_zero: "represents ''0'' (JWord ''0'')"
  by (rule represents_word) (simp add: word_text_def)

lemmas represents_values = represents_string represents_zero
  represents_name [OF conjunct1 [OF state_name_plain] conjunct2 [OF state_name_plain]]
  represents_name [OF conjunct1 [OF policy_name_plain] conjunct2 [OF policy_name_plain]]
  word_numbers [THEN represents_word] word_show_nat [THEN represents_word]

definition members :: "string list \<Rightarrow> (string \<times> json) list \<Rightarrow> bool" where
  "members = list_all2 (\<lambda>x m. reads_as x (TStr (fst m) # TPunct (CHR '':'') # json_tokens (snd m)))"

lemma members_Nil: "members [] []"
  by (simp add: members_def)

lemma members_Cons:
  "quote \<notin> set name \<and> backslash \<notin> set name \<Longrightarrow> represents v j \<Longrightarrow> members xs ms \<Longrightarrow>
    members (json_field name v # xs) ((name, j) # ms)"
  by (simp add: members_def reads_field)

lemma members_object: "members xs ms \<Longrightarrow> represents (''{'' @ with_commas xs @ ''}'') (JObj ms)"
  unfolding members_def by (rule represents_object)

lemma backend_json_doc:
  assumes wf: "wf_runtime r" and i: "i < length (r_backends r)"
  shows "\<exists>s. backend_json r i = Inr s \<and> represents s (backend_doc r i)"
proof -
  have get: "state_at (r_sched r) i = Inr (s_states (r_sched r) ! i)"
    "active_connections (r_sched r) i = Inr (s_active (r_sched r) ! i)"
    "total_connections (r_sched r) i = Inr (s_total (r_sched r) ! i)"
    "error_count (r_sched r) i = Inr (s_errors (r_sched r) ! i)"
    using wf i by (simp_all add: wf_runtime_def wf_scheduler_def backend_count_def accessor_defs
        state_at_def checked_get_def)
  show ?thesis
    unfolding backend_json_def get bind_res_simps Let_def backend_doc_def
    by (rule exI, rule conjI, rule refl, intro members_object members_Cons members_Nil)
      (simp add: represents_values | simp add: quote_def backslash_def)+
qed

lemma collect_json_docs:
  "(\<And>i. i \<in> set is \<Longrightarrow> \<exists>s. f i = Inr s \<and> represents s (g i)) \<Longrightarrow>
    \<exists>ss. collect_res (map f is) = Inr ss \<and> list_all2 represents ss (map g is)"
proof (induction "is")
  case (Cons i "is")
  then obtain s ss where "f i = Inr s" "represents s (g i)" "collect_res (map f is) = Inr ss"
    "list_all2 represents ss (map g is)" by (metis list.set_intros(1,2))
  then show ?case by simp
qed simp

lemma represents_tokens: "represents s j \<Longrightarrow> tokenise s = Some (json_tokens j)"
  using reads_asD [of s "json_tokens j" "[]"] by (simp add: represents_def before_def)

lemma stats_json_represents:
  assumes "wf_runtime r"
  shows "\<exists>s. stats_json now r = Inr s \<and> represents s (stats_doc now r)"
proof -
  obtain ss where ss: "collect_res (map (backend_json r) [0..<length (r_backends r)]) = Inr ss"
    "list_all2 represents ss (map (backend_doc r) [0..<length (r_backends r)])"
    using collect_json_docs [of "[0..<length (r_backends r)]" "backend_json r" "backend_doc r"]
      backend_json_doc [OF assms] by auto
  note backends = represents_array [OF ss(2)]
  show ?thesis
    unfolding stats_json_def ss(1) bind_res_simps Let_def stats_doc_def
    by (rule exI, rule conjI, rule refl, intro members_object members_Cons members_Nil backends)
      (simp add: represents_values | simp add: quote_def backslash_def)+
qed

text \<open>
  C23. The statistics are the document they mean. On any well-formed runtime \<open>stats_json\<close>
  throws nothing, and its text, read by an independent JSON tokeniser, is exactly the document
  \<open>stats_doc\<close>: the fifteen fields and one object per backend, in order, with every string
  value read back as it was, whatever quotes and backslashes the configured hosts contain.
\<close>

theorem stats_json_document:
  assumes "wf_runtime r"
  shows "\<exists>s. stats_json now r = Inr s \<and> tokenise s = Some (json_tokens (stats_doc now r))"
  using stats_json_represents [OF assms] represents_tokens by blast

theorem stats_json_document_witness:
  "\<exists>s. stats_json 0 (fresh_runtime 0 sample_config) = Inr s \<and>
     tokenise s = Some (json_tokens (stats_doc 0 (fresh_runtime 0 sample_config)))"
proof (rule stats_json_document)
  show "wf_runtime (fresh_runtime 0 sample_config)"
    unfolding fresh_runtime_def by (rule wf_new_runtime) (simp add: sample_config_def)
qed

section \<open>The lines of the metrics\<close>

text \<open>A sample: the name of a series with its label, if any, and its value.\<close>

definition metric_lines :: "string \<Rightarrow> string \<Rightarrow> u64 \<Rightarrow> string list" where
  "metric_lines name kind value = [''# TYPE '' @ name @ '' '' @ kind, name @ '' '' @ show_u64 value]"

definition backend_lines :: "runtime \<Rightarrow> nat \<Rightarrow> string list" where
  "backend_lines r i =
     (let series = \<lambda>name. name @ ''{backend='' @ json_quoted (endpoint_label (b_endpoint (r_backends r ! i))) @ ''} '' in
      [series ''lb_backend_active_connections'' @ show_u64 (runtime_active r i),
       series ''lb_backend_up'' @ (if runtime_state r i = Up then ''1'' else ''0'')])"

definition prometheus_lines :: "runtime \<Rightarrow> string list" where
  "prometheus_lines r = (let m = r_metrics r in
     metric_lines ''lb_active_connections'' ''gauge'' (m_active m) @
     metric_lines ''lb_total_connections'' ''counter'' (m_total m) @
     metric_lines ''lb_bytes_from_clients'' ''counter'' (m_bytes_clients m) @
     metric_lines ''lb_bytes_from_backends'' ''counter'' (m_bytes_backends m) @
     metric_lines ''lb_connection_errors'' ''counter'' (m_errors m) @
     concat (map (backend_lines r) [0..<pool_size r]))"

lemma unlines_simps [simp]:
  "unlines [] = []" "unlines (l # ls) = l @ newline # unlines ls" "unlines (ls @ ks) = unlines ls @ unlines ks"
  by (simp_all add: unlines_def)

lemma prom_backend_lines:
  assumes "wf_runtime r" "i < pool_size r"
  shows "prom_backend r i = Inr (unlines (backend_lines r i))"
proof -
  have "state_at (r_sched r) i = Inr (runtime_state r i)"
    "active_connections (r_sched r) i = Inr (runtime_active r i)"
    using assms
    by (auto simp: wf_runtime_def wf_scheduler_def backend_count_def accessor_defs runtime_views
        state_at_def checked_get_def slot_def active_of_def state_in_def)
  then show ?thesis by (simp add: prom_backend_def backend_lines_def Let_def)
qed

lemma prometheus_unlines:
  assumes "wf_runtime r"
  shows "prometheus_metrics r = Inr (unlines (prometheus_lines r))"
proof -
  have all: "collect_res (map f is) = Inr (map g is)" if "\<forall>i \<in> set is. f i = Inr (g i)"
    for f :: "nat \<Rightarrow> string res" and g "is"
    using that by (induction "is") simp_all
  have "collect_res (map (prom_backend r) [0..<length (r_backends r)]) =
      Inr (map (\<lambda>i. unlines (backend_lines r i)) [0..<length (r_backends r)])"
    by (rule all) (simp add: prom_backend_lines assms pool_size_def)
  moreover have "concat (map (\<lambda>i. unlines (backend_lines r i)) is) = unlines (concat (map (backend_lines r) is))" for "is"
    by (induction "is") simp_all
  ultimately show ?thesis
    by (simp add: prometheus_metrics_def prometheus_lines_def prom_metric_def metric_lines_def Let_def pool_size_def)
qed

text \<open>
  The metrics are what Prometheus reads. If no configured host contains a line feed, the text
  splits into exactly the lines of \<open>prometheus_lines\<close>: a type and a sample for each of the five
  global series, then for every backend, in order, its number of active connections and whether
  it is up, 0 standing both for down and for draining.
\<close>

theorem prometheus_text:
  assumes "wf_runtime r" and "\<forall>b \<in> set (r_backends r). newline \<notin> set (host (b_endpoint b))"
  shows "\<exists>s. prometheus_metrics r = Inr s \<and> getlines s = prometheus_lines r"
proof -
  have nat: "newline \<notin> set (show_nat n)" for n
    using show_nat_digits [of newline n] by (auto simp: newline_def isdigit_def code_def)
  have "newline \<notin> set l" if "i < pool_size r" "l \<in> set (backend_lines r i)" for i l
  proof -
    have "newline \<notin> set (host (b_endpoint (r_backends r ! i)))" using that(1) assms(2) by (simp add: pool_size_def)
    with that(2) nat show ?thesis
      by (auto simp: backend_lines_def json_quoted_def endpoint_label_def show_u64_def Let_def split: if_splits)
        (simp_all add: newline_def quote_def)
  qed
  moreover have "newline \<notin> set l" if "l \<in> set (metric_lines name kind v)"
    "newline \<notin> set name" "newline \<notin> set kind" for l name kind v
    using that nat by (auto simp: metric_lines_def show_u64_def) (simp_all add: newline_def)
  ultimately have "\<forall>l \<in> set (prometheus_lines r). newline \<notin> set l"
    by (auto simp: prometheus_lines_def Let_def newline_def)
  then show ?thesis using prometheus_unlines [OF assms(1)] getlines_unlines by blast
qed

theorem prometheus_text_witness:
  "\<exists>s. prometheus_metrics (fresh_runtime 0 sample_config) = Inr s \<and>
    getlines s = prometheus_lines (fresh_runtime 0 sample_config)"
proof (rule prometheus_text)
  show "wf_runtime (fresh_runtime 0 sample_config)"
    unfolding fresh_runtime_def by (rule wf_new_runtime) (simp add: sample_config_def)
  show "\<forall>b \<in> set (r_backends (fresh_runtime 0 sample_config)). newline \<notin> set (host (b_endpoint b))"
    by (simp add: fresh_runtime_def new_runtime_def sample_config_def newline_def)
qed

end
