(* ===== verification/LB_Log.thy ===== *)
theory LB_Log
  imports LB_Render
begin

text \<open>
  The logger: \<open>include/lb/logger.hpp\<close> and \<open>src/logger.cpp\<close>. The minimum level and
  what has been written to the standard error stream are its state. The mutex makes one call of
  \<open>log\<close> write one line without interruption, so a call is one step on that state.
\<close>

section \<open>Levels\<close>

datatype log_level = Debug | Info | Warn | Error

text \<open>The enumerators' values, which \<open>log\<close> compares.\<close>

fun level_number :: "log_level \<Rightarrow> int" where
  "level_number Debug = 0"
| "level_number Info = 1"
| "level_number Warn = 2"
| "level_number Error = 3"

lemma level_number_inject: "level_number a = level_number b \<longleftrightarrow> a = b"
  by (cases a; cases b) simp_all

instantiation log_level :: linorder
begin

definition less_eq_log_level :: "log_level \<Rightarrow> log_level \<Rightarrow> bool" where
  "less_eq_log_level a b \<longleftrightarrow> level_number a \<le> level_number b"

definition less_log_level :: "log_level \<Rightarrow> log_level \<Rightarrow> bool" where
  "less_log_level a b \<longleftrightarrow> level_number a < level_number b"

instance
  by intro_classes (auto simp: less_eq_log_level_def less_log_level_def level_number_inject [symmetric])

end

fun label :: "log_level \<Rightarrow> string" where
  "label Debug = ''DEBUG''"
| "label Info = ''INFO''"
| "label Warn = ''WARN''"
| "label Error = ''ERROR''"

section \<open>Time stamps\<close>

text \<open>What \<open>gmtime_r\<close> fills in, and \<open>std::put_time\<close> with the format of the source.\<close>

record tm =
  tm_year :: nat  \<comment> \<open>since 1900\<close>
  tm_mon :: nat   \<comment> \<open>since January\<close>
  tm_mday :: nat
  tm_hour :: nat
  tm_min :: nat
  tm_sec :: nat

definition two_digits :: "nat \<Rightarrow> string" where
  "two_digits n = (if n < 10 then ''0'' else []) @ show_nat n"

definition timestamp :: "tm \<Rightarrow> string" where
  "timestamp t =
     show_nat (1900 + tm_year t) @ ''-'' @ two_digits (Suc (tm_mon t)) @ ''-'' @ two_digits (tm_mday t) @
     ''T'' @ two_digits (tm_hour t) @ '':'' @ two_digits (tm_min t) @ '':'' @ two_digits (tm_sec t) @ ''Z''"

section \<open>Logging\<close>

record logger =
  lg_min :: log_level
  lg_out :: string

definition new_logger :: logger where
  "new_logger = \<lparr>lg_min = Info, lg_out = []\<rparr>"

definition set_log_level :: "log_level \<Rightarrow> logger \<Rightarrow> logger" where
  "set_log_level level l = l\<lparr>lg_min := level\<rparr>"

definition log_line :: "tm \<Rightarrow> log_level \<Rightarrow> string \<Rightarrow> string" where
  "log_line t level message =
     ''{'' @ with_commas [
       json_field ''ts'' (json_quoted (timestamp t)),
       json_field ''level'' (json_quoted (label level)),
       json_field ''message'' (json_quoted message)] @ ''}'' @ [newline]"

definition log_message :: "tm \<Rightarrow> log_level \<Rightarrow> string \<Rightarrow> logger \<Rightarrow> logger" where
  "log_message t level message l =
     (if level < lg_min l then l else l\<lparr>lg_out := lg_out l @ log_line t level message\<rparr>)"

type_synonym entry = "log_level \<times> string"

text \<open>Several messages, each with its time.\<close>

fun log_all :: "(tm \<times> entry) list \<Rightarrow> logger \<Rightarrow> logger" where
  "log_all [] l = l"
| "log_all ((t, level, message) # es) l = log_all es (log_message t level message l)"

section \<open>What a log says\<close>

text \<open>Text that needs no escape in a JSON string and stays on its line.\<close>

definition clean :: "string \<Rightarrow> bool" where
  "clean s \<longleftrightarrow> quote \<notin> set s \<and> backslash \<notin> set s \<and> newline \<notin> set s"

lemma clean_simps [simp]:
  "clean []"
  "clean (c # s) \<longleftrightarrow> c \<noteq> quote \<and> c \<noteq> backslash \<and> c \<noteq> newline \<and> clean s"
  "clean (s @ t) \<longleftrightarrow> clean s \<and> clean t"
  by (auto simp: clean_def)

lemmas special_chars = quote_def backslash_def newline_def

lemma digit_unescaped: "isdigit c \<Longrightarrow> c \<noteq> quote \<and> c \<noteq> backslash \<and> c \<noteq> newline"
  by (auto simp: special_chars isdigit_def code_def)

lemma clean_show_nat [simp]: "clean (show_nat n)"
  unfolding clean_def using show_nat_digits digit_unescaped by blast

lemma clean_two_digits [simp]: "clean (two_digits n)"
  by (simp add: two_digits_def special_chars)

lemma clean_timestamp: "clean (timestamp t)"
  by (simp add: timestamp_def special_chars)

lemma clean_label: "clean (label level)"
  by (cases level) (simp_all add: special_chars)

lemma represents_clean: "clean s \<Longrightarrow> represents (json_quoted s) (JStr s)"
  by (simp add: clean_def represents_name)

definition log_doc :: "tm \<Rightarrow> log_level \<Rightarrow> string \<Rightarrow> json" where
  "log_doc t level message = JObj [
     (''ts'', JStr (timestamp t)), (''level'', JStr (label level)), (''message'', JStr message)]"

definition log_object :: "tm \<Rightarrow> log_level \<Rightarrow> string \<Rightarrow> string" where
  "log_object t level message = ''{'' @ with_commas [
     json_field ''ts'' (json_quoted (timestamp t)),
     json_field ''level'' (json_quoted (label level)),
     json_field ''message'' (json_quoted message)] @ ''}''"

lemma log_line_object: "log_line t level message = log_object t level message @ [newline]"
  by (simp add: log_line_def log_object_def)

lemma log_object_doc: "clean message \<Longrightarrow> represents (log_object t level message) (log_doc t level message)"
  unfolding log_object_def log_doc_def
  by (intro members_object members_Cons members_Nil)
    (simp add: represents_clean clean_timestamp clean_label | simp add: quote_def backslash_def)+

lemma log_object_line:
  assumes "clean message"
  shows "newline \<notin> set (log_object t level message)"
proof -
  have "newline \<notin> set (timestamp t)" "newline \<notin> set (label level)" "newline \<notin> set message"
    using clean_timestamp [of t] clean_label [of level] assms by (simp_all add: clean_def)
  then show ?thesis
    by (simp add: log_object_def json_field_def json_quoted_def) (simp add: special_chars)
qed

lemma log_all_append:
  "lg_out (log_all es (l\<lparr>lg_out := out @ out'\<rparr>)) = out @ lg_out (log_all es (l\<lparr>lg_out := out'\<rparr>))"
proof (induction es arbitrary: out')
  case (Cons e es)
  obtain t level message where e: "e = (t, level, message)" by (cases e)
  show ?case by (simp add: e log_message_def Cons.IH)
qed simp

text \<open>
  The log is one JSON object per line. Whatever is logged at whatever levels, the lines written
  are, in order, one for each message whose level reaches the minimum and none for the others;
  each reads back as an object with the time stamp, the name of the level and the message, provided
  the messages contain no quote, backslash or line feed, which the logger does not escape.
\<close>

theorem log_lines_are_documents:
  assumes "lg_out l = []" and "\<forall>(t, level, message) \<in> set es. clean message"
  shows "map tokenise (getlines (lg_out (log_all es l))) =
    map (\<lambda>(t, level, message). Some (json_tokens (log_doc t level message)))
      (filter (\<lambda>(t, level, message). lg_min l \<le> level) es)"
  using assms
proof (induction es)
  case (Cons e es)
  obtain t level message where e: "e = (t, level, message)" by (cases e)
  show ?case
  proof (cases "level < lg_min l")
    case True
    with Cons show ?thesis by (simp add: e log_message_def not_le)
  next
    case False
    let ?o = "log_object t level message"
    from Cons.prems(1) have empty: "l\<lparr>lg_out := []\<rparr> = l" by (cases l) simp
    have "lg_out (log_all (e # es) l) = ?o @ newline # lg_out (log_all es l)"
      using False log_all_append [where es = es and l = l and out = "log_line t level message" and out' = "[]"]
        empty by (simp add: e log_message_def log_line_object Cons.prems(1))
    with False Cons log_object_line log_object_doc show ?thesis
      by (simp add: e getlines_line represents_tokens)
  qed
qed simp

definition epoch :: tm where
  "epoch = \<lparr>tm_year = 70, tm_mon = 0, tm_mday = 1, tm_hour = 0, tm_min = 0, tm_sec = 0\<rparr>"

theorem log_lines_are_documents_witness:
  "map tokenise (getlines (lg_out (log_all [(epoch, Debug, ''x''), (epoch, Warn, ''epoll'')] new_logger))) =
    [Some (json_tokens (log_doc epoch Warn ''epoll''))]"
  by (subst log_lines_are_documents)
    (simp_all add: new_logger_def special_chars less_eq_log_level_def)

text \<open>A quote in a message ends the string early: the line is not a document at all.\<close>

lemma unescaped_message:
  assumes "clean message"
  shows "tokenise (log_object t level (message @ [quote])) = None"
proof -
  let ?f = "\<lambda>name v. TStr name # TPunct (CHR '':'') # json_tokens (JStr v)"
  let ?ts = "TPunct (CHR ''{'') # token_commas [?f ''ts'' (timestamp t), ?f ''level'' (label level), ?f ''message'' message]"
  let ?s = "CHR ''{'' # with_commas [json_field ''ts'' (json_quoted (timestamp t)),
    json_field ''level'' (json_quoted (label level)), json_field ''message'' (json_quoted message)]"
  have "reads_as ?s ?ts"
    by (intro reads_punct reads_commas list.rel_intros reads_field represents_clean)
      (simp add: clean_timestamp clean_label assms | simp add: quote_def backslash_def)+
  from reads_asD [OF this, of "[quote, CHR ''}'']"]
  have "tokenise (?s @ [quote, CHR ''}'']) = None"
    by (simp add: ends_word_def plain_def tokenise.simps(2) before_def) (simp add: quote_def backslash_def)
  then show ?thesis by (simp add: log_object_def json_field_def json_quoted_def)
qed

end
