(* ===== verification/LB_Admin.thy ===== *)
theory LB_Admin
  imports LB_Log "HOL-Library.Sublist"
begin

text \<open>
  The admin server of \<open>src/admin.cpp\<close>: its listener and accept loop, and the function that
  serves one client in a thread of its own. What the surroundings decide are parameters: what
  \<open>recv\<close> returns, the results of the \<open>send\<close> calls as a script, the contents of the files, the
  time, and what the other threads have made of the runtime when an event is rendered. The
  client threads are detached and catch nothing, so a \<open>Throw\<close> of \<open>handle_client\<close> ends the
  process.
\<close>

section \<open>Sending\<close>

record conn =
  c_sends :: "write_result list"  \<comment> \<open>results of the next sends; none left: the client is gone\<close>
  c_sent :: bytes
  c_open :: bool

definition sys_send :: "bytes \<Rightarrow> conn \<Rightarrow> write_result \<times> conn" where
  "sys_send data c =
     (case c_sends c of
        [] \<Rightarrow> (WFail, c)
      | WTake room # rs \<Rightarrow>
          (WTake (min room (length data)), c\<lparr>c_sends := rs, c_sent := c_sent c @ take room data\<rparr>)
      | r # rs \<Rightarrow> (r, c\<lparr>c_sends := rs\<rparr>))"

lemma sys_send_shrinks:
  "sys_send data c = (r, c') \<Longrightarrow> r \<noteq> WFail \<Longrightarrow> length (c_sends c') < length (c_sends c)"
  by (auto simp: sys_send_def split: list.splits write_result.splits)

function send_all :: "bytes \<Rightarrow> conn \<Rightarrow> bool \<times> conn" where
  "send_all payload c =
     (if payload = [] then (True, c)
      else case sys_send payload c of
          (WTake written, c') \<Rightarrow>
            if written > 0 then send_all (drop written payload) c' else (False, c')
        | (WIntr, c') \<Rightarrow> send_all payload c'
        | (_, c') \<Rightarrow> (False, c'))"
  by pat_completeness auto
termination
  by (relation "measure (\<lambda>(_, c). length (c_sends c))")
    (auto dest!: sym [of "(_, _)"] dest: sys_send_shrinks)

declare send_all.simps [simp del]

section \<open>Responses\<close>

definition crlf :: string where
  "crlf = [CHR 0x0D, CHR 0x0A]"

definition response :: "string \<Rightarrow> string \<Rightarrow> bytes \<Rightarrow> string \<Rightarrow> bytes" where
  "response status content_type body extra_headers =
     ''HTTP/1.1 '' @ status @ crlf @
     ''Content-Type: '' @ content_type @ crlf @
     ''Content-Length: '' @ show_nat (length body) @ crlf @
     ''Access-Control-Allow-Origin: *'' @ crlf @
     ''Access-Control-Allow-Methods: GET,POST,OPTIONS'' @ crlf @
     ''Access-Control-Allow-Headers: content-type'' @ crlf @
     extra_headers @
     ''Connection: close'' @ crlf @ crlf @
     body"

definition content_type_for :: "string \<Rightarrow> string" where
  "content_type_for path =
     (if suffix ''.css'' path then ''text/css''
      else if suffix ''.js'' path then ''application/javascript''
      else if suffix ''.svg'' path then ''image/svg+xml''
      else ''text/html'')"

text \<open>
  The constructor of \<open>ifstream\<close> takes the path up to its first zero byte. \<open>files\<close> gives what
  reading the file yields, \<open>None\<close> when it cannot be opened.
\<close>

definition c_str :: "string \<Rightarrow> string" where
  "c_str s = takeWhile (\<lambda>c. c \<noteq> CHR 0x00) s"

definition read_file :: "(string \<rightharpoonup> bytes) \<Rightarrow> string \<Rightarrow> bytes" where
  "read_file files path = (case files (c_str path) of None \<Rightarrow> [] | Some contents \<Rightarrow> contents)"

section \<open>One client\<close>

record session =
  se_rt :: runtime
  se_conn :: conn

record surroundings =
  e_now :: int
  e_files :: "string \<rightharpoonup> bytes"
  e_views :: "nat \<Rightarrow> int \<times> runtime"  \<comment> \<open>time and runtime at the events of a stream\<close>

text \<open>\<open>lines >> word\<close>: skips white space and reads up to the next.\<close>

definition next_word :: "string \<Rightarrow> string \<times> string" where
  "next_word s =
     (let t = dropWhile isspace s in (takeWhile (\<lambda>c. \<not> isspace c) t, dropWhile (\<lambda>c. \<not> isspace c) t))"

definition request_words :: "bytes \<Rightarrow> string \<times> string \<times> string" where
  "request_words request =
     (let (method, r1) = next_word request; (path, r2) = next_word r1; (version, r3) = next_word r2
      in (method, path, version))"

definition send_reply :: "string \<Rightarrow> string \<Rightarrow> bytes \<Rightarrow> session \<Rightarrow> session" where
  "send_reply status content_type body s =
     s\<lparr>se_conn := snd (send_all (response status content_type body []) (se_conn s))\<rparr>"

definition reply_with :: "string \<Rightarrow> string \<Rightarrow> bytes res \<Rightarrow> session \<Rightarrow> session out" where
  "reply_with status content_type r s =
     (case r of Inl e \<Rightarrow> Throw e s | Inr body \<Rightarrow> Ok (send_reply status content_type body s))"

definition hang_up :: "session \<Rightarrow> session" where
  "hang_up s = s\<lparr>se_conn := (se_conn s)\<lparr>c_open := False\<rparr>\<rparr>"

definition event_text :: "string \<Rightarrow> bytes" where
  "event_text stats = ''event: stats'' @ [newline] @ ''data: '' @ stats @ [newline, newline]"

text \<open>The loop of \<open>stream_events\<close>: at most \<open>n\<close> more events, \<open>i\<close> have been sent.\<close>

fun event_stream :: "nat \<Rightarrow> nat \<Rightarrow> (nat \<Rightarrow> int \<times> runtime) \<Rightarrow> session \<Rightarrow> session out" where
  "event_stream 0 i views s = Ok s"
| "event_stream (Suc n) i views s =
     (case stats_json (fst (views i)) (snd (views i)) of
        Inl e \<Rightarrow> Throw e s
      | Inr stats \<Rightarrow>
          (let (sent, c) = send_all (event_text stats) (se_conn s) in
           if sent then event_stream n (Suc i) views (s\<lparr>se_conn := c\<rparr>) else Ok (s\<lparr>se_conn := c\<rparr>)))"

definition event_headers :: bytes where
  "event_headers =
     ''HTTP/1.1 200 OK'' @ crlf @
     ''Content-Type: text/event-stream'' @ crlf @
     ''Cache-Control: no-cache'' @ crlf @
     ''Connection: keep-alive'' @ crlf @
     ''Access-Control-Allow-Origin: *'' @ crlf @ crlf"

definition stream_events :: "(nat \<Rightarrow> int \<times> runtime) \<Rightarrow> session \<Rightarrow> session out" where
  "stream_events views s =
     (let (sent, c) = send_all event_headers (se_conn s) in
      if sent then event_stream 7200 0 views (s\<lparr>se_conn := c\<rparr>) else Ok (s\<lparr>se_conn := c\<rparr>))"

definition backends_prefix :: string where
  "backends_prefix = ''/backends/''"

definition not_found :: "session \<Rightarrow> session" where
  "not_found = send_reply ''404 Not Found'' ''application/json''
     (''{'' @ json_field ''error'' (json_quoted ''not found'') @ ''}'')"

definition move_backend :: "int \<Rightarrow> nat \<Rightarrow> backend_state \<Rightarrow> session \<Rightarrow> session out" where
  "move_backend now i st s =
     chain (map_out (\<lambda>r. s\<lparr>se_rt := r\<rparr>) (set_backend_state i st (se_rt s))) (\<lambda>s.
       reply_with ''200 OK'' ''application/json'' (stats_json now (se_rt s)) s)"

text \<open>\<open>tail\<close> is the path after \<open>/backends/\<close>.\<close>

definition post_backend :: "int \<Rightarrow> string \<Rightarrow> session \<Rightarrow> session out" where
  "post_backend now tail s =
     (case str_find (CHR ''/'') tail of
        None \<Rightarrow> Ok (not_found s)
      | Some slash \<Rightarrow>
          (case stoul (take slash tail) of
             Inl e \<Rightarrow> Throw e s
           | Inr n \<Rightarrow>
               let action = drop (slash + 1) tail in
               if action = ''drain'' then move_backend now (unat n) Draining s
               else if action = ''enable'' then move_backend now (unat n) Up s
               else Ok (not_found s)))"

definition serve_file :: "(string \<rightharpoonup> bytes) \<Rightarrow> string \<Rightarrow> session \<Rightarrow> session" where
  "serve_file files path s =
     (let file_path = ''web/dist'' @ (if path = ''/'' then ''/index.html'' else path);
          found = read_file files file_path;
          body = (if found = [] \<and> path \<noteq> ''/'' then read_file files ''web/dist/index.html'' else found)
      in if body = []
         then send_reply ''404 Not Found'' ''text/plain'' (''dashboard build not found'' @ [newline]) s
         else send_reply ''200 OK'' (content_type_for file_path) body s)"

definition dispatch :: "surroundings \<Rightarrow> string \<Rightarrow> string \<Rightarrow> session \<Rightarrow> session out" where
  "dispatch env method path s =
     (if method = ''GET'' \<and> path = ''/stats''
      then reply_with ''200 OK'' ''application/json'' (stats_json (e_now env) (se_rt s)) s
      else if method = ''GET'' \<and> path = ''/metrics''
      then reply_with ''200 OK'' ''text/plain; version=0.0.4'' (prometheus_metrics (se_rt s)) s
      else if method = ''GET'' \<and> path = ''/events'' then stream_events (e_views env) s
      else if method = ''POST'' \<and> prefix backends_prefix path
      then post_backend (e_now env) (drop (length backends_prefix) path) s
      else if method = ''GET'' then Ok (serve_file (e_files env) path s)
      else Ok (send_reply ''405 Method Not Allowed'' ''application/json''
        (''{'' @ json_field ''error'' (json_quoted ''method not allowed'') @ ''}'') s))"

definition handle_client :: "surroundings \<Rightarrow> read_result \<Rightarrow> session \<Rightarrow> session out" where
  "handle_client env received s =
     (case received of
        RData data \<Rightarrow>
          if data = [] then Ok (hang_up s)
          else
            let (method, path, version) = request_words (take 4095 data) in
            if method = ''OPTIONS'' then Ok (hang_up (send_reply ''204 No Content'' ''text/plain'' [] s))
            else chain (dispatch env method path s) (\<lambda>s. Ok (hang_up s))
      | _ \<Rightarrow> Ok (hang_up s))"

section \<open>The server\<close>

text \<open>
  Its \<open>make_listener\<close> ignores the results of \<open>setsockopt\<close> and \<open>fcntl\<close>: the second component
  of the listener says whether the descriptor is nonblocking.
\<close>

definition made_nonblocking :: "attempt \<Rightarrow> bool" where
  "made_nonblocking a \<longleftrightarrow> (if a_getfl a \<noteq> -1 then a_setfl a \<noteq> -1 else False)"

fun admin_listen_loop :: "attempt list \<Rightarrow> kern \<Rightarrow> (fd \<times> bool) option \<times> kern" where
  "admin_listen_loop [] k = (None, k)"
| "admin_listen_loop (a # rest) k =
     (if \<not> a_socket a \<or> table_full k then admin_listen_loop rest k
      else let (fd, k1) = sys_open k in
        if a_bind a = 0 \<and> a_listen a = 0
        then (Some (fd, made_nonblocking a), k1)
        else admin_listen_loop rest (sys_close fd k1))"

definition admin_listener :: "endpoint \<Rightarrow> kern \<Rightarrow> (fd \<times> bool) res \<times> kern" where
  "admin_listener e k =
     (case k_getaddrinfo k (k_calls k) True e of
        Inl text \<Rightarrow> (Inl (RuntimeError (''admin getaddrinfo failed: '' @ text)), tick k)
      | Inr addresses \<Rightarrow>
          (case admin_listen_loop addresses (tick k) of
             (Some l, k1) \<Rightarrow> (Inr l, k1)
           | (None, k1) \<Rightarrow> (Inl (RuntimeError (''failed to bind admin listener '' @ endpoint_label e)), k1)))"

record admin_server =
  ad_listener :: fd
  ad_stop :: bool
  ad_clients :: "fd list"  \<comment> \<open>descriptors handed to client threads, in order\<close>
  ad_log :: "entry list"
  ad_kern :: kern

text \<open>The accept loop with at most \<open>n\<close> rounds before the stop request is seen.\<close>

fun accept_loop :: "nat \<Rightarrow> admin_server \<Rightarrow> admin_server" where
  "accept_loop 0 a = a"
| "accept_loop (Suc n) a =
     (case sys_accept (ad_kern a) of
        (AClient, fd, k) \<Rightarrow> accept_loop n (a\<lparr>ad_kern := k, ad_clients := ad_clients a @ [fd]\<rparr>)
      | (AAgain, _, k) \<Rightarrow> accept_loop n (a\<lparr>ad_kern := k\<rparr>)
      | (AIntr, _, k) \<Rightarrow> accept_loop n (a\<lparr>ad_kern := k\<rparr>)
      | (AFail, _, k) \<Rightarrow> a\<lparr>ad_kern := k\<rparr>)"

text \<open>\<open>std::exception::what\<close>.\<close>

fun what :: "exn \<Rightarrow> string" where
  "what (InvalidArgument text) = text"
| "what (OutOfRange text) = text"
| "what (RuntimeError text) = text"

definition add_log :: "log_level \<Rightarrow> string \<Rightarrow> admin_server \<Rightarrow> admin_server" where
  "add_log level message a = a\<lparr>ad_log := ad_log a @ [(level, message)]\<rparr>"

definition admin_run :: "endpoint \<Rightarrow> nat \<Rightarrow> admin_server \<Rightarrow> admin_server" where
  "admin_run e n a =
     (case admin_listener e (ad_kern a) of
        (Inl ex, k) \<Rightarrow> add_log Error (''admin server failed: '' @ what ex) (a\<lparr>ad_kern := k\<rparr>)
      | (Inr (fd, _), k) \<Rightarrow>
          accept_loop n (add_log Info (''admin listening on '' @ endpoint_label e)
            (a\<lparr>ad_kern := k, ad_listener := fd\<rparr>)))"

definition new_admin :: "kern \<Rightarrow> admin_server" where
  "new_admin k = \<lparr>ad_listener = -1, ad_stop = False, ad_clients = [], ad_log = [], ad_kern = k\<rparr>"

definition admin_start :: "endpoint \<Rightarrow> nat \<Rightarrow> admin_server \<Rightarrow> admin_server" where
  "admin_start e n a = admin_run e n (a\<lparr>ad_stop := False\<rparr>)"

definition admin_stop :: "admin_server \<Rightarrow> admin_server" where
  "admin_stop a =
     a\<lparr>ad_stop := True, ad_kern := close_fd (ad_listener a) (ad_kern a), ad_listener := -1\<rparr>"

section \<open>Sending is all or a prefix\<close>

text \<open>Whether the script lets \<open>n\<close> more bytes through.\<close>

fun takes_all :: "write_result list \<Rightarrow> nat \<Rightarrow> bool" where
  "takes_all rs 0 = True"
| "takes_all [] n = False"
| "takes_all (WTake room # rs) n = (room > 0 \<and> takes_all rs (n - room))"
| "takes_all (WIntr # rs) n = takes_all rs n"
| "takes_all (_ # rs) n = False"

lemma send_all_frame: "c_open (snd (send_all payload c)) = c_open c"
proof (induction payload c rule: send_all.induct)
  case (1 payload c)
  obtain r c' where s: "sys_send payload c = (r, c')" by fastforce
  then have "c_open c' = c_open c" by (auto simp: sys_send_def split: list.splits write_result.splits)
  with 1 s show ?case by (subst send_all.simps) (auto split: write_result.splits)
qed

lemma send_all_step:
  "payload \<noteq> [] \<Longrightarrow> send_all payload c =
     (case sys_send payload c of
        (WTake written, c') \<Rightarrow> if written > 0 then send_all (drop written payload) c' else (False, c')
      | (WIntr, c') \<Rightarrow> send_all payload c'
      | (_, c') \<Rightarrow> (False, c'))"
  by (subst send_all.simps) simp

text \<open>What the result \<open>r\<close> of sending a payload from \<open>c\<close> says.\<close>

definition delivers :: "bytes \<Rightarrow> conn \<Rightarrow> bool \<times> conn \<Rightarrow> bool" where
  "delivers payload c r \<longleftrightarrow>
     (\<exists>n. c_sent (snd r) = c_sent c @ take n payload \<and> (fst r \<longleftrightarrow> n \<ge> length payload) \<and>
        (fst r \<longleftrightarrow> takes_all (c_sends c) (length payload)))"

lemma delivers_nothing:
  "payload \<noteq> [] \<Longrightarrow> \<not> takes_all (c_sends c) (length payload) \<Longrightarrow> c_sent c' = c_sent c \<Longrightarrow>
    delivers payload c (False, c')"
  unfolding delivers_def by (rule exI [of _ 0]) simp

lemma delivers_more:
  assumes "c_sends c = WTake room # rs" and "room > 0" and "m = min room (length payload)"
    and "delivers (drop m payload) (c\<lparr>c_sends := rs, c_sent := c_sent c @ take room payload\<rparr>) r"
    and "payload \<noteq> []"
  shows "delivers payload c r"
proof -
  from assms(4) obtain n where n: "c_sent (snd r) = (c_sent c @ take room payload) @ take n (drop m payload)"
    "fst r \<longleftrightarrow> n \<ge> length payload - m" "fst r \<longleftrightarrow> takes_all rs (length payload - m)"
    by (auto simp: delivers_def)
  obtain k where k: "length payload = Suc k" using assms(5) by (cases payload) auto
  have len: "length payload - m = length payload - room" using assms(3) by (simp add: min_def)
  have "take room payload = take m payload" using assms(3) by (simp add: min_def)
  with n(1) have "c_sent (snd r) = c_sent c @ take (m + n) payload" by (simp add: take_add)
  moreover have "fst r \<longleftrightarrow> m + n \<ge> length payload" using n(2) by auto
  moreover have "fst r \<longleftrightarrow> takes_all (c_sends c) (length payload)"
    using n(3) assms(1,2) k len by simp
  ultimately show ?thesis unfolding delivers_def by blast
qed

lemma send_all_result: "delivers payload c (send_all payload c)"
proof (induction payload c rule: send_all.induct)
  case (1 payload c)
  show ?case
  proof (cases "payload = []")
    case True
    then show ?thesis unfolding delivers_def by (subst (1 2 3) send_all.simps) simp
  next
    case False
    then obtain k where k: "length payload = Suc k" by (cases payload) auto
    note start = send_all_step [OF False, of c]
    show ?thesis
    proof (cases "c_sends c")
      case Nil
      with k delivers_nothing [OF False] show ?thesis by (simp add: start sys_send_def)
    next
      case (Cons r rs)
      show ?thesis
      proof (cases r)
        case (WTake room)
        let ?c = "c\<lparr>c_sends := rs, c_sent := c_sent c @ take room payload\<rparr>"
        have send: "sys_send payload c = (WTake (min room (length payload)), ?c)"
          using Cons WTake by (simp add: sys_send_def)
        show ?thesis
        proof (cases "room = 0")
          case True
          with Cons WTake k send delivers_nothing [OF False] show ?thesis by (simp add: start)
        next
          case pos: False
          with k have "min room (length payload) > 0" by simp
          from "1.IH"(1) [OF False send [symmetric] refl this] pos k
            delivers_more [OF Cons [unfolded WTake] _ refl _ False] show ?thesis by (simp add: start send)
        qed
      next
        case WIntr
        then have send: "sys_send payload c = (WIntr, c\<lparr>c_sends := rs\<rparr>)" using Cons by (simp add: sys_send_def)
        from "1.IH"(2) [OF False send [symmetric] refl] Cons WIntr k show ?thesis
          by (simp add: start send delivers_def)
      qed (use Cons k delivers_nothing [OF False] in \<open>simp_all add: start sys_send_def\<close>)
    qed
  qed
qed

text \<open>
  C24. A reply is sent whole or the sender knows. However the kernel splits the writes and however
  often they are interrupted, \<open>send_all\<close> returns; what it has sent is a prefix of the payload,
  in order and without repetition, and it answers true exactly when that is the whole payload,
  which is exactly when the client takes every remaining byte, a positive number at a time.
\<close>

theorem send_all_delivers:
  "\<exists>n. c_sent (snd (send_all payload c)) = c_sent c @ take n payload \<and>
    (fst (send_all payload c) \<longleftrightarrow> n \<ge> length payload) \<and>
    (fst (send_all payload c) \<longleftrightarrow> takes_all (c_sends c) (length payload))"
  using send_all_result [of payload c] by (simp only: delivers_def)

section \<open>Responses can be read back\<close>

text \<open>
  A reader of responses, independent of the writer: it takes lines up to CR LF until an empty one,
  looks up headers by name, and requires the rest to have the announced length.
\<close>

fun header_line :: "string \<Rightarrow> (string \<times> string) option" where
  "header_line (c # d # cs) =
     (if c = CHR 0x0D \<and> d = CHR 0x0A then Some ([], cs)
      else map_option (\<lambda>(l, rest). (c # l, rest)) (header_line (d # cs)))"
| "header_line _ = None"

lemma header_line_shorter: "header_line s = Some (l, rest) \<Longrightarrow> length rest < length s"
  by (induction s arbitrary: l rest rule: header_line.induct) (fastforce split: if_splits)+

function header_lines :: "string \<Rightarrow> (string list \<times> bytes) option" where
  "header_lines s =
     (case header_line s of
        None \<Rightarrow> None
      | Some (l, rest) \<Rightarrow>
          if l = [] then Some ([], rest)
          else map_option (\<lambda>(ls, body). (l # ls, body)) (header_lines rest))"
  by pat_completeness auto
termination
  by (relation "measure length") (auto dest: header_line_shorter)

declare header_lines.simps [simp del]

definition header_value :: "string \<Rightarrow> string list \<Rightarrow> string option" where
  "header_value name ls =
     map_option (drop (length name)) (List.find (prefix name) ls)"

definition read_response :: "bytes \<Rightarrow> (string \<times> string \<times> bytes) res" where
  "read_response s =
     (case header_lines s of
        Some (start # ls, body) \<Rightarrow>
          (case (header_value ''HTTP/1.1 '' [start], header_value ''Content-Type: '' ls,
                 header_value ''Content-Length: '' ls) of
             (Some status, Some content_type, Some announced) \<Rightarrow>
               if stoul announced = Inr (of_nat (length body)) then Inr (status, content_type, body)
               else Inl (InvalidArgument ''Content-Length'')
           | _ \<Rightarrow> Inl (InvalidArgument ''header''))
      | _ \<Rightarrow> Inl (InvalidArgument ''response''))"

definition header_text :: "string \<Rightarrow> bool" where
  "header_text s \<longleftrightarrow> CHR 0x0D \<notin> set s"

lemma header_text_simps [simp]:
  "header_text []" "header_text (c # s) \<longleftrightarrow> c \<noteq> CHR 0x0D \<and> header_text s"
  "header_text (s @ t) \<longleftrightarrow> header_text s \<and> header_text t"
  by (auto simp: header_text_def)

lemma header_line_crlf: "header_text l \<Longrightarrow> header_line (l @ crlf @ rest) = Some (l, rest)"
proof (induction l)
  case Nil
  then show ?case by (simp add: crlf_def)
next
  case (Cons c l)
  obtain d cs where "l @ crlf @ rest = d # cs" by (cases l) (auto simp: crlf_def)
  with Cons show ?case by simp
qed

lemma header_lines_crlf:
  "header_text l \<Longrightarrow> header_lines (l @ crlf @ rest) =
    (if l = [] then Some ([], rest) else map_option (\<lambda>(ls, body). (l # ls, body)) (header_lines rest))"
  by (subst header_lines.simps) (simp add: header_line_crlf)

lemma header_text_show_nat: "header_text (show_nat n)"
  unfolding header_text_def using show_nat_digits [of "CHR 0x0D" n] by (auto simp: isdigit_def code_def)

definition response_lines :: "string \<Rightarrow> string \<Rightarrow> nat \<Rightarrow> string list" where
  "response_lines status content_type n = [
     ''HTTP/1.1 '' @ status,
     ''Content-Type: '' @ content_type,
     ''Content-Length: '' @ show_nat n,
     ''Access-Control-Allow-Origin: *'',
     ''Access-Control-Allow-Methods: GET,POST,OPTIONS'',
     ''Access-Control-Allow-Headers: content-type'',
     ''Connection: close'']"

lemma header_lines_written:
  "\<forall>l \<in> set ls. header_text l \<and> l \<noteq> [] \<Longrightarrow>
    header_lines (concat (map (\<lambda>l. l @ crlf) ls) @ crlf @ body) = Some (ls, body)"
proof (induction ls)
  case Nil
  then show ?case using header_lines_crlf [of "[]" body] by simp
next
  case (Cons l ls)
  then show ?case by (simp add: header_lines_crlf)
qed

lemma response_as_lines:
  "response status content_type body [] =
    concat (map (\<lambda>l. l @ crlf) (response_lines status content_type (length body))) @ crlf @ body"
  by (simp add: response_def response_lines_def)

lemma read_response_written:
  assumes "header_text status" "header_text content_type" "length body < 2 ^ 64"
  shows "read_response (response status content_type body []) = Inr (status, content_type, body)"
proof -
  have "header_lines (response status content_type body []) =
      Some (response_lines status content_type (length body), body)"
    unfolding response_as_lines
    by (rule header_lines_written) (simp add: response_lines_def assms header_text_show_nat)
  then show ?thesis
    using stoul_show_nat [of "length body"] assms(3)
    by (simp add: read_response_def response_lines_def header_value_def)
qed

definition valid_response :: "string \<times> string \<times> bytes \<Rightarrow> bool" where
  "valid_response = (\<lambda>(status, content_type, body).
     header_text status \<and> header_text content_type \<and> length body < 2 ^ 64)"

interpretation http: codec "\<lambda>(status, content_type, body). response status content_type body []"
  read_response valid_response
  by unfold_locales (auto simp: valid_response_def read_response_written)

text \<open>
  C25. A response can be read. For every status and content type of the server and every body, the
  text of \<open>response\<close> is split by an independent reader of HTTP messages into exactly that
  status, content type and body, the announced length being the length of the body; two different
  replies never have the same text.
\<close>

theorem response_readable:
  assumes "header_text status" "header_text content_type" "length body < 2 ^ 64"
  shows "read_response (response status content_type body []) = Inr (status, content_type, body) \<and>
    (header_text status' \<and> header_text content_type' \<and> length body' < 2 ^ 64 \<and>
      response status' content_type' body' [] = response status content_type body [] \<longrightarrow>
      (status', content_type', body') = (status, content_type, body))"
  using read_response_written [OF assms] http.print_inject [of "(status', content_type', body')" "(status, content_type, body)"]
    assms by (auto simp: valid_response_def)

theorem response_readable_witness:
  "read_response (response ''404 Not Found'' ''text/plain'' ''gone'' []) =
    Inr (''404 Not Found'', ''text/plain'', ''gone'')"
  using response_readable [of "''404 Not Found''" "''text/plain''" "''gone''"] by simp

section \<open>What a request does\<close>

text \<open>
  What a request asks for: nothing but an answer, the move of a backend to a state, or, with an
  index that is no number, the exception of \<open>std::stoul\<close>.
\<close>

definition admin_command :: "string \<Rightarrow> string \<Rightarrow> (nat \<times> backend_state) res option" where
  "admin_command method path =
     (if method = ''POST'' \<and> prefix backends_prefix path then
        let tail = drop (length backends_prefix) path in
        case str_find (CHR ''/'') tail of
          None \<Rightarrow> None
        | Some slash \<Rightarrow>
            (case (stoul (take slash tail), drop (slash + 1) tail) of
               (Inl e, _) \<Rightarrow> Some (Inl e)
             | (Inr n, action) \<Rightarrow>
                 if action = ''drain'' then Some (Inr (unat n, Draining))
                 else if action = ''enable'' then Some (Inr (unat n, Up))
                 else None)
      else None)"

text \<open>A request that only answers: the runtime stays, and no exception leaves.\<close>

definition answers :: "session \<Rightarrow> session out \<Rightarrow> bool" where
  "answers s out \<longleftrightarrow> (\<exists>c. out = Ok (s\<lparr>se_conn := c\<rparr>))"

lemma answers_reply [simp]: "answers s (Ok (send_reply status ct body s))"
  by (auto simp: answers_def send_reply_def)

lemma answers_not_found [simp]: "answers s (Ok (not_found s))"
  by (simp add: not_found_def)

lemma answers_if: "answers s (Ok x) \<Longrightarrow> answers s (Ok y) \<Longrightarrow> answers s (Ok (if b then x else y))"
  by simp

lemma answers_file [simp]: "answers s (Ok (serve_file files path s))"
  unfolding serve_file_def Let_def by (intro answers_if answers_reply)

lemma answers_stats: "wf_runtime (se_rt s) \<Longrightarrow> answers s (reply_with st ct (stats_json now (se_rt s)) s)"
  using stats_json_represents [of "se_rt s" now] by (auto simp: reply_with_def)

lemma answers_metrics: "wf_runtime (se_rt s) \<Longrightarrow> answers s (reply_with st ct (prometheus_metrics (se_rt s)) s)"
  by (simp add: reply_with_def prometheus_unlines)

lemma answers_conn: "answers (s\<lparr>se_conn := c\<rparr>) out \<Longrightarrow> answers s out"
  by (auto simp: answers_def)

lemma answers_stream:
  "\<forall>i. wf_runtime (snd (views i)) \<Longrightarrow> answers s (event_stream n i views s)"
proof (induction n arbitrary: i s)
  case 0
  show ?case by (auto simp: answers_def intro: exI [of _ "se_conn s"])
next
  case (Suc n)
  obtain stats where stats: "stats_json (fst (views i)) (snd (views i)) = Inr stats"
    using stats_json_represents Suc.prems by blast
  obtain sent c where send: "send_all (event_text stats) (se_conn s) = (sent, c)" by fastforce
  from Suc.IH [OF Suc.prems] stats send show ?case
    by (auto simp: answers_def [of _ "Ok _"] intro: answers_conn)
qed

lemma answers_events: "\<forall>i. wf_runtime (snd (views i)) \<Longrightarrow> answers s (stream_events views s)"
proof -
  assume views: "\<forall>i. wf_runtime (snd (views i))"
  obtain sent c where "send_all event_headers (se_conn s) = (sent, c)" by fastforce
  with answers_conn [OF answers_stream [OF views]] show ?thesis
    by (auto simp: stream_events_def answers_def [of _ "Ok _"])
qed

text \<open>The move of a backend, seen from the pool.\<close>

definition moved :: "nat \<Rightarrow> backend_state \<Rightarrow> runtime \<Rightarrow> runtime \<Rightarrow> bool" where
  "moved i st r t \<longleftrightarrow> wf_runtime t \<and> runtime_state t = (runtime_state r)(i := st) \<and>
     runtime_active t = runtime_active r \<and> runtime_fails t = runtime_fails r \<and>
     r_config t = r_config r \<and> r_metrics t = r_metrics r \<and> r_backends t = r_backends r"

lemma set_backend_state_moved:
  assumes "wf_runtime r" "i < pool_size r"
  shows "\<exists>t. set_backend_state i st r = Ok t \<and> moved i st r t"
proof -
  from rt.set_law [OF assms, of st] obtain t where t: "set_backend_state i st r = Ok t" "wf_runtime t"
    "runtime_active t = runtime_active r" "runtime_fails t = runtime_fails r"
    "runtime_state t = (runtime_state r)(i := st)" by blast
  from t(1) have "r_config t = r_config r \<and> r_metrics t = r_metrics r \<and> r_backends t = r_backends r"
    by (auto simp: set_backend_state_def with_sched_def map_out_def split: out.splits)
  with t show ?thesis by (simp add: moved_def)
qed

lemma set_backend_state_outside:
  "wf_runtime r \<Longrightarrow> i \<ge> pool_size r \<Longrightarrow> set_backend_state i st r = Throw index_error r"
  by (simp add: runtime_op_defs scheduler_op_defs wf_runtime_def wf_scheduler_def backend_count_def pool_size_def)

definition moves :: "nat \<Rightarrow> backend_state \<Rightarrow> session \<Rightarrow> session out \<Rightarrow> bool" where
  "moves i st s out \<longleftrightarrow>
     (if i < pool_size (se_rt s)
      then \<exists>t c. out = Ok (s\<lparr>se_rt := t, se_conn := c\<rparr>) \<and> moved i st (se_rt s) t
      else out = Throw index_error s)"

lemma move_backend_effect:
  assumes "wf_runtime (se_rt s)"
  shows "moves i st s (move_backend now i st s)"
proof (cases "i < pool_size (se_rt s)")
  case True
  from set_backend_state_moved [OF assms True] obtain t where
    t: "set_backend_state i st (se_rt s) = Ok t" "moved i st (se_rt s) t" by blast
  then have "wf_runtime (se_rt (s\<lparr>se_rt := t\<rparr>))" by (simp add: moved_def)
  from answers_stats [OF this] t True show ?thesis
    by (force simp: move_backend_def answers_def moves_def)
next
  case False
  with set_backend_state_outside [OF assms, of i st] show ?thesis
    by (simp add: move_backend_def moves_def)
qed

definition does :: "(nat \<times> backend_state) res option \<Rightarrow> session \<Rightarrow> session out \<Rightarrow> bool" where
  "does command s out \<longleftrightarrow>
     (case command of
        None \<Rightarrow> answers s out
      | Some (Inl e) \<Rightarrow> out = Throw e s
      | Some (Inr (i, st)) \<Rightarrow> moves i st s out)"

lemma dispatch_does:
  assumes wf: "wf_runtime (se_rt s)" and views: "\<forall>i. wf_runtime (snd (e_views env i))"
  shows "does (admin_command method path) s (dispatch env method path s)"
proof (cases "method = ''POST'' \<and> prefix backends_prefix path")
  case True
  then show ?thesis
    using move_backend_effect [OF wf]
    by (auto simp: admin_command_def dispatch_def post_backend_def does_def Let_def
        split: option.splits sum.splits)
next
  case False
  with wf views show ?thesis
    by (auto simp: admin_command_def dispatch_def does_def answers_stats answers_metrics answers_events)
qed


text \<open>A client that sends a request and takes the answer, on a runtime with two backends.\<close>

definition sample_session :: session where
  "sample_session = \<lparr>se_rt = fresh_runtime 0 sample_config,
     se_conn = \<lparr>c_sends = [WTake 100000], c_sent = [], c_open = True\<rparr>\<rparr>"

definition sample_surroundings :: surroundings where
  "sample_surroundings = \<lparr>e_now = 0, e_files = [''web/dist/../../etc/passwd'' \<mapsto> ''root''],
     e_views = \<lambda>_. (0, fresh_runtime 0 sample_config)\<rparr>"

lemma sample_session_ok:
  "wf_runtime (se_rt sample_session)" "\<forall>i. wf_runtime (snd (e_views sample_surroundings i))"
proof -
  have "wf_runtime (fresh_runtime 0 sample_config)"
    unfolding fresh_runtime_def by (rule wf_new_runtime) (simp add: sample_config_def)
  then show "wf_runtime (se_rt sample_session)" "\<forall>i. wf_runtime (snd (e_views sample_surroundings i))"
    by (simp_all add: sample_session_def sample_surroundings_def)
qed

lemmas request_eval = request_words_def next_word_def isspace_def code_def Let_def

lemma drain_command: "admin_command ''POST'' ''/backends/1/drain'' = Some (Inr (1, Draining))"
  by (simp add: admin_command_def backends_prefix_def str_find_def stoul_def strip_sign_def
      isspace_def isdigit_def code_def dec_value_def digit_val_def Let_def)

lemma out_of_range_command: "admin_command ''POST'' ''/backends/2/drain'' = Some (Inr (2, Draining))"
  by (simp add: admin_command_def backends_prefix_def str_find_def stoul_def strip_sign_def
      isspace_def isdigit_def code_def dec_value_def digit_val_def Let_def)


section \<open>Files\<close>

text \<open>The documents a request for a file is answered with: the file's or the dashboard's.\<close>

definition file_contents :: "(string \<rightharpoonup> bytes) \<Rightarrow> string \<Rightarrow> bytes" where
  "file_contents files p = (case files p of None \<Rightarrow> [] | Some contents \<Rightarrow> contents)"

lemma c_str_plain: "CHR 0x00 \<notin> set s \<Longrightarrow> c_str s = s"
  unfolding c_str_def by (induction s) auto

lemma read_plain: "CHR 0x00 \<notin> set p \<Longrightarrow> read_file files p = file_contents files p"
  by (simp add: read_file_def file_contents_def c_str_plain)

definition is_route :: "string \<Rightarrow> bool" where
  "is_route path \<longleftrightarrow> path \<in> {''/stats'', ''/metrics'', ''/events''}"

text \<open>
  Which file a request gets. A \<open>GET\<close> of any path that is not a route is answered from the
  file \<open>web/dist\<close> followed by the path as it was sent. Nothing is removed from the path: with
  \<open>..\<close> in it the answer is a file outside the directory. A missing or empty file is replaced by
  the dashboard's page, but with the content type of the missing file; only when that page is
  missing too the answer is 404.
\<close>

theorem get_serves_file:
  assumes "\<not> is_route path" and "path \<noteq> ''/''" and "CHR 0x00 \<notin> set path"
  shows "dispatch env ''GET'' path s = Ok
    (let found = file_contents (e_files env) (''web/dist'' @ path);
         page = file_contents (e_files env) ''web/dist/index.html'';
         body = (if found = [] then page else found)
     in if body = []
        then send_reply ''404 Not Found'' ''text/plain'' (''dashboard build not found'' @ [newline]) s
        else send_reply ''200 OK'' (content_type_for (''web/dist'' @ path)) body s)"
proof -
  have read: "read_file (e_files env) (''web/dist'' @ path) = file_contents (e_files env) (''web/dist'' @ path)"
    "read_file (e_files env) ''web/dist/index.html'' = file_contents (e_files env) ''web/dist/index.html''"
    by (rule read_plain; use assms(3) in simp)+
  have "path \<noteq> ''/stats''" "path \<noteq> ''/metrics''" "path \<noteq> ''/events''" using assms(1) by (auto simp: is_route_def)
  then have "dispatch env ''GET'' path s = Ok (serve_file (e_files env) path s)"
    unfolding dispatch_def by (simp only: if_False simp_thms) simp
  then show ?thesis
    unfolding serve_file_def Let_def if_not_P [OF assms(2)] read by (simp only: assms(2) simp_thms)
qed

theorem get_serves_file_witness:
  "dispatch sample_surroundings ''GET'' ''/../../etc/passwd'' sample_session =
    Ok (send_reply ''200 OK'' ''text/html'' ''root'' sample_session)"
  by (subst get_serves_file)
    (simp_all add: is_route_def file_contents_def sample_surroundings_def content_type_for_def suffix_def
      Let_def)

section \<open>Accepting\<close>

text \<open>
  The admin server does not survive a failed accept. It serves every client that arrives
  before the first error other than \<open>EAGAIN\<close> and \<open>EINTR\<close>, and at that error the loop ends: no
  later client is accepted, the listener stays open and nothing is logged. One such error is a
  full descriptor table.
\<close>

theorem accept_loop_ends:
  assumes "AFail \<notin> set first" and "k_accepts (ad_kern a) = first @ AFail # later"
    and "kern_ok (ad_kern a)" and "card (k_open (ad_kern a)) + length first \<le> k_limit (ad_kern a)"
    and "length first < n"
  shows "length (ad_clients (accept_loop n a)) = length (ad_clients a) + count_list first AClient \<and>
    k_accepts (ad_kern (accept_loop n a)) = later \<and>
    ad_log (accept_loop n a) = ad_log a \<and> ad_listener (accept_loop n a) = ad_listener a"
  using assms
proof (induction first arbitrary: n a)
  case Nil
  then obtain m where "n = Suc m" by (cases n) auto
  with Nil show ?case by (simp add: sys_accept_def Let_def)
next
  case (Cons r first)
  then obtain m where n: "n = Suc m" by (cases n) auto
  let ?k = "(ad_kern a)\<lparr>k_accepts := first @ AFail # later\<rparr>"
  have k: "kern_ok ?k" using Cons.prems(3) by (simp add: kern_ok_def)
  show ?case
  proof (cases "r = AClient")
    case True
    have room: "\<not> table_full (ad_kern a)" "\<not> table_full ?k" using Cons.prems(4) by (simp_all add: table_full_def)
    obtain fd k' where o: "sys_open ?k = (fd, k')" by fastforce
    with kern_ok_open [OF k room(2)] have k': "kern_ok k'" "fd \<notin> k_open (ad_kern a)" by simp_all
    have fields: "k_open k' = insert fd (k_open (ad_kern a))" "k_accepts k' = first @ AFail # later"
      "k_limit k' = k_limit (ad_kern a)"
      using o by (auto simp: sys_open_def Let_def)
    have "finite (k_open (ad_kern a))" using Cons.prems(3) by (simp add: kern_ok_def)
    with k'(2) have "card (k_open k') = Suc (card (k_open (ad_kern a)))" by (simp add: fields)
    with Cons.IH [of "a\<lparr>ad_kern := k', ad_clients := ad_clients a @ [fd]\<rparr>" m] Cons.prems True n o room k' fields
    show ?thesis by (simp add: sys_accept_def)
  next
    case False
    with Cons.prems(1) have "r = AAgain \<or> r = AIntr" by (cases r) auto
    with Cons.IH [of "a\<lparr>ad_kern := ?k\<rparr>" m] Cons.prems n k False show ?thesis
      by (auto simp: sys_accept_def Let_def)
  qed
qed

lemma full_table_ends:
  "table_full (ad_kern a) \<Longrightarrow> k_accepts (ad_kern a) = AClient # later \<Longrightarrow>
    accept_loop (Suc n) a = a\<lparr>ad_kern := (ad_kern a)\<lparr>k_accepts := later\<rparr>\<rparr>"
  by (simp add: sys_accept_def)

theorem accept_loop_ends_witness:
  "k_accepts (ad_kern (accept_loop 9 (new_admin (sample_kern\<lparr>k_accepts := [AIntr, AClient, AFail, AClient]\<rparr>)))) =
    [AClient]"
proof -
  have "kern_ok (sample_kern\<lparr>k_accepts := [AIntr, AClient, AFail, AClient]\<rparr>)"
    using sample_kern_ok by (simp add: kern_ok_def)
  then show ?thesis
    using accept_loop_ends [of "[AIntr, AClient]" "new_admin (sample_kern\<lparr>k_accepts := [AIntr, AClient, AFail, AClient]\<rparr>)"
        "[AClient]" 9]
    by (simp add: new_admin_def) (simp add: sample_kern_def)
qed

text \<open>The listener's address loop opens the descriptor it returns and no other.\<close>

lemma admin_listen_loop_open:
  "kern_ok k \<Longrightarrow> admin_listen_loop as k = (r, k') \<Longrightarrow>
    kern_ok k' \<and> (case r of Some (fd, nb) \<Rightarrow> fd \<notin> k_open k \<and> k_open k' = insert fd (k_open k)
      | None \<Rightarrow> k_open k' = k_open k)"
proof (induction as arbitrary: k)
  case Nil
  then show ?case by auto
next
  case (Cons a as)
  show ?case
  proof (cases "\<not> a_socket a \<or> table_full k")
    case True
    with Cons show ?thesis by auto
  next
    case False
    obtain fd k1 where o: "sys_open k = (fd, k1)" by fastforce
    have ok: "kern_ok k1" "fd \<notin> k_open k" "kern_ok (sys_close fd k1)" "k_open (sys_close fd k1) = k_open k"
      "k_open k1 = insert fd (k_open k)"
      using kern_ok_open [OF Cons.prems(1)] False o sys_close_open [OF Cons.prems(1)] open_fields [of k]
        kern_ok_close [of k1 fd] by auto
    show ?thesis
      using Cons.prems(2) Cons.IH [OF ok(3), unfolded ok(4)] False o ok by (auto split: if_splits)
  qed
qed

lemma sys_accept_open:
  assumes "kern_ok k" and "sys_accept k = (r, fd, k')"
  shows "kern_ok k' \<and> (if r = AClient then fd \<notin> k_open k \<and> k_open k' = insert fd (k_open k)
    else k_open k' = k_open k)"
proof (cases "k_accepts k")
  case Nil
  with assms show ?thesis by (auto simp: sys_accept_def)
next
  case (Cons x xs)
  let ?k = "k\<lparr>k_accepts := xs\<rparr>"
  have k: "kern_ok ?k" using assms(1) by (simp add: kern_ok_def)
  have full: "table_full ?k = table_full k" by (simp add: table_full_def)
  show ?thesis
  proof (cases "x = AClient \<and> \<not> table_full k")
    case True
    with assms(2) Cons have "r = AClient" "fd = fst (sys_open ?k)" "k' = snd (sys_open ?k)"
      by (auto simp: sys_accept_def Let_def split: prod.splits)
    with kern_ok_open [OF k] True full show ?thesis by simp
  next
    case False
    with assms(2) Cons k show ?thesis by (auto simp: sys_accept_def Let_def split: if_splits)
  qed
qed

text \<open>Each accepted client has a descriptor of its own, and nothing else is opened.\<close>

definition serves_more :: "fd list \<Rightarrow> admin_server \<Rightarrow> admin_server \<Rightarrow> bool" where
  "serves_more cs a b \<longleftrightarrow> kern_ok (ad_kern b) \<and> distinct cs \<and> set cs \<inter> k_open (ad_kern a) = {} \<and>
     k_open (ad_kern b) = k_open (ad_kern a) \<union> set cs \<and>
     ad_clients b = ad_clients a @ cs \<and> ad_listener b = ad_listener a \<and> ad_log b = ad_log a"

lemma serves_more_step:
  assumes "serves_more cs (a\<lparr>ad_kern := k, ad_clients := ad_clients a @ [fd]\<rparr>) b"
    and "fd \<notin> k_open (ad_kern a)" "k_open k = insert fd (k_open (ad_kern a))"
  shows "serves_more (fd # cs) a b"
  using assms by (auto simp: serves_more_def)

lemma accept_loop_serves: "kern_ok (ad_kern a) \<Longrightarrow> \<exists>cs. serves_more cs a (accept_loop n a)"
proof (induction n arbitrary: a)
  case 0
  then show ?case by (intro exI [of _ "[]"]) (simp add: serves_more_def)
next
  case (Suc n)
  obtain r fd k where acc: "sys_accept (ad_kern a) = (r, fd, k)" by (metis prod_cases3)
  note k = sys_accept_open [OF Suc.prems acc]
  show ?case
  proof (cases "r = AClient")
    case True
    with k Suc.IH [of "a\<lparr>ad_kern := k, ad_clients := ad_clients a @ [fd]\<rparr>"] obtain cs where
      "serves_more cs (a\<lparr>ad_kern := k, ad_clients := ad_clients a @ [fd]\<rparr>)
        (accept_loop n (a\<lparr>ad_kern := k, ad_clients := ad_clients a @ [fd]\<rparr>))" by auto
    from serves_more_step [OF this] k True show ?thesis
      by (intro exI [of _ "fd # cs"]) (simp add: acc)
  next
    case False
    with k have same: "serves_more cs (a\<lparr>ad_kern := k\<rparr>) b = serves_more cs a b" for cs b
      by (simp add: serves_more_def)
    from k False have "serves_more [] a (a\<lparr>ad_kern := k\<rparr>)" by (simp add: serves_more_def)
    with False k Suc.IH [of "a\<lparr>ad_kern := k\<rparr>"] show ?thesis
      by (cases r) (auto simp: acc same)
  qed
qed

text \<open>
  C29. The admin server gives its listener back. Over its whole life, whatever the address loop and
  the accepts meet, the descriptors that are open afterwards are those that were open before and
  those of the accepted clients, one for each, which belong to the client threads.
\<close>

theorem admin_keeps_no_descriptor:
  assumes "kern_ok k"
  shows "\<exists>cs. ad_clients (admin_stop (admin_start e n (new_admin k))) = cs \<and> distinct cs \<and>
    set cs \<inter> k_open k = {} \<and>
    k_open (ad_kern (admin_stop (admin_start e n (new_admin k)))) = k_open k \<union> set cs"
proof (cases "k_getaddrinfo k (k_calls k) True e")
  case (Inl reason)
  then show ?thesis
    by (simp add: admin_start_def admin_run_def admin_listener_def new_admin_def add_log_def
        admin_stop_def close_fd_def)
next
  case (Inr addresses)
  obtain r k1 where l: "admin_listen_loop addresses (tick k) = (r, k1)" by fastforce
  from admin_listen_loop_open [OF _ l, unfolded tick_open] assms have k1: "kern_ok k1"
    "case r of Some (fd, nb) \<Rightarrow> fd \<notin> k_open k \<and> k_open k1 = insert fd (k_open k) | None \<Rightarrow> k_open k1 = k_open k"
    by simp_all
  show ?thesis
  proof (cases r)
    case None
    with k1 Inr l show ?thesis
      by (simp add: admin_start_def admin_run_def admin_listener_def new_admin_def add_log_def
          admin_stop_def close_fd_def)
  next
    case (Some x)
    obtain fd nb where x: "x = (fd, nb)" by fastforce
    let ?a = "add_log Info (''admin listening on '' @ endpoint_label e) ((new_admin k)\<lparr>ad_kern := k1, ad_listener := fd\<rparr>)"
    have a: "ad_kern ?a = k1" "ad_listener ?a = fd" "ad_clients ?a = []" by (simp_all add: add_log_def new_admin_def)
    have fd: "fd \<notin> k_open k" "k_open k1 = insert fd (k_open k)" using k1(2) Some x by auto
    then have "fd \<noteq> -1" using k1(1) by (auto simp: kern_ok_def)
    obtain cs where cs: "serves_more cs ?a (accept_loop n ?a)"
      using accept_loop_serves [of ?a n] k1(1) a(1) by auto
    have run: "admin_start e n (new_admin k) = accept_loop n ?a"
      using Inr l Some x by (simp add: admin_start_def admin_run_def admin_listener_def new_admin_def)
    define b where "b = accept_loop n ?a"
    from cs have b: "ad_listener b = fd" "ad_clients b = cs" "distinct cs"
      "k_open (ad_kern b) = k_open k1 \<union> set cs" "set cs \<inter> k_open k1 = {}"
      unfolding b_def [symmetric] serves_more_def a by simp_all
    then have "k_open (ad_kern b) - {fd} = k_open k \<union> set cs" "set cs \<inter> k_open k = {}"
      using fd by auto
    with b \<open>fd \<noteq> -1\<close> show ?thesis
      unfolding run b_def [symmetric] by (simp add: admin_stop_def close_fd_def sys_close_def)
  qed
qed

theorem admin_keeps_no_descriptor_witness:
  "\<exists>cs. k_open (ad_kern (admin_stop (admin_start \<lparr>host = ''h'', port = 9100\<rparr> 2 (new_admin sample_kern)))) =
    {3, 4, 5} \<union> set cs"
proof -
  have "k_open sample_kern = {3, 4, 5}" by (simp add: sample_kern_def)
  with admin_keeps_no_descriptor [OF sample_kern_ok, of "\<lparr>host = ''h'', port = 9100\<rparr>" 2] show ?thesis by metis
qed

end
