(* ===== verification/LB_App.thy ===== *)
theory LB_App
  imports LB_Admin
begin

text \<open>
  The process around the components: the constructor, \<open>start\<close> and \<open>shutdown\<close> of
  \<open>TcpLoadBalancer::Impl\<close> in \<open>src/server.cpp\<close>, and \<open>src/main.cpp\<close>. The threads run
  concurrently, so how each of them ends is a parameter here, in the result types of the functions
  that model their bodies: \<open>worker_run\<close>, \<open>health_thread\<close> and \<open>handle_client\<close>.
\<close>

section \<open>The server\<close>

record server =
  sv_rt :: runtime
  sv_admin :: admin_server
  sv_log :: "entry list"
  sv_limit :: "u64 option"  \<comment> \<open>the soft limit requested from \<open>setrlimit\<close>\<close>
  sv_stop :: bool           \<comment> \<open>\<open>stop_requested\<close>\<close>

record threads =
  th_workers :: "worker out list"
  th_health :: thread_end
  th_clients :: "session out list"
  th_rounds :: nat          \<comment> \<open>rounds of the admin server's accept loop\<close>

definition new_impl :: "u32 \<Rightarrow> int \<Rightarrow> kern \<Rightarrow> app_config \<Rightarrow> server" where
  "new_impl detected now k config =
     (let config' = config\<lparr>worker_count := resolved_worker_count detected (worker_count config)\<rparr> in
      \<lparr>sv_rt = new_runtime now config' (new_scheduler (backends config') (policy config')),
       sv_admin = new_admin k, sv_log = [], sv_limit = None, sv_stop = False\<rparr>)"

definition listening_message :: "app_config \<Rightarrow> string" where
  "listening_message config =
     ''listening on '' @ endpoint_label (listen config) @ '' with '' @
     show_nat (unat (worker_count config)) @ '' workers using '' @ policy_to_string (policy config)"

text \<open>The body of worker thread \<open>i\<close>: an exception of \<open>worker_run\<close> is logged and ends the thread.\<close>

definition worker_thread :: "nat \<Rightarrow> worker out \<Rightarrow> entry list" where
  "worker_thread i out =
     (case out of
        Ok _ \<Rightarrow> []
      | Throw e _ \<Rightarrow> [(Error, ''worker '' @ show_nat i @ '' failed: '' @ what e)])"

fun worker_entries :: "nat \<Rightarrow> worker out list \<Rightarrow> entry list" where
  "worker_entries i [] = []"
| "worker_entries i (out # rest) = worker_thread i out @ worker_entries (Suc i) rest"

text \<open>
  \<open>start\<close> spawns \<open>worker_count\<close> workers, joins them, and only then asks the others to stop.
\<close>

definition server_start :: "(u64 \<times> u64) option \<Rightarrow> threads \<Rightarrow> server \<Rightarrow> server" where
  "server_start limits th s =
     (let config = r_config (sv_rt s);
          s1 = s\<lparr>sv_limit := raise_file_limit limits (file_limit config)\<rparr>;
          s2 = s1\<lparr>sv_admin := admin_start (app_config.admin config) (th_rounds th) (sv_admin s1)\<rparr>;
          s3 = s2\<lparr>sv_log := sv_log s2 @ [(Info, listening_message config)]\<rparr>;
          s4 = s3\<lparr>sv_log := sv_log s3 @ worker_entries 0 (take (unat (worker_count config)) (th_workers th))\<rparr>;
          s5 = s4\<lparr>sv_stop := True\<rparr>
      in s5\<lparr>sv_admin := admin_stop (sv_admin s5)\<rparr>)"

definition server_shutdown :: "server \<Rightarrow> server" where
  "server_shutdown s = s\<lparr>sv_admin := admin_stop (sv_admin s)\<rparr>"

definition run_server :: "(u64 \<times> u64) option \<Rightarrow> threads \<Rightarrow> server \<Rightarrow> server" where
  "run_server limits th s = server_shutdown (server_start limits th s)"

text \<open>The handler of \<open>SIGINT\<close> and \<open>SIGTERM\<close>; the loops of the threads read the flag.\<close>

definition handle_signal :: "server \<Rightarrow> server" where
  "handle_signal s = s\<lparr>sv_stop := True\<rparr>"

text \<open>An exception that leaves the health thread or a client's thread ends the process.\<close>

definition aborts :: "threads \<Rightarrow> bool" where
  "aborts th \<longleftrightarrow>
     (case th_health th of Terminated _ _ \<Rightarrow> True | Stopped _ \<Rightarrow> False) \<or>
     list_ex (\<lambda>out. case out of Throw _ _ \<Rightarrow> True | Ok _ \<Rightarrow> False) (th_clients th)"

section \<open>The command line\<close>

datatype arguments = RunWith string | Help | BadArgument string

fun parse_arguments :: "string \<Rightarrow> string list \<Rightarrow> arguments" where
  "parse_arguments config_path [] = RunWith config_path"
| "parse_arguments config_path [arg] =
     (if arg = ''--help'' \<or> arg = ''-h'' then Help else BadArgument arg)"
| "parse_arguments config_path (arg # next # rest) =
     (if arg = ''--help'' \<or> arg = ''-h'' then Help
      else if arg = ''--config'' then parse_arguments next rest
      else BadArgument arg)"

definition usage :: "string \<Rightarrow> string" where
  "usage argv0 = unlines [
     ''Usage: '' @ argv0 @ '' --config <path>'',
     [],
     ''Options:'',
     ''  --config <path>  Load balancer config file. Default: config/backends.conf'',
     ''  --help           Show this help text'']"

definition default_path :: string where
  "default_path = ''config/backends.conf''"

text \<open>How the process ends: with an exit status, or aborted by an exception nothing catches.\<close>

datatype ending = Exit int | Aborted

record outcome =
  o_ending :: ending
  o_stdout :: string
  o_stderr :: string         \<comment> \<open>without the log\<close>
  o_server :: "server option"

record machine =
  mc_files :: "string \<rightharpoonup> string"
  mc_limits :: "(u64 \<times> u64) option"
  mc_detected :: u32         \<comment> \<open>\<open>hardware_concurrency\<close>\<close>
  mc_now :: int
  mc_kern :: kern
  mc_threads :: threads

definition main :: "machine \<Rightarrow> string \<Rightarrow> string list \<Rightarrow> outcome" where
  "main mc argv0 args =
     (case parse_arguments default_path args of
        Help \<Rightarrow> \<lparr>o_ending = Exit 0, o_stdout = usage argv0, o_stderr = [], o_server = None\<rparr>
      | BadArgument arg \<Rightarrow>
          \<lparr>o_ending = Exit 2, o_stdout = usage argv0,
           o_stderr = ''unknown or incomplete argument: '' @ arg @ [newline], o_server = None\<rparr>
      | RunWith path \<Rightarrow>
          (case load_config_file (mc_files mc) path of
             Inl e \<Rightarrow>
               \<lparr>o_ending = Exit 1, o_stdout = [], o_stderr = ''fatal: '' @ what e @ [newline], o_server = None\<rparr>
           | Inr config \<Rightarrow>
               let s = run_server (mc_limits mc) (mc_threads mc)
                 (new_impl (mc_detected mc) (mc_now mc) (mc_kern mc) config)
               in \<lparr>o_ending = (if aborts (mc_threads mc) then Aborted else Exit 0),
                   o_stdout = [], o_stderr = [], o_server = Some s\<rparr>))"

section \<open>The grammar of the command line\<close>

definition options :: "string list \<Rightarrow> string list" where
  "options paths = concat (map (\<lambda>path. [''--config'', path]) paths)"

lemma options_simps [simp]: "options [] = []" "options (p # ps) = ''--config'' # p # options ps"
  by (simp_all add: options_def)

lemma parse_options: "parse_arguments p (options ps @ rest) = parse_arguments (last (p # ps)) rest"
proof (induction ps arbitrary: p)
  case (Cons q ps)
  then show ?case by (cases ps) simp_all
qed simp

text \<open>Where the loop stops.\<close>

definition stops :: "string list \<Rightarrow> arguments \<Rightarrow> string \<Rightarrow> bool" where
  "stops rest result path \<longleftrightarrow>
     (case rest of
        [] \<Rightarrow> result = RunWith path
      | arg # others \<Rightarrow>
          if arg = ''--help'' \<or> arg = ''-h'' then result = Help
          else result = BadArgument arg \<and> (arg = ''--config'' \<longrightarrow> others = []))"

lemma parse_stops: "stops rest result path \<Longrightarrow> parse_arguments path rest = result"
  by (cases rest; cases "tl rest") (auto simp: stops_def split: if_splits)

lemma parse_splits: "\<exists>ps rest. args = options ps @ rest \<and> stops rest (parse_arguments p args) (last (p # ps))"
proof (induction p args rule: parse_arguments.induct)
  case (1 p)
  show ?case by (intro exI [of _ "[]"]) (simp add: stops_def)
next
  case (2 p arg)
  show ?case by (intro exI [of _ "[]"] exI [of _ "[arg]"]) (simp add: stops_def)
next
  case (3 p arg nxt rest)
  show ?case
  proof (cases "arg = ''--config''")
    case True
    with 3 obtain ps rest' where "rest = options ps @ rest'"
      "stops rest' (parse_arguments nxt rest) (last (nxt # ps))" by auto
    with True show ?thesis by (intro exI [of _ "nxt # ps"] exI [of _ rest']) simp
  next
    case False
    then show ?thesis by (intro exI [of _ "[]"] exI [of _ "arg # nxt # rest"]) (simp add: stops_def)
  qed
qed

text \<open>
  C34. The loop over the arguments parses a grammar. It accepts with a path exactly the command
  lines that repeat \<open>--config\<close> with a value, the last value winning and any text, an option
  included, serving as a value; it asks for help exactly when such a sequence is followed by
  \<open>--help\<close> or \<open>-h\<close>, whatever comes after; and it rejects exactly the argument that follows
  such a sequence and is neither of the two, a \<open>--config\<close> only when nothing follows it.
\<close>

theorem arguments_grammar:
  "parse_arguments config_path args = result \<longleftrightarrow>
     (\<exists>paths rest. args = options paths @ rest \<and>
       (case rest of
          [] \<Rightarrow> result = RunWith (last (config_path # paths))
        | arg # others \<Rightarrow>
            if arg = ''--help'' \<or> arg = ''-h'' then result = Help
            else result = BadArgument arg \<and> (arg = ''--config'' \<longrightarrow> others = [])))"
    (is "_ \<longleftrightarrow> (\<exists>paths rest. ?split paths rest)")
proof
  assume "parse_arguments config_path args = result"
  with parse_splits [of args config_path] show "\<exists>paths rest. ?split paths rest"
    unfolding stops_def by blast
next
  assume "\<exists>paths rest. ?split paths rest"
  then obtain paths rest where split: "args = options paths @ rest"
    "stops rest result (last (config_path # paths))" unfolding stops_def by blast
  then show "parse_arguments config_path args = result" by (simp add: parse_options parse_stops)
qed

theorem arguments_grammar_witness:
  "parse_arguments ''d'' [''--config'', ''--help'', ''-h'', ''x''] = Help"
  unfolding arguments_grammar
  by (intro exI [of _ "[''--help'']"] exI [of _ "[''-h'', ''x'']"]) simp

section \<open>How the process ends\<close>

lemma entries_Error: "\<forall>(level, message) \<in> set (worker_entries i outs). level = Error"
  by (induction outs arbitrary: i) (auto simp: worker_thread_def split: out.splits)

definition failed :: "'s out \<Rightarrow> bool" where
  "failed out \<longleftrightarrow> (case out of Throw _ _ \<Rightarrow> True | Ok _ \<Rightarrow> False)"

lemma entries_count: "length (worker_entries i outs) = length (filter failed outs)"
  by (induction outs arbitrary: i) (auto simp: worker_thread_def failed_def split: out.splits)

lemma server_start_views:
  fixes s :: server
  defines "config \<equiv> r_config (sv_rt s)"
  shows "sv_log (run_server limits th s) = sv_log s @ (Info, listening_message config) #
      worker_entries 0 (take (unat (worker_count config)) (th_workers th))"
    and "sv_stop (run_server limits th s)" and "ad_stop (sv_admin (run_server limits th s))"
    and "ad_listener (sv_admin (run_server limits th s)) = -1"
    and "sv_rt (run_server limits th s) = sv_rt s"
  unfolding run_server_def server_shutdown_def server_start_def Let_def config_def
  by (simp_all add: admin_stop_def)

lemma new_impl_views:
  "r_config (sv_rt (new_impl detected now k config)) =
    config\<lparr>worker_count := resolved_worker_count detected (worker_count config)\<rparr>"
  "sv_log (new_impl detected now k config) = []"
  by (simp_all add: new_impl_def new_runtime_def Let_def)

text \<open>
  C35. A server without workers reports success. When the configuration loads and every worker fails
  at once, because the address cannot be bound for example, the failures are logged, one error
  line for each worker, but they reach nothing else: \<open>start\<close> returns, the stop flag is set,
  the admin server is stopped, and the process exits with status 0, not 1.
\<close>

theorem all_workers_failing_exits_zero:
  assumes "parse_arguments default_path args = RunWith path"
    and "load_config_file (mc_files mc) path = Inr config"
    and "length (th_workers (mc_threads mc)) =
      unat (resolved_worker_count (mc_detected mc) (worker_count config))"
    and "\<forall>out \<in> set (th_workers (mc_threads mc)). failed out"
    and "\<not> aborts (mc_threads mc)"
  shows "o_ending (main mc argv0 args) = Exit 0 \<and>
    (\<exists>s. o_server (main mc argv0 args) = Some s \<and> sv_stop s \<and> ad_listener (sv_admin s) = -1 \<and>
       length (filter (\<lambda>(level, _). level = Error) (sv_log s)) =
         unat (resolved_worker_count (mc_detected mc) (worker_count config)) \<and>
       unat (resolved_worker_count (mc_detected mc) (worker_count config)) > 0)"
proof -
  let ?init = "new_impl (mc_detected mc) (mc_now mc) (mc_kern mc) config"
  let ?s = "run_server (mc_limits mc) (mc_threads mc) ?init"
  let ?n = "unat (resolved_worker_count (mc_detected mc) (worker_count config))"
  have log: "sv_log ?s = (Info, listening_message (r_config (sv_rt ?init))) # worker_entries 0 (th_workers (mc_threads mc))"
    using server_start_views(1) [of "mc_limits mc" "mc_threads mc" ?init] assms(3) by (simp add: new_impl_views)
  have "filter (\<lambda>(level, _). level = Error) (sv_log ?s) = worker_entries 0 (th_workers (mc_threads mc))"
    using entries_Error [of 0 "th_workers (mc_threads mc)"] by (simp add: log filter_id_conv)
  moreover have "filter failed (th_workers (mc_threads mc)) = th_workers (mc_threads mc)"
    using assms(4) by (simp add: filter_id_conv)
  ultimately have "length (filter (\<lambda>(level, _). level = Error) (sv_log ?s)) = ?n"
    using entries_count [of 0 "th_workers (mc_threads mc)"] assms(3) by simp
  moreover have "resolved_worker_count (mc_detected mc) (worker_count config) > 0"
    by (auto simp: resolved_worker_count_def not_le max_def word_gt_0 not_less split: if_splits)
  then have "?n > 0" by (simp add: word_less_nat_alt)
  moreover have "o_ending (main mc argv0 args) = Exit 0" "o_server (main mc argv0 args) = Some ?s"
    using assms(1,2,5) by (simp_all add: main_def Let_def)
  ultimately show ?thesis using server_start_views(2,4) [of "mc_limits mc" "mc_threads mc" ?init] by blast
qed

text \<open>A machine where no address can be bound, with the sample configuration of four workers.\<close>

definition unbound_kern :: kern where
  "unbound_kern = sample_kern\<lparr>k_getaddrinfo := \<lambda>_ _ _. Inr [\<lparr>a_socket = True, a_reuseaddr = 0,
     a_reuseport = 0, a_getfl = 0, a_setfl = 0, a_connect = True, a_bind = -1, a_listen = 0\<rparr>]\<rparr>"

definition unbound_worker :: "worker out" where
  "unbound_worker = worker_run True True True [] (new_worker (fresh_runtime 0 sample_config) unbound_kern)"

definition sample_machine :: machine where
  "sample_machine = \<lparr>
     mc_files = [''lb.conf'' \<mapsto> unlines (map setting_line (config_settings sample_config))],
     mc_limits = Some (1024, 524288), mc_detected = 8, mc_now = 0, mc_kern = unbound_kern,
     mc_threads = \<lparr>th_workers = replicate 4 unbound_worker, th_health = Stopped sample_prober,
       th_clients = [], th_rounds = 3\<rparr>\<rparr>"

lemma unbound_worker_fails: "failed unbound_worker"
  by (simp add: unbound_worker_def worker_run_def new_worker_def make_listener_def resolve_endpoint_def
      unbound_kern_def sample_kern_def tick_def table_full_def sys_open_def Let_def set_reuse_options_def
      set_nonblocking_def sys_close_def failed_def)

theorem all_workers_failing_exits_zero_witness:
  "o_ending (main sample_machine ''tcp_lb'' [''--config'', ''lb.conf'']) = Exit 0"
proof -
  have "o_ending (main sample_machine ''tcp_lb'' [''--config'', ''lb.conf'']) = Exit 0 \<and>
    (\<exists>s. o_server (main sample_machine ''tcp_lb'' [''--config'', ''lb.conf'']) = Some s \<and> sv_stop s \<and>
       ad_listener (sv_admin s) = -1 \<and>
       length (filter (\<lambda>(level, _). level = Error) (sv_log s)) =
         unat (resolved_worker_count (mc_detected sample_machine) (worker_count sample_config)) \<and>
       unat (resolved_worker_count (mc_detected sample_machine) (worker_count sample_config)) > 0)"
  proof (rule all_workers_failing_exits_zero)
    show "parse_arguments default_path [''--config'', ''lb.conf''] = RunWith ''lb.conf''" by simp
    show "load_config_file (mc_files sample_machine) ''lb.conf'' = Inr sample_config"
      using sample_config_loads by (simp add: sample_machine_def)
    show "length (th_workers (mc_threads sample_machine)) =
        unat (resolved_worker_count (mc_detected sample_machine) (worker_count sample_config))"
      by (simp add: sample_machine_def resolved_worker_count_def sample_config_def)
    show "\<forall>out \<in> set (th_workers (mc_threads sample_machine)). failed out"
      by (simp add: sample_machine_def unbound_worker_fails)
    show "\<not> aborts (mc_threads sample_machine)"
      by (simp add: sample_machine_def aborts_def)
  qed
  then show ?thesis by simp
qed

end
