(* ===== verification/LB_Process.thy ===== *)
theory LB_Process
  imports LB_App
begin

text \<open>
  All threads of the process together. They share the runtime, and each worker has its own
  descriptors and peers. A step of the process is one event of one worker, one health check, one
  admin client, or something that the network does; steps of different threads follow each other
  in any order. What the steps of one thread find in the runtime is what all the others made of it.
\<close>

section \<open>The steps of the process\<close>

record process =
  ps_rt :: runtime
  ps_workers :: "worker list"  \<comment> \<open>their runtime is the shared one\<close>

definition worker_at :: "nat \<Rightarrow> process \<Rightarrow> worker" where
  "worker_at j p = (ps_workers p ! j)\<lparr>w_rt := ps_rt p\<rparr>"

definition put_worker :: "nat \<Rightarrow> worker \<Rightarrow> process \<Rightarrow> process" where
  "put_worker j w p = p\<lparr>ps_rt := w_rt w, ps_workers := (ps_workers p)[j := w]\<rparr>"

text \<open>The network and the kernel may change everything but the descriptors and their bytes.\<close>

definition same_descriptors :: "kern \<Rightarrow> kern \<Rightarrow> bool" where
  "same_descriptors k k' \<longleftrightarrow> kern_ok k' \<and> k_open k' = k_open k \<and> k_rcvd k' = k_rcvd k \<and> k_sent k' = k_sent k"

inductive process_step :: "process \<Rightarrow> process \<Rightarrow> bool" where
  worker: "j < length (ps_workers p) \<Longrightarrow>
    process_step p (put_worker j (state_of (handle_event ev (worker_at j p))) p)"
| network: "j < length (ps_workers p) \<Longrightarrow> same_descriptors (w_kern (worker_at j p)) k \<Longrightarrow>
    process_step p (put_worker j ((worker_at j p)\<lparr>w_kern := k\<rparr>) p)"
| health: "i < backend_count (r_sched (ps_rt p)) \<Longrightarrow> kern_ok k \<Longrightarrow>
    health_check i \<lparr>h_rt = ps_rt p, h_kern = k\<rparr> = Ok h \<Longrightarrow> process_step p (p\<lparr>ps_rt := h_rt h\<rparr>)"
| admin: "\<forall>n. wf_runtime (snd (e_views env n)) \<Longrightarrow>
    handle_client env received \<lparr>se_rt = ps_rt p, se_conn = c\<rparr> = Ok s \<Longrightarrow> process_step p (p\<lparr>ps_rt := se_rt s\<rparr>)"

inductive_cases process_stepE: "process_step p q"

section \<open>The invariant\<close>

text \<open>The part of a worker's invariant that does not depend on the runtime but for its size.\<close>

definition own_inv :: "nat \<Rightarrow> worker \<Rightarrow> bool" where
  "own_inv n w \<longleftrightarrow>
     kern_ok (w_kern w) \<and> paired_shape n (shape (w_peers w)) \<and>
     finite (dom (w_peers w)) \<and> dom (w_peers w) \<subseteq> k_open (w_kern w) \<and>
     fixed_fds w \<inter> dom (w_peers w) = {} \<and> fixed_fds w \<subseteq> k_open (w_kern w) \<and>
     (\<forall>fd p. w_peers w fd = Some p \<longrightarrow> local_ok p) \<and> streams (w_peers w) (w_kern w)"

definition own_load :: "worker \<Rightarrow> nat \<Rightarrow> nat" where
  "own_load w i = load (shape (w_peers w)) i"

definition total_load :: "worker list \<Rightarrow> nat \<Rightarrow> nat" where
  "total_load ws i = sum_list (map (\<lambda>w. own_load w i) ws)"

definition process_inv :: "process \<Rightarrow> bool" where
  "process_inv p \<longleftrightarrow>
     wf_runtime (ps_rt p) \<and> length (ps_workers p) < 2 ^ 32 \<and>
     (\<forall>w \<in> set (ps_workers p). own_inv (pool_size (ps_rt p)) w) \<and>
     rt.counts (ps_rt p) (total_load (ps_workers p))"

lemma own_inv_rt [simp]: "own_inv n (w\<lparr>w_rt := r\<rparr>) = own_inv n w"
  by (simp add: own_inv_def fixed_fds_def)

lemma own_load_rt [simp]: "own_load (w\<lparr>w_rt := r\<rparr>) = own_load w"
  by (simp add: own_load_def fun_eq_iff)

lemma worker_inv_own:
  "worker_inv base w \<longleftrightarrow>
     wf_runtime (w_rt w) \<and> own_inv (pool_size (w_rt w)) w \<and> rt.counts (w_rt w) (\<lambda>i. base i + own_load w i)"
  by (auto simp: worker_inv_def own_inv_def own_load_def)

lemma own_load_bound:
  assumes "own_inv n w"
  shows "own_load w i < 2 ^ 31"
proof -
  have kern: "kern_ok (w_kern w)" and sub: "dom (w_peers w) \<subseteq> k_open (w_kern w)"
    using assms by (simp_all add: own_inv_def)
  have "client_fds S i \<subseteq> dom S" for S by (auto simp: client_fds_def)
  from this [of "shape (w_peers w)"] sub have "card (client_fds (shape (w_peers w)) i) \<le> card (k_open (w_kern w))"
    using kern by (intro card_mono) (auto simp: kern_ok_def)
  also have "\<dots> < 2 ^ 31" using kern by (simp add: kern_ok_def)
  finally show ?thesis by (simp add: own_load_def load_def)
qed

lemma total_load_bound:
  "\<forall>w \<in> set ws. own_inv n w \<Longrightarrow> total_load ws i \<le> length ws * 2 ^ 31"
proof (induction ws)
  case (Cons w ws)
  then have "own_load w i < 2 ^ 31" using own_load_bound [of n w i] by simp
  with Cons show ?case by (simp add: total_load_def)
qed (simp add: total_load_def)

lemma total_load_update:
  assumes "j < length ws"
  shows "total_load (ws[j := w]) i + own_load (ws ! j) i = total_load ws i + own_load w i"
  using sum_list_update_nat [of j "map (\<lambda>w. own_load w i) ws" "own_load w i"] assms
  by (simp add: total_load_def map_update)

text \<open>What the workers other than \<open>j\<close> hold.\<close>

definition other_load :: "nat \<Rightarrow> worker list \<Rightarrow> nat \<Rightarrow> nat" where
  "other_load j ws i = total_load ws i - own_load (ws ! j) i"

lemma other_load_sum:
  assumes "j < length ws"
  shows "other_load j ws i + own_load (ws ! j) i = total_load ws i"
    and "other_load j ws i + own_load w i = total_load (ws[j := w]) i"
proof -
  have "own_load (ws ! j) i \<le> total_load ws i"
    unfolding total_load_def using assms by (intro member_le_sum_list) (auto intro!: image_eqI)
  with total_load_update [OF assms, of w i]
  show "other_load j ws i + own_load (ws ! j) i = total_load ws i"
    "other_load j ws i + own_load w i = total_load (ws[j := w]) i"
    by (simp_all add: other_load_def)
qed

text \<open>A worker of a process in the invariant has its own, on top of the others.\<close>

lemma worker_at_inv:
  assumes inv: "process_inv p" and j: "j < length (ps_workers p)"
  shows "worker_inv (other_load j (ps_workers p)) (worker_at j p)"
    and "\<forall>i. other_load j (ps_workers p) i < 2 ^ 63"
proof -
  have own: "\<forall>w \<in> set (ps_workers p). own_inv (pool_size (ps_rt p)) w" and wf: "wf_runtime (ps_rt p)"
    and counts: "rt.counts (ps_rt p) (total_load (ps_workers p))" and few: "length (ps_workers p) < 2 ^ 32"
    using inv by (simp_all add: process_inv_def)
  show "worker_inv (other_load j (ps_workers p)) (worker_at j p)"
    using own wf counts j by (simp add: worker_inv_own worker_at_def other_load_sum(1) [OF j])
  show "\<forall>i. other_load j (ps_workers p) i < 2 ^ 63"
  proof
    fix i
    have "other_load j (ps_workers p) i \<le> length (ps_workers p) * 2 ^ 31"
      using total_load_bound [OF own, of i] by (simp add: other_load_def)
    also have "\<dots> < 2 ^ 32 * 2 ^ 31" using few by (intro mult_strict_right_mono) simp_all
    finally show "other_load j (ps_workers p) i < 2 ^ 63" by simp
  qed
qed

lemma put_worker_inv:
  assumes inv: "process_inv p" and j: "j < length (ps_workers p)"
    and w: "worker_inv (other_load j (ps_workers p)) w" "pool_size (w_rt w) = pool_size (ps_rt p)"
  shows "process_inv (put_worker j w p)"
proof -
  have "own_inv (pool_size (ps_rt p)) v" if "v \<in> set ((ps_workers p)[j := w])" for v
    using that inv w set_update_subset_insert [of "ps_workers p" j w]
    by (auto simp: process_inv_def worker_inv_own)
  moreover have "rt.counts (w_rt w) (total_load ((ps_workers p)[j := w]))"
    using w(1) other_load_sum(2) [OF j, of _ w] by (simp add: worker_inv_own)
  ultimately show ?thesis
    using inv w by (simp add: process_inv_def put_worker_def worker_inv_own)
qed

text \<open>The other threads keep the size of the pool and every count.\<close>

lemma shared_inv:
  assumes "process_inv p" "wf_runtime r" "pool_size r = pool_size (ps_rt p)"
    and "runtime_active r = runtime_active (ps_rt p)"
  shows "process_inv (p\<lparr>ps_rt := r\<rparr>)"
  using assms by (simp add: process_inv_def rt.counts_def)

lemma health_check_keeps:
  assumes "prober_ok h" "i < pool_size (h_rt h)" "health_check i h = Ok h'"
  shows "wf_runtime (h_rt h') \<and> pool_size (h_rt h') = pool_size (h_rt h) \<and>
    runtime_active (h_rt h') = runtime_active (h_rt h)"
proof (cases "runtime_state (h_rt h) i = Draining")
  case True
  with check_cases(1) [OF assms(1,2)] assms show ?thesis by (simp add: prober_ok_def)
next
  case False
  obtain x k where p: "probe_of i h = (x, k)" by fastforce
  with check_cases(2) [OF assms(1,2) False] assms(3) obtain ok l where x: "x = Inr (ok, l)"
    by (cases x) auto
  let ?h = "h\<lparr>h_kern := k\<rparr>"
  have "wf_runtime (h_rt ?h)" "i < pool_size (h_rt ?h)" "runtime_state (h_rt ?h) i \<noteq> Draining"
    using assms False by (simp_all add: prober_ok_def)
  from report_step [OF this, of ok "case l of None \<Rightarrow> 0 | Some x \<Rightarrow> x"]
    check_cases(3) [OF assms(1,2) False] p x assms(3)
  show ?thesis by auto
qed

lemma handle_client_keeps:
  assumes wf: "wf_runtime (se_rt s)" and views: "\<forall>n. wf_runtime (snd (e_views env n))"
    and ok: "handle_client env received s = Ok s'"
  shows "wf_runtime (se_rt s') \<and> pool_size (se_rt s') = pool_size (se_rt s) \<and>
    runtime_active (se_rt s') = runtime_active (se_rt s)"
proof -
  have hang: "se_rt (hang_up t) = se_rt t" for t by (simp add: hang_up_def)
  have "wf_runtime (se_rt t) \<and> pool_size (se_rt t) = pool_size (se_rt s) \<and>
      runtime_active (se_rt t) = runtime_active (se_rt s)" if "dispatch env m q s = Ok t" for m q t
    using dispatch_does [OF wf views, of m q] that wf
    by (auto simp: does_def answers_def moves_def moved_def pool_size_def split: option.splits sum.splits if_splits)
  then show ?thesis
    using ok wf
    by (auto simp: handle_client_def Let_def hang send_reply_def chain_Ok
        split: read_result.splits if_splits prod.splits)
qed

interpretation whole: step_invariant process_step process_inv
proof unfold_locales
  fix p q
  assume "process_step p q" and inv: "process_inv p"
  then show "process_inv q"
  proof cases
    case (worker j ev)
    from safe_event [OF worker_at_inv [OF inv worker(2)], of ev] show ?thesis
      unfolding worker(1) by (intro put_worker_inv inv worker(2)) (auto simp: safe_def frame_def worker_at_def)
  next
    case (network j k)
    from inv_kern [OF worker_at_inv(1) [OF inv network(2)], of k] network(3) show ?thesis
      unfolding network(1)
      by (intro put_worker_inv inv network(2)) (auto simp: same_descriptors_def worker_at_def)
  next
    case (health i k h)
    have "prober_ok \<lparr>h_rt = ps_rt p, h_kern = k\<rparr>" "i < pool_size (ps_rt p)"
      using inv health(2,3) by (simp_all add: prober_ok_def process_inv_def wf_runtime_def pool_size_def)
    with health_check_keeps [OF _ _ health(4)] inv show ?thesis
      unfolding health(1) by (intro shared_inv) auto
  next
    case (admin env received c s)
    with handle_client_keeps [OF _ admin(2,3)] inv show ?thesis
      unfolding admin(1) by (intro shared_inv) (auto simp: process_inv_def)
  qed
qed

section \<open>Properties\<close>

text \<open>The connections that worker \<open>w\<close> holds on backend \<open>i\<close>, by the descriptors of their clients.\<close>

definition clients_on :: "nat \<Rightarrow> worker \<Rightarrow> fd set" where
  "clients_on i w = {fd. \<exists>p. w_peers w fd = Some p \<and> p_backend p = i \<and> \<not> p_backend_side p}"

lemma own_load_clients: "own_load w i = card (clients_on i w)"
proof -
  have "client_fds (shape (w_peers w)) i = clients_on i w"
    by (auto simp: client_fds_def clients_on_def shape_def core_def)
  then show ?thesis by (simp add: own_load_def load_def)
qed

lemma process_counts:
  "process_inv p \<Longrightarrow> i < pool_size (ps_rt p) \<Longrightarrow>
    unat (runtime_active (ps_rt p) i) = (\<Sum>w\<leftarrow>ps_workers p. card (clients_on i w))"
  by (simp add: process_inv_def rt.counts_def total_load_def own_load_clients)

text \<open>
  The connection counters are exact for the whole process. However the events of the workers, the
  health checks, the admin clients and the network interleave: in every state that the process
  reaches, the active counter of each backend is the number of connections that all workers
  together hold on it, and in each worker the bytes written to a descriptor, followed by those that
  wait for it, are the bytes read from its partner.
\<close>

theorem process_consistent:
  assumes "process_step\<^sup>*\<^sup>* p0 p" and "process_inv p0"
  shows "(i < pool_size (ps_rt p) \<longrightarrow>
      unat (runtime_active (ps_rt p) i) = (\<Sum>w\<leftarrow>ps_workers p. card (clients_on i w))) \<and>
    (w \<in> set (ps_workers p) \<and> w_peers w fd = Some q \<longrightarrow>
      k_rcvd (w_kern w) (p_paired q) = k_sent (w_kern w) fd @ drop (p_sent q) (p_outbound q))"
proof -
  have inv: "process_inv p" using whole.run_keeps [OF assms] .
  have "streams (w_peers w) (w_kern w)" if "w \<in> set (ps_workers p)"
    using inv that by (auto simp: process_inv_def own_inv_def)
  with process_counts [OF inv] show ?thesis by (auto simp: streams_def)
qed

text \<open>Two workers: one holds a connection on backend 0, the other none.\<close>

definition sample_process :: process where
  "sample_process = \<lparr>ps_rt = pair_runtime, ps_workers = [busy_worker, idle_worker]\<rparr>"

lemma sample_process_inv: "process_inv sample_process"
proof -
  have busy: "own_inv 2 busy_worker" "wf_runtime pair_runtime"
    "rt.counts pair_runtime (\<lambda>i. own_load busy_worker i)"
    using busy_inv by (auto simp: worker_inv_own sample_rt pair_runtime_size)
  have "pool_size (w_rt idle_worker) = 2" by (simp add: idle_worker_def sample_config_def)
  then have idle: "own_inv 2 idle_worker" using idle_inv by (simp add: worker_inv_own)
  have "own_load idle_worker i = 0" for i
    by (simp add: own_load_clients clients_on_def idle_worker_def)
  with busy idle show ?thesis
    by (simp add: process_inv_def sample_process_def pair_runtime_size total_load_def [abs_def])
qed

theorem process_consistent_witness:
  "unat (runtime_active (ps_rt sample_process) 0) =
    (\<Sum>w\<leftarrow>[busy_worker, idle_worker]. card (clients_on 0 w))"
  using process_consistent [OF rtranclp.rtrancl_refl sample_process_inv, of 0]
  by (simp add: sample_process_def pair_runtime_size)

end
