(* ===== verification/LB_Drain.thy ===== *)
theory LB_Drain
  imports LB_Process
begin

text \<open>
  Draining at the granularity of whole events: while a backend is out of service no event of a worker
  takes a connection to it. What happens to a worker that is connecting when the request comes is
  the subject of \<open>LB_Inflight\<close> and of the root theory, which use the texts of requests from here.
\<close>

section \<open>Operations that start no connection\<close>

definition no_new :: "nat \<Rightarrow> worker \<Rightarrow> worker out \<Rightarrow> bool" where
  "no_new i w out \<longleftrightarrow> clients_on i (state_of out) \<subseteq> clients_on i w"

lemma clients_same [simp]:
  "clients_on i (w\<lparr>w_kern := k\<rparr>) = clients_on i w"
  "clients_on i (w\<lparr>w_rt := r\<rparr>) = clients_on i w"
  "clients_on i (on_kern f w) = clients_on i w"
  "clients_on i (modify_fd fd w) = clients_on i w"
  "clients_on i (state_of (on_rt g w)) = clients_on i w"
  "clients_on i (state_of (add_fd fd ev w)) = clients_on i w"
  by (auto simp: clients_on_def on_kern_def modify_fd_def on_rt_def add_fd_def map_out_def
      split: option.splits out.splits)

lemma clients_put:
  "w_peers w fd = Some p \<Longrightarrow> p_backend p' = p_backend p \<Longrightarrow> p_backend_side p' = p_backend_side p \<Longrightarrow>
    clients_on i (put_peer fd p' w) = clients_on i w"
  by (auto simp: clients_on_def put_peer_def)

lemma clients_close_one: "clients_on i (close_one fd w) \<subseteq> clients_on i w"
  by (auto simp: clients_on_def close_one_def on_kern_def split: option.splits if_splits)

lemma no_new_chain: "no_new i w r \<Longrightarrow> (\<And>w'. no_new i w' (f w')) \<Longrightarrow> no_new i w (chain r f)"
  unfolding no_new_def by (cases r) auto

lemma no_new_from: "no_new i w' out \<Longrightarrow> clients_on i w' \<subseteq> clients_on i w \<Longrightarrow> no_new i w out"
  unfolding no_new_def by blast

lemma no_new_Ok [simp]: "clients_on i w' \<subseteq> clients_on i w \<Longrightarrow> no_new i w (Ok w')"
  by (simp add: no_new_def)

lemma no_new_Throw [simp]: "clients_on i w' \<subseteq> clients_on i w \<Longrightarrow> no_new i w (Throw e w')"
  by (simp add: no_new_def)

lemma no_new_on_rt [simp]: "no_new i w (on_rt f w)"
  by (simp add: no_new_def)

lemma no_new_eject [simp]: "no_new i w (maybe_eject b w)"
  by (auto simp: maybe_eject_def no_new_def split: sum.splits)

lemma no_new_close_pair [simp]: "no_new i w (close_pair fd b w)"
proof (cases "w_peers w fd")
  case (Some p)
  have "no_new i w (on_rt (record_connection_close (p_backend p)) (close_one (p_paired p) (close_one fd w)))"
    using clients_close_one by (intro no_new_from [OF no_new_on_rt]) blast
  then show ?thesis
    by (auto simp: close_pair_def Some intro!: no_new_chain)
qed (simp add: close_pair_def)

lemma no_new_flush [simp]: "no_new i w (flush fd w)"
proof (induction fd w rule: flush.induct)
  case (1 fd w)
  show ?case
  proof (cases "w_peers w fd")
    case None
    then show ?thesis by (simp add: flush.simps [of fd w])
  next
    case (Some p)
    obtain r k where wr: "sys_write fd (drop (p_sent p) (p_outbound p)) (w_kern w) = (r, k)" by fastforce
    have kern: "clients_on i (put_peer fd p' (w\<lparr>w_kern := k'\<rparr>)) = clients_on i w"
      if "p_backend p' = p_backend p" "p_backend_side p' = p_backend_side p" for p' k'
      using clients_put [of "w\<lparr>w_kern := k'\<rparr>" fd p p' i] Some that by simp
    note IH = "1.IH" [OF Some _ wr [symmetric]]
    show ?thesis
    proof (cases "p_connecting p \<or> p_sent p \<ge> length (p_outbound p)")
      case True
      with Some clients_put [OF Some, of "drained p" i] show ?thesis
        by (simp add: flush.simps [of fd w] drained_def)
    next
      case False
      have close: "no_new i w (close_pair fd b (w\<lparr>w_kern := k'\<rparr>))" for b k'
        by (rule no_new_from [OF no_new_close_pair]) simp
      show ?thesis
      proof (cases r)
        case (WTake n)
        let ?p = "p\<lparr>p_sent := p_sent p + n, p_last := clock_now k\<rparr>"
        have again: "no_new i w (flush fd (put_peer fd ?p (w\<lparr>w_kern := tick k\<rparr>)))"
          if "n > 0" "p_sent p + n \<noteq> length (p_outbound p)"
          by (rule no_new_from [where w' = "put_peer fd ?p (w\<lparr>w_kern := tick k\<rparr>)"])
            (use IH(1) False WTake that kern in simp_all)
        from Some wr False WTake kern close again show ?thesis
          by (simp add: flush.simps [of fd w] Let_def drained_def)
      next
        case WIntr
        have "no_new i w (flush fd (w\<lparr>w_kern := k\<rparr>))"
          by (rule no_new_from [where w' = "w\<lparr>w_kern := k\<rparr>"]) (use IH(2) False WIntr in simp_all)
        with Some wr False WIntr show ?thesis by (simp add: flush.simps [of fd w])
      qed (use Some wr False close in \<open>simp_all add: flush.simps [of fd w]\<close>)
    qed
  qed
qed

lemma no_new_deliver:
  assumes "w_peers w fd = Some source" "w_peers w (p_paired source) = Some paired"
  shows "no_new i w (deliver fd bs source paired w)"
proof -
  have put: "clients_on i (put_peer (p_paired source) (append_outbound bs now paired) w) = clients_on i w" for now
    by (rule clients_put [OF assms(2)]) (simp_all add: append_outbound_def)
  show ?thesis
    unfolding deliver_def Let_def
    by (intro no_new_chain no_new_flush no_new_Ok no_new_from [OF no_new_on_rt]) (simp_all add: put)
qed

lemma no_new_read [simp]: "no_new i w (read_available fd w)"
proof (induction fd w rule: read_available.induct)
  case (1 fd w)
  show ?case
  proof (cases "w_peers w fd")
    case None
    then show ?thesis by (simp add: read_available.simps [of fd w])
  next
    case (Some p)
    obtain r k where rd: "sys_read fd (w_kern w) = (r, k)" by fastforce
    note IH = "1.IH" [OF Some rd [symmetric]]
    have close: "no_new i w (close_pair fd b (w\<lparr>w_kern := k'\<rparr>))" for b k'
      by (rule no_new_from [OF no_new_close_pair]) simp
    show ?thesis
    proof (cases r)
      case (RData bs)
      let ?p = "p\<lparr>p_last := clock_now k\<rparr>" and ?w = "w\<lparr>w_kern := tick k\<rparr>"
      have put: "clients_on i (put_peer fd ?p ?w) = clients_on i w"
        using clients_put [of ?w fd p ?p i] Some by simp
      have own: "w_peers (put_peer fd ?p ?w) fd = Some ?p" by (simp add: put_peer_def)
      have close1: "no_new i w (close_pair fd b (put_peer fd ?p ?w))" for b
        by (rule no_new_from [OF no_new_close_pair]) (simp add: put)
      show ?thesis
      proof (cases "bs = [] \<or> w_peers (put_peer fd ?p ?w) (p_paired ?p) = None")
        case True
        with Some rd RData close close1 show ?thesis
          by (cases "bs = []") (simp_all add: read_available.simps [of fd w] Let_def)
      next
        case False
        then obtain q where q: "bs \<noteq> []" "w_peers (put_peer fd ?p ?w) (p_paired ?p) = Some q" by auto
        from no_new_deliver [OF own q(2), of i bs]
        have del: "no_new i w (deliver fd bs ?p q (put_peer fd ?p ?w))"
          by (rule no_new_from) (simp add: put)
        show ?thesis
        proof (cases "deliver fd bs ?p q (put_peer fd ?p ?w)")
          case (Throw e w2)
          with Some rd RData q del show ?thesis by (simp add: read_available.simps [of fd w] Let_def)
        next
          case (Ok w2)
          with del have "clients_on i w2 \<subseteq> clients_on i w" by (simp add: no_new_def)
          moreover have "no_new i w2 (read_available fd w2)" if "\<not> outbound_full (p_paired ?p) w2"
            using IH(1) [OF RData q(1) refl refl] q(2) Ok that by simp
          ultimately show ?thesis
            using Some rd RData q Ok by (auto simp: read_available.simps [of fd w] Let_def intro: no_new_from)
        qed
      qed
    next
      case RIntr
      have "no_new i w (read_available fd (w\<lparr>w_kern := k\<rparr>))"
        by (rule no_new_from [where w' = "w\<lparr>w_kern := k\<rparr>"]) (use IH(2) RIntr in simp_all)
      with Some rd RIntr show ?thesis by (simp add: read_available.simps [of fd w])
    qed (use Some rd close in \<open>simp_all add: read_available.simps [of fd w]\<close>)
  qed
qed

lemma no_new_finish [simp]: "no_new i w (finish_connect fd w)"
proof (cases "w_peers w fd")
  case (Some p)
  have put: "clients_on i (put_peer fd (connected now p) (on_kern tick (on_kern tick w))) = clients_on i w" for now
    by (subst clients_put [of _ fd p]) (simp_all add: on_kern_def connected_def Some)
  have close: "no_new i w (close_pair fd True (on_kern tick w))"
    by (rule no_new_from [OF no_new_close_pair]) simp
  have rest: "no_new i w (chain (on_rt f (put_peer fd (connected now p) (on_kern tick (on_kern tick w)))) (\<lambda>w.
      chain (on_rt g w) (\<lambda>w. chain (flush fd w) (\<lambda>w. Ok (modify_fd fd w)))))" for f g now
    by (intro no_new_chain no_new_flush no_new_Ok no_new_on_rt no_new_from [OF no_new_on_rt]) (simp_all add: put)
  show ?thesis using Some close rest by (simp add: finish_connect_def Let_def)
qed (simp add: finish_connect_def)

lemma no_new_expired: "no_new i w (close_expired es w)"
proof (induction es w rule: close_expired.induct)
  case (2 fd b es w)
  show ?case
    unfolding close_expired.simps
    by (intro no_new_chain no_new_from [OF no_new_close_pair])
      (simp, rule 2)
qed simp

lemma no_new_reap [simp]: "no_new i w (reap_timeouts w)"
  unfolding reap_timeouts_def Let_def by (rule no_new_from [OF no_new_expired]) simp

lemma no_new_timer [simp]: "no_new i w (reap_timeouts (on_kern f w))"
  by (rule no_new_from [OF no_new_reap]) simp

lemma no_new_event: "fst ev \<noteq> w_listener w \<Longrightarrow> no_new i w (handle_event ev w)"
  by (cases ev) (auto simp: handle_event_def intro!: no_new_chain split: option.splits)

section \<open>Accepting while a backend is out of service\<close>

definition off :: "nat \<Rightarrow> worker \<Rightarrow> bool" where
  "off i w \<longleftrightarrow> runtime_state (w_rt w) i \<noteq> Up"

text \<open>From a state where backend \<open>i\<close> is off: no new connection on it, and it is off afterwards.\<close>

definition shut :: "nat \<Rightarrow> worker \<Rightarrow> worker out \<Rightarrow> bool" where
  "shut i w out \<longleftrightarrow> (off i w \<longrightarrow> no_new i w out \<and> off i (state_of out))"

lemma off_same [simp]:
  "off i (w\<lparr>w_kern := k\<rparr>) = off i w" "off i (on_kern f w) = off i w"
  "off i (put_peer fd p w) = off i w" "off i (emplace fd p w) = off i w"
  "off i (state_of (add_fd fd ev w)) = off i w"
  by (simp_all add: off_def on_kern_def put_peer_def emplace_def add_fd_def split: option.splits)

lemma shut_chain: "shut i w r \<Longrightarrow> (\<And>w'. shut i w' (f w')) \<Longrightarrow> shut i w (chain r f)"
  unfolding shut_def no_new_def by (cases r) auto

lemma shut_from:
  "shut i w' out \<Longrightarrow> clients_on i w' \<subseteq> clients_on i w \<Longrightarrow> off i w' = off i w \<Longrightarrow> shut i w out"
  unfolding shut_def no_new_def by blast

lemma shut_Ok: "clients_on i w' \<subseteq> clients_on i w \<Longrightarrow> off i w' = off i w \<Longrightarrow> shut i w (Ok w')"
  by (simp add: shut_def)

lemma shut_add_fd: "shut i w (add_fd fd ev w)"
  by (simp add: shut_def no_new_def)

lemma shut_runtime:
  "shut i w (on_rt (record_backend_failure b) w)" "shut i w (on_rt (record_connection_open b) w)"
  "shut i w (maybe_eject b w)"
  by (auto simp: shut_def off_def maybe_eject_def on_rt_def map_out_def runtime_op_defs mark_failure_def
      mark_open_def set_state_def runtime_views scheduler_views slot_def nth_list_update
      split: sum.splits out.splits if_splits)

lemma clients_emplace: "p_backend p \<noteq> i \<Longrightarrow> clients_on i (emplace fd p w) \<subseteq> clients_on i w"
  by (auto simp: emplace_def put_peer_def clients_on_def split: option.splits if_splits)

lemma clients_emplace2:
  "p_backend p \<noteq> i \<Longrightarrow> p_backend q \<noteq> i \<Longrightarrow>
    clients_on i (emplace fd2 q (emplace fd1 p w)) \<subseteq> clients_on i w"
  using clients_emplace [of q i fd2 "emplace fd1 p w"] clients_emplace [of p i fd1 w] by blast

lemma select_states: "select draw s = (x, s') \<Longrightarrow> s_states s' = s_states s"
  by (auto simp: select_def split: if_splits option.splits)

lemma select_off:
  assumes "select draw (r_sched (w_rt w)) = (Some b, s')" and "off i w"
  shows "sel_index b \<noteq> i"
proof
  assume "sel_index b = i"
  with select_Some [OF assms(1)] have "routable (r_sched (w_rt w)) i" by simp
  then show False
    using assms(2) by (simp add: routable_iff off_def runtime_views scheduler_views slot_def)
qed

lemma shut_attach: "shut i w (attach_backend c w)"
proof -
  obtain sel s' where sel: "select (k_draw (w_kern w) (k_calls (w_kern w))) (r_sched (w_rt w)) = (sel, s')"
    by fastforce
  define v where "v = on_kern tick (w\<lparr>w_rt := (w_rt w)\<lparr>r_sched := s'\<rparr>\<rparr>)"
  have v: "clients_on i v = clients_on i w" "off i v = off i w"
    using select_states [OF sel] by (simp_all add: v_def off_def runtime_views scheduler_views)
  have sh: "shut i v out \<Longrightarrow> shut i w out" for out
    by (rule shut_from [where w' = v]) (simp_all add: v)
  have reject: "shut i v (chain (on_rt (record_backend_failure n) (v\<lparr>w_kern := k\<rparr>)) (\<lambda>w.
      chain (maybe_eject n w) (\<lambda>w. Ok (on_kern (sys_close c) w))))" for n k
    by (rule shut_chain, rule shut_from [OF shut_runtime(1)], simp, simp)
      (intro shut_chain shut_runtime(3) shut_Ok, simp_all)
  have new: "shut i v (chain (on_rt (record_connection_open n) (v\<lparr>w_kern := k\<rparr>)) (\<lambda>w.
      chain (add_fd fd ev (emplace fd2 q (emplace fd1 p w))) (add_fd fd' ev')))"
    if "n \<noteq> i" "p_backend p = n" "p_backend q = n" for n k fd ev fd' ev' fd1 fd2 p q
    by (rule shut_chain, rule shut_from [OF shut_runtime(2)], simp, simp,
        rule shut_chain, rule shut_from [OF shut_add_fd])
      (use that clients_emplace2 [of p i q] in \<open>auto simp: shut_add_fd\<close>)
  have run: "attach_backend c w = (case sel of
       None \<Rightarrow> Ok (on_kern (sys_close c) v)
     | Some b \<Rightarrow> (case connect_backend (sel_endpoint b) (w_kern v) of
           (Inl e, k) \<Rightarrow> Throw e (v\<lparr>w_kern := k\<rparr>)
         | (Inr None, k) \<Rightarrow>
             chain (on_rt (record_backend_failure (sel_index b)) (v\<lparr>w_kern := k\<rparr>)) (\<lambda>w.
             chain (maybe_eject (sel_index b) w) (\<lambda>w. Ok (on_kern (sys_close c) w)))
         | (Inr (Some fd), k) \<Rightarrow>
             (let now = clock_now k;
                  deadline = now + milliseconds (connect_timeout_ms (r_config (w_rt v)))
              in chain (on_rt (record_connection_open (sel_index b)) (v\<lparr>w_kern := tick k\<rparr>)) (\<lambda>w.
                 chain (add_fd c (EPOLLIN OR EPOLLERR OR EPOLLHUP OR EPOLLRDHUP)
                   (emplace fd (new_peer fd c (sel_index b) True True now deadline)
                     (emplace c (new_peer c fd (sel_index b) False False now deadline) w)))
                   (add_fd fd (EPOLLOUT OR EPOLLERR OR EPOLLHUP OR EPOLLRDHUP))))))"
    by (simp only: attach_backend_def sel v_def Let_def prod.case)
  show ?thesis
  proof (cases "off i w")
    case False
    then show ?thesis by (simp add: shut_def)
  next
    case True
    have differ: "sel = Some b \<Longrightarrow> sel_index b \<noteq> i" for b
      using select_off [OF _ True] sel by blast
    show ?thesis
      unfolding run
      by (rule sh) (auto simp: Let_def shut_def [of i v "Throw _ _"] no_new_def new_peer_def
          intro!: shut_Ok reject new differ split: option.splits sum.splits prod.splits)
  qed
qed

lemma shut_accept: "shut i w (accept_clients w)"
proof (induction w rule: accept_clients.induct)
  case (1 w)
  obtain r c k where acc: "sys_accept (w_kern w) = (r, c, k)" by (metis prod_cases3)
  show ?case
  proof (cases r)
    case AClient
    have att: "shut i w (attach_backend c (w\<lparr>w_kern := k\<rparr>))" by (rule shut_from [OF shut_attach]) simp_all
    show ?thesis
    proof (cases "attach_backend c (w\<lparr>w_kern := k\<rparr>)")
      case (Ok w1)
      from shut_chain [OF att, of accept_clients] "1.IH"(1) [OF acc [symmetric] AClient refl Ok] Ok att
      have "shut i w (accept_clients w1)" by (auto simp: shut_def no_new_def)
      with acc AClient Ok show ?thesis by (simp add: accept_clients.simps [of w])
    next
      case (Throw e w1)
      with att acc AClient show ?thesis by (simp add: accept_clients.simps [of w])
    qed
  next
    case AIntr
    have "shut i w (accept_clients (w\<lparr>w_kern := k\<rparr>))"
      by (rule shut_from [where w' = "w\<lparr>w_kern := k\<rparr>"]) (use "1.IH"(2) acc AIntr in simp_all)
    with acc AIntr show ?thesis by (simp add: accept_clients.simps [of w])
  qed (simp_all add: accept_clients.simps [of w] acc shut_Ok)
qed

lemma event_while_off:
  assumes "off i w"
  shows "no_new i w (handle_event ev w)"
proof (cases "fst ev = w_listener w")
  case True
  with shut_accept [of i w] assms show ?thesis
    by (cases ev) (simp add: handle_event_def shut_def)
next
  case False
  then show ?thesis by (rule no_new_event)
qed

section \<open>The request to drain\<close>

definition drain_request :: "nat \<Rightarrow> bytes" where
  "drain_request i = ''POST '' @ ''/backends/'' @ show_nat i @ ''/drain'' @ '' HTTP/1.1'' @ crlf @ crlf"

lemma length_show_nat: "n < 10 ^ Suc k \<Longrightarrow> length (show_nat n) \<le> Suc k"
proof (induction k arbitrary: n)
  case 0
  then show ?case by (subst show_nat.simps) simp
next
  case (Suc k)
  show ?case
  proof (cases "n < 10")
    case True
    then show ?thesis by (subst show_nat.simps) simp
  next
    case False
    have "n div 10 < 10 ^ Suc k" using Suc.prems by simp
    from Suc.IH [OF this] False show ?thesis by (subst show_nat.simps) simp
  qed
qed

lemma space_simps: "isspace (CHR '' '')" "isspace (CHR 0x0D)"
  by (simp_all add: isspace_def code_def)

lemma next_word_here:
  "w \<noteq> [] \<Longrightarrow> \<forall>c \<in> set w. \<not> isspace c \<Longrightarrow> isspace d \<Longrightarrow> next_word (w @ d # rest) = (w, d # rest)"
  by (cases w) (auto simp: next_word_def Let_def takeWhile_append dropWhile_append)

lemma next_word_space: "isspace d \<Longrightarrow> next_word (d # s) = next_word s"
  by (simp add: next_word_def)

lemma drain_words: "request_words (drain_request i) = (''POST'', ''/backends/'' @ show_nat i @ ''/drain'', ''HTTP/1.1'')"
proof -
  let ?path = "''/backends/'' @ show_nat i @ ''/drain''"
  have graph: "\<forall>c \<in> set ?path. \<not> isspace c"
    using show_nat_digits [of _ i] isdigit_not_space by (auto simp: isspace_def code_def)
  have v: "next_word (''HTTP/1.1'' @ CHR 0x0D # rest) = (''HTTP/1.1'', CHR 0x0D # rest)"
    "next_word (''POST'' @ CHR '' '' # rest) = (''POST'', CHR '' '' # rest)" for rest
    by (rule next_word_here; simp add: isspace_def code_def)+
  have parts: "drain_request i = ''POST'' @ CHR '' '' # ?path @ CHR '' '' # ''HTTP/1.1'' @ CHR 0x0D # CHR 0x0A # crlf"
    by (simp add: drain_request_def crlf_def)
  show ?thesis
    unfolding request_words_def parts v(2) Let_def prod.case
    using next_word_here [OF _ graph space_simps(1), of "''HTTP/1.1'' @ CHR 0x0D # CHR 0x0A # crlf"]
      next_word_space [OF space_simps(1)] v(1) [of "CHR 0x0A # crlf"]
    by simp
qed

lemma drain_command_text:
  assumes "i < 2 ^ 64"
  shows "admin_command ''POST'' (''/backends/'' @ show_nat i @ ''/drain'') = Some (Inr (i, Draining))"
proof -
  have "CHR ''/'' \<notin> set (show_nat i)"
    using show_nat_digits [of "CHR ''/''" i] by (auto simp: isdigit_def code_def)
  then have "str_find (CHR ''/'') (show_nat i @ CHR ''/'' # ''drain'') = Some (length (show_nat i))"
    by (rule str_find_append)
  then show ?thesis
    using stoul_show_nat [of i] assms by (simp add: admin_command_def backends_prefix_def unat_of_nat_u64)
qed

text \<open>\<open>p\<close> reaches \<open>q\<close> by steps before each of which backend \<open>i\<close> is out of service.\<close>

definition while_off :: "nat \<Rightarrow> process \<Rightarrow> process \<Rightarrow> bool" where
  "while_off i p q \<longleftrightarrow> process_step p q \<and> runtime_state (ps_rt p) i \<noteq> Up"

lemma step_while_off:
  assumes "while_off i p q"
  shows "clients_on i (ps_workers q ! j) \<subseteq> clients_on i (ps_workers p ! j)"
proof -
  have off: "off i (worker_at k p)" for k using assms by (simp add: while_off_def off_def worker_at_def)
  have at: "clients_on i (worker_at k p) = clients_on i (ps_workers p ! k)" for k
    by (simp add: worker_at_def)
  from assms have "process_step p q" by (simp add: while_off_def)
  then show ?thesis
  proof cases
    case (worker k ev)
    with event_while_off [OF off, of k ev] show ?thesis
      by (cases "j = k") (simp_all add: put_worker_def no_new_def at)
  next
    case (network k kern)
    then show ?thesis by (cases "j = k") (simp_all add: put_worker_def at)
  qed simp_all
qed

lemma run_while_off:
  "(while_off i)\<^sup>*\<^sup>* p q \<Longrightarrow> clients_on i (ps_workers q ! j) \<subseteq> clients_on i (ps_workers p ! j)"
  by (induction rule: rtranclp_induct) (use step_while_off in blast)+

text \<open>
  In any state of the process the request to drain backend \<open>i\<close> makes it draining; and while it is not
  brought back up no worker takes a connection to it that it did not have when the request came. The
  steps here are whole events, so a worker that is connecting when the request comes is not seen;
  the property at the granularity of single accesses is in the root theory.
\<close>

lemma drain_whole_events:
  assumes inv: "process_inv p" and i: "i < pool_size (ps_rt p)"
    and views: "\<forall>n. wf_runtime (snd (e_views env n))"
  shows "\<exists>s. handle_client env (RData (drain_request i)) \<lparr>se_rt = ps_rt p, se_conn = c\<rparr> = Ok s \<and>
    runtime_state (se_rt s) i = Draining \<and>
    (\<forall>q j. (while_off i)\<^sup>*\<^sup>* (p\<lparr>ps_rt := se_rt s\<rparr>) q \<longrightarrow>
      clients_on i (ps_workers q ! j) \<subseteq> clients_on i (ps_workers p ! j))"
proof -
  let ?s = "\<lparr>se_rt = ps_rt p, se_conn = c\<rparr>"
  have wf: "wf_runtime (se_rt ?s)" using inv by (simp add: process_inv_def)
  then have bound: "i < 2 ^ 64" using i by (simp add: wf_runtime_def wf_scheduler_def pool_size_def backend_count_def)
  have "length (show_nat i) \<le> Suc 19" by (rule length_show_nat) (use bound in simp)
  then have short: "take 4095 (drain_request i) = drain_request i" by (simp add: drain_request_def crlf_def)
  from dispatch_does [OF wf views, of "''POST''" "''/backends/'' @ show_nat i @ ''/drain''"]
  obtain t d where t: "dispatch env ''POST'' (''/backends/'' @ show_nat i @ ''/drain'') ?s = Ok (?s\<lparr>se_rt := t, se_conn := d\<rparr>)"
    "moved i Draining (ps_rt p) t"
    using i by (auto simp: drain_command_text [OF bound, simplified] does_def moves_def)
  have "drain_request i \<noteq> []" by (simp add: drain_request_def)
  with t(1) have "handle_client env (RData (drain_request i)) ?s = Ok (hang_up (?s\<lparr>se_rt := t, se_conn := d\<rparr>))"
    by (simp add: handle_client_def short drain_words)
  moreover have "runtime_state t i = Draining" using t(2) by (simp add: moved_def)
  ultimately show ?thesis
    using run_while_off [of i "p\<lparr>ps_rt := t\<rparr>"] by (fastforce simp: hang_up_def)
qed

end
