(* ===== verification/LB_Interleave.thy ===== *)
theory LB_Interleave
  imports LB_Thread LB_Drain
begin

text \<open>
  All threads of the process together, interleaved at single accesses of the shared runtime. The
  workers, the health checks and the requests of the admin server run between each other's accesses.
  Each worker holds, as its share of the connection counters, the connections it has opened and not
  yet closed; \<open>obeys\<close> is proved for every member function, and the rule of \<open>shares\<close> gives the
  invariant of the whole process.
\<close>

section \<open>Shares of the connection counters\<close>

type_synonym share = "nat \<Rightarrow> nat"

definition small :: "share \<Rightarrow> bool" where
  "small h \<longleftrightarrow> (\<forall>i. h i \<le> 2 ^ 31)"

definition pool_of :: "nat \<Rightarrow> runtime \<Rightarrow> bool" where
  "pool_of n r \<longleftrightarrow> wf_runtime r \<and> pool_size r = n"

definition may_find :: "nat \<Rightarrow> runtime \<Rightarrow> share \<Rightarrow> bool" where
  "may_find n r h \<longleftrightarrow> pool_of n r \<and> small h \<and>
     (\<forall>i < n. h i \<le> unat (runtime_active r i) \<and> unat (runtime_active r i) \<le> 2 ^ 63)"

definition may_do :: "nat \<Rightarrow> share \<Rightarrow> share \<Rightarrow> runtime \<Rightarrow> runtime \<Rightarrow> bool" where
  "may_do n h h' r r' \<longleftrightarrow> pool_of n r' \<and> small h' \<and>
     (\<forall>i < n. unat (runtime_active r' i) + h i = unat (runtime_active r i) + h' i)"

definition make_up :: "nat \<Rightarrow> runtime \<Rightarrow> share list \<Rightarrow> bool" where
  "make_up n r H \<longleftrightarrow> pool_of n r \<and> length H < 2 ^ 32 \<and> (\<forall>h \<in> set H. small h) \<and>
     (\<forall>i < n. unat (runtime_active r i) = (\<Sum>h\<leftarrow>H. h i))"

lemma sum_small: "\<forall>h \<in> set H. small h \<Longrightarrow> (\<Sum>h\<leftarrow>H. h i) \<le> length H * 2 ^ 31"
  by (induction H) (auto simp: small_def add_mono)

interpretation counters: shares "make_up n" "may_find n" "may_do n"
proof unfold_locales
  fix r H t
  assume whole: "make_up n r H" and t: "t < length H"
  have "(H ! t) i \<le> (\<Sum>h\<leftarrow>H. h i)" for i
    using t by (intro member_le_sum_list) (auto intro!: image_eqI)
  moreover have "(\<Sum>h\<leftarrow>H. h i) \<le> 2 ^ 63" for i
  proof -
    have "(\<Sum>h\<leftarrow>H. h i) \<le> length H * 2 ^ 31" using whole by (intro sum_small) (simp add: make_up_def)
    also have "\<dots> \<le> 2 ^ 32 * 2 ^ 31" using whole by (intro mult_right_mono) (simp_all add: make_up_def)
    finally show ?thesis by simp
  qed
  ultimately show "may_find n r (H ! t)" using whole t by (simp add: make_up_def may_find_def)
next
  fix r H t h r'
  assume whole: "make_up n r H" and t: "t < length H" and move: "may_do n (H ! t) h r r'"
  have "unat (runtime_active r' i) = (\<Sum>h\<leftarrow>H[t := h]. h i)" if "i < n" for i
  proof -
    have "(\<Sum>h\<leftarrow>H[t := h]. h i) + (H ! t) i = (\<Sum>h\<leftarrow>H. h i) + h i"
      using sum_list_update_nat [of t "map (\<lambda>h. h i) H" "h i"] t by (simp add: map_update)
    moreover have "unat (runtime_active r' i) + (H ! t) i = unat (runtime_active r i) + h i"
      "unat (runtime_active r i) = (\<Sum>h\<leftarrow>H. h i)"
      using whole move that by (simp_all add: make_up_def may_do_def)
    ultimately show ?thesis by linarith
  qed
  moreover have "\<forall>g \<in> set (H[t := h]). small g"
    using whole move set_update_subset_insert [of H t h] by (auto simp: make_up_def may_do_def)
  ultimately show "make_up n r' (H[t := h])" using whole move by (simp add: make_up_def may_do_def)
qed

section \<open>Accesses that leave the counters alone\<close>

text \<open>
  A calm program opens and closes no connection, throws nothing, and returns a value with \<open>R\<close>.
\<close>

definition still :: "nat \<Rightarrow> share \<Rightarrow> share \<Rightarrow> runtime \<Rightarrow> runtime \<Rightarrow> bool" where
  "still n h h' r r' \<longleftrightarrow> h' = h \<and> may_do n h h' r r'"

definition calm :: "nat \<Rightarrow> ('a \<Rightarrow> bool) \<Rightarrow> (runtime, 'e, 'a) prog \<Rightarrow> bool" where
  "calm n R p \<longleftrightarrow> (\<forall>h. obeys (may_find n) (still n) (\<lambda>x h'. h' = h \<and> (\<exists>a. x = Inr a \<and> R a)) p h)"

lemma calm_keeps:
  assumes "calm n R p"
  shows "obeys (may_find n) (may_do n) (\<lambda>x h'. h' = h \<and> (\<exists>a. x = Inr a \<and> R a)) p h"
  by (rule obeys_move [OF assms [unfolded calm_def, rule_format]]) (simp add: still_def)

lemma calm_Return: "R a \<Longrightarrow> calm n R (Return a)"
  by (simp add: calm_def)

lemma calm_Access:
  assumes "\<And>r. pool_of n r \<Longrightarrow> pool_of n (u r) \<and> runtime_active (u r) = runtime_active r \<and> calm n R (k r)"
  shows "calm n R (Access u k)"
  using assms by (auto simp: calm_def may_find_def still_def may_do_def)

lemma calm_fetch: "(\<And>r. pool_of n r \<Longrightarrow> R (f r)) \<Longrightarrow> calm n R (fetch f)"
  unfolding fetch_def by (rule calm_Access) (simp add: calm_Return)

lemma calm_modify:
  "(\<And>r. pool_of n r \<Longrightarrow> pool_of n (u r) \<and> runtime_active (u r) = runtime_active r) \<Longrightarrow>
    calm n (\<lambda>_. True) (modify u)"
  unfolding modify_def by (rule calm_Access) (simp add: calm_Return)

lemma calm_bind:
  assumes "calm n R p" and "\<And>a. R a \<Longrightarrow> calm n S (f a)"
  shows "calm n S (bind_prog p f)"
  unfolding calm_def
proof
  fix h
  show "obeys (may_find n) (still n) (\<lambda>x h'. h' = h \<and> (\<exists>a. x = Inr a \<and> S a)) (bind_prog p f) h"
    by (rule obeys_bind, rule obeys_mono [OF assms(1) [unfolded calm_def, rule_format]])
      (use assms(2) in \<open>auto simp: calm_def\<close>)
qed

lemma calm_mono: "calm n R p \<Longrightarrow> (\<And>a. R a \<Longrightarrow> S a) \<Longrightarrow> calm n S p"
  unfolding calm_def by (blast intro: obeys_mono)

lemma calm_map: "calm n R p \<Longrightarrow> calm n R (map_prog g (\<lambda>a. a) p)"
  unfolding calm_def obeys_map
proof
  fix h
  assume "\<forall>h. obeys (may_find n) (still n) (\<lambda>x h'. h' = h \<and> (\<exists>a. x = Inr a \<and> R a)) p h"
  from this [THEN spec, of h] show "obeys (may_find n) (still n) (\<lambda>x h'. h' = h \<and> (\<exists>a. map_sum g (\<lambda>a. a) x = Inr a \<and> R a)) p h"
    by (rule obeys_mono) auto
qed

lemma calm_checked:
  assumes "i < n" and "\<And>r. pool_of n r \<Longrightarrow> len r = n" and "calm n R p"
  shows "calm n R (checked len i p)"
  unfolding checked_def
  by (rule calm_bind [OF calm_fetch, where R = "\<lambda>m. m = n"]) (use assms in auto)

lemma pool_lengths:
  assumes "pool_of n r"
  shows "length (s_active (r_sched r)) = n" "length (s_total (r_sched r)) = n"
    "length (s_errors (r_sched r)) = n" "length (s_failures (r_sched r)) = n"
    "length (s_states (r_sched r)) = n" "length (s_backends (r_sched r)) = n" "length (r_backends r) = n"
  using assms by (simp_all add: pool_of_def wf_runtime_def wf_scheduler_def pool_size_def backend_count_def)

lemma pool_keep_metrics:
  "pool_of n r \<Longrightarrow> pool_of n (on_metrics f r) \<and> runtime_active (on_metrics f r) = runtime_active r"
  "pool_of n r \<Longrightarrow> length xs = n \<Longrightarrow>
    pool_of n (r\<lparr>r_backends := xs\<rparr>) \<and> runtime_active (r\<lparr>r_backends := xs\<rparr>) = runtime_active r"
  by (simp_all add: pool_of_def on_metrics_def wf_runtime_def pool_size_def runtime_views)

lemma pool_keep_sched:
  assumes "pool_of n r" and "wf_scheduler (r_sched r) \<Longrightarrow> wf_scheduler (f (r_sched r))"
    and "backend_count (f (r_sched r)) = backend_count (r_sched r)"
    and "s_active (f (r_sched r)) = s_active (r_sched r)"
  shows "pool_of n (on_sched f r) \<and> runtime_active (on_sched f r) = runtime_active r"
  using assms
  by (simp add: pool_of_def on_sched_def wf_runtime_def pool_size_def runtime_views active_of_def)

lemmas calm_update = calm_modify [OF pool_keep_sched] calm_modify [OF pool_keep_metrics(1)]
  calm_modify [OF pool_keep_metrics(2)]

lemma calm_state:
  assumes "i < n"
  shows "calm n (\<lambda>_. True) (mark_failure_p i)" "calm n (\<lambda>_. True) (state_p i)"
    "calm n (\<lambda>_. True) (consecutive_failures_p i)" "calm n (\<lambda>_. True) (endpoint_p i)"
    "calm n (\<lambda>_. True) (set_state_p i st)"
proof -
  note len = calm_checked [OF assms]
  show "calm n (\<lambda>_. True) (state_p i)" "calm n (\<lambda>_. True) (consecutive_failures_p i)"
    "calm n (\<lambda>_. True) (endpoint_p i)"
    unfolding runtime_p_defs by (rule len, erule pool_lengths, rule calm_fetch, rule TrueI)+
  show "calm n (\<lambda>_. True) (set_state_p i st)"
    unfolding set_state_p_def
    by (rule len, erule pool_lengths, rule calm_update(1)) (simp_all add: wf_scheduler_def backend_count_def)
  show "calm n (\<lambda>_. True) (mark_failure_p i)"
    unfolding mark_failure_p_def
    by (rule len, erule pool_lengths, rule calm_bind, (rule calm_update(1); simp add: wf_scheduler_def backend_count_def)+)
qed

lemma calm_healthy: "i < n \<Longrightarrow> calm n (\<lambda>_. True) (mark_healthy_p i)"
  unfolding mark_healthy_p_def
  by (rule calm_checked, assumption, erule pool_lengths, rule calm_bind,
      rule calm_update(1), simp_all add: wf_scheduler_def backend_count_def)
    (rule calm_bind, erule calm_state(2), simp add: calm_state(5) calm_Return)

lemma calm_backend: "i < n \<Longrightarrow> calm n (\<lambda>_. True) (backend_p i f)"
  unfolding backend_p_def
  by (rule calm_checked, assumption, erule pool_lengths, rule calm_update(3)) (simp_all add: pool_lengths)

lemma calm_records:
  assumes "i < n"
  shows "calm n (\<lambda>_. True) (record_backend_failure_p i)" "calm n (\<lambda>_. True) (record_connect_latency_p i l)"
    "calm n (\<lambda>_. True) (set_backend_state_p i st)" "calm n (\<lambda>_. True) (record_bytes_p b i m)"
    "calm n (\<lambda>_. True) (eject_p i)"
proof -
  show "calm n (\<lambda>_. True) (record_backend_failure_p i)"
    unfolding record_backend_failure_p_def
    by (rule calm_bind [OF calm_update(2)]) (simp_all add: calm_state(1) assms)
  show "calm n (\<lambda>_. True) (record_connect_latency_p i l)"
    unfolding record_connect_latency_p_def by (rule calm_backend [OF assms])
  show set: "calm n (\<lambda>_. True) (set_backend_state_p i st)" for st
    unfolding set_backend_state_p_def by (rule calm_state(5) [OF assms])
  show "calm n (\<lambda>_. True) (record_bytes_p b i m)"
    unfolding record_bytes_p_def record_bytes_from_backend_p_def record_bytes_from_client_p_def
    by (cases b) (simp_all add: calm_bind [OF calm_update(2)] calm_backend assms)
  show "calm n (\<lambda>_. True) (eject_p i)"
    unfolding eject_p_def
    by (rule calm_bind [OF calm_state(3) [OF assms]], rule calm_bind [OF calm_fetch])
      (simp_all add: set calm_Return)
qed

lemma calm_report: "i < n \<Longrightarrow> calm n (\<lambda>_. True) (health_report_p i ok l)"
  unfolding health_report_p_def
  using calm_bind [OF calm_records(2) calm_healthy] calm_bind [OF calm_records(1) calm_records(5)] by auto

text \<open>A selection returns an index in range.\<close>

lemma calm_load: "calm n (\<lambda>_. True) (routable_p i)" "calm n (\<lambda>_. True) (active_p i)"
  unfolding routable_p_def active_p_def by (rule calm_fetch, rule TrueI)+

lemma calm_short_circuit:
  "calm n (\<lambda>_. True) p \<Longrightarrow> calm n (\<lambda>_. True) (negated p)"
  "calm n (\<lambda>_. True) p \<Longrightarrow> calm n (\<lambda>_. True) q \<Longrightarrow> calm n (\<lambda>_. True) (both p q)"
  unfolding negated_def both_def by (erule calm_bind, simp add: calm_Return)+

definition in_range :: "nat \<Rightarrow> nat option \<Rightarrow> bool" where
  "in_range n x \<longleftrightarrow> (\<forall>i. x = Some i \<longrightarrow> i < n)"

lemma in_range_simps [simp]: "in_range n None" "in_range n (Some i) \<longleftrightarrow> i < n"
  by (simp_all add: in_range_def)

lemma calm_rr: "n > 0 \<Longrightarrow> calm n (in_range n) (rr_p n start ks)"
proof (induction ks)
  case (Cons k ks)
  then show ?case
    unfolding rr_p.simps Let_def by (intro calm_bind [OF calm_load(1)]) (simp add: calm_Return)
qed (simp add: calm_Return)

lemma calm_p2c: "\<forall>k. draw k < n \<Longrightarrow> calm n (in_range n) (p2c_p draw k m)"
proof (induction m arbitrary: k)
  case (Suc m)
  then show ?case
    unfolding p2c_p.simps Let_def
    by (intro calm_bind [where R = "\<lambda>_. True"] calm_short_circuit calm_load)
      (auto simp: calm_Return intro!: calm_bind [where R = "\<lambda>_. True"] calm_short_circuit calm_load)
qed (simp add: calm_Return)

lemma calm_lc: "\<forall>i \<in> set is. i < n \<Longrightarrow> in_range n selected \<Longrightarrow> calm n (in_range n) (lc_p is selected)"
proof (induction "is" arbitrary: selected)
  case (Cons i "is")
  then show ?case
    unfolding lc_p.simps
    by (intro calm_bind [OF calm_load(1)])
      (auto split: option.split intro!: calm_bind [OF calm_load(2)])
qed (simp add: calm_Return)

definition selected_in :: "nat \<Rightarrow> selected_backend option \<Rightarrow> bool" where
  "selected_in n sel \<longleftrightarrow> in_range n (map_option sel_index sel)"

lemma calm_select: "calm n (selected_in n) (select_p draw)"
  unfolding select_p_def
proof (rule calm_bind [OF calm_fetch, where R = "\<lambda>(bs, pol, sz). length bs = n \<and> sz = n"])
  fix a :: "endpoint list \<times> policy \<times> nat"
  assume "case a of (bs, pol, sz) \<Rightarrow> length bs = n \<and> sz = n"
  then obtain bs pol where a: "a = (bs, pol, n)" "length bs = n" by (cases a) auto
  let ?chosen = "\<lambda>i. \<lparr>sel_index = i, sel_endpoint = bs ! i\<rparr>"
  have ret: "calm n (selected_in n) (Return (map_option ?chosen x))" if "in_range n x" for x
    using that by (intro calm_Return) (cases x; simp add: selected_in_def)
  have lc: "calm n (selected_in n) (bind_prog (lc_p [0..<n] None) (\<lambda>i. Return (map_option ?chosen i)))"
    by (rule calm_bind [OF calm_lc ret]) auto
  have p2c: "calm n (in_range n) (if pol = PowerOfTwoChoices \<and> length bs > 1
      then p2c_p (\<lambda>k. draw k mod length bs) 0 (length bs * 2) else Return None)"
    using a(2) by (auto intro!: calm_p2c calm_Return mod_less_divisor)
  have rest: "calm n (selected_in n) (case pick of Some i \<Rightarrow> Return (Some (?chosen i))
      | None \<Rightarrow> bind_prog (lc_p [0..<n] None) (\<lambda>i. Return (map_option ?chosen i)))" if "in_range n pick" for pick
    using ret [OF that] lc by (auto split: option.split)
  have rr: "calm n (selected_in n) (bind_prog (fetch_modify (\<lambda>r. s_next (r_sched r))
      (on_sched (\<lambda>s. s\<lparr>s_next := s_next s + 1\<rparr>))) (\<lambda>start.
      bind_prog (rr_p (length bs) start [0..<length bs]) (\<lambda>i. Return (map_option ?chosen i))))" if "bs \<noteq> []"
  proof (rule calm_bind [where R = "\<lambda>_. True"])
    show "calm n (\<lambda>_. True) (fetch_modify (\<lambda>r. s_next (r_sched r)) (on_sched (\<lambda>s. s\<lparr>s_next := s_next s + 1\<rparr>)))"
      unfolding fetch_modify_def
      by (rule calm_Access, intro conjI pool_keep_sched [THEN conjunct1] pool_keep_sched [THEN conjunct2])
        (simp_all add: wf_scheduler_def backend_count_def calm_Return)
    show "calm n (selected_in n) (bind_prog (rr_p (length bs) start [0..<length bs])
        (\<lambda>i. Return (map_option ?chosen i)))" for start
      unfolding a(2) by (rule calm_bind [OF calm_rr ret]) (use that a(2) in auto)
  qed
  have none: "calm n (selected_in n) (Return None :: selected_backend option access)"
    by (rule calm_Return) (simp add: selected_in_def)
  have other: "calm n (selected_in n) (bind_prog (if pol = PowerOfTwoChoices \<and> length bs > 1
        then p2c_p (\<lambda>k. draw k mod length bs) 0 (length bs * 2) else Return None) (\<lambda>pick.
      case pick of Some i \<Rightarrow> Return (Some (?chosen i))
      | None \<Rightarrow> bind_prog (lc_p [0..<n] None) (\<lambda>i. Return (map_option ?chosen i))))"
    by (rule calm_bind [OF p2c rest])
  show "calm n (selected_in n) (case a of (bs, pol, sz) \<Rightarrow>
      let chosen = \<lambda>i. \<lparr>sel_index = i, sel_endpoint = bs ! i\<rparr> in
      if bs = [] then Return None
      else if pol = RoundRobin then
        bind_prog (fetch_modify (\<lambda>r. s_next (r_sched r)) (on_sched (\<lambda>s. s\<lparr>s_next := s_next s + 1\<rparr>))) (\<lambda>start.
        bind_prog (rr_p (length bs) start [0..<length bs]) (\<lambda>i. Return (map_option chosen i)))
      else bind_prog (if pol = PowerOfTwoChoices \<and> length bs > 1
            then p2c_p (\<lambda>k. draw k mod length bs) 0 (length bs * 2) else Return None) (\<lambda>pick.
        case pick of Some i \<Rightarrow> Return (Some (chosen i))
        | None \<Rightarrow> bind_prog (lc_p [0..<sz] None) (\<lambda>i. Return (map_option chosen i))))"
    unfolding a(1) Let_def prod.case
    by (cases "bs = []"; cases "pol = RoundRobin") (simp_all only: if_True if_False not_False_eq_True refl none rr other)
qed (simp add: pool_lengths)

section \<open>Opening and closing a connection\<close>

abbreviation keeping :: "nat \<Rightarrow> ('e + 'a \<Rightarrow> share \<Rightarrow> bool) \<Rightarrow> (runtime, 'e, 'a) prog \<Rightarrow> share \<Rightarrow> bool" where
  "keeping n \<equiv> obeys (may_find n) (may_do n)"

lemma keeping_calm:
  assumes "calm n R p" and "\<And>a. R a \<Longrightarrow> keeping n Q (f a) h"
  shows "keeping n Q (bind_prog p f) h"
  by (rule obeys_bind, rule obeys_mono [OF calm_keeps [OF assms(1)]]) (use assms(2) in auto)

lemma keeping_last: "calm n R p \<Longrightarrow> (\<And>a. R a \<Longrightarrow> Q (Inr a) h) \<Longrightarrow> keeping n Q p h"
  by (drule calm_keeps [of _ _ _ h], erule obeys_mono) auto

lemma keeping_modify:
  "(\<And>r. may_find n r h \<Longrightarrow> may_do n h h' r (u r)) \<Longrightarrow> keeping n (\<lambda>x g. x = Inr () \<and> g = h') (modify u) h"
  by (auto simp: modify_def)

lemma keeping_then:
  assumes "keeping n (\<lambda>x g. (\<exists>a. x = Inr a \<and> P a) \<and> g = h') p h" and "\<And>a. P a \<Longrightarrow> keeping n Q (f a) h'"
  shows "keeping n Q (bind_prog p f) h"
  by (rule obeys_bind, rule obeys_mono [OF assms(1)]) (use assms(2) in auto)

lemma keeping_checked:
  assumes "i < n" and "\<And>r. pool_of n r \<Longrightarrow> len r = n" and "keeping n Q p h"
  shows "keeping n Q (checked len i p) h"
  unfolding checked_def
  by (rule keeping_calm [OF calm_fetch, where R = "\<lambda>m. m = n"]) (use assms in auto)

lemma active_moves:
  assumes find: "may_find n r h" and i: "i < n"
    and h': "small (h(i := m))" "unat (f (runtime_active r i)) + h i = unat (runtime_active r i) + m"
  shows "may_do n h (h(i := m)) r (on_sched (\<lambda>s. s\<lparr>s_active := (s_active s)[i := f (s_active s ! i)]\<rparr>) r)"
proof -
  let ?r = "on_sched (\<lambda>s. s\<lparr>s_active := (s_active s)[i := f (s_active s ! i)]\<rparr>) r"
  have pool: "pool_of n r" using find by (simp add: may_find_def)
  then have "pool_of n ?r"
    by (simp add: pool_of_def on_sched_def wf_runtime_def wf_scheduler_def pool_size_def backend_count_def)
  moreover have "runtime_active ?r = (runtime_active r)(i := f (runtime_active r i))"
    using i pool_lengths(1) [OF pool]
    by (simp add: runtime_views active_of_def on_sched_def slot_def fun_eq_iff nth_list_update)
  ultimately show ?thesis using h' by (simp add: may_do_def)
qed

lemma open_share:
  assumes i: "i < n" and room: "h i < 2 ^ 31" and "small h"
  shows "keeping n (\<lambda>x g. x = Inr () \<and> g = h(i := Suc (h i))) (record_connection_open_p i) h"
proof -
  have step: "may_do n h (h(i := Suc (h i))) r (on_sched (\<lambda>s. s\<lparr>s_active := (s_active s)[i := s_active s ! i + 1]\<rparr>) r)"
    if "may_find n r h" for r
  proof (rule active_moves [OF that i, where f = "\<lambda>x. x + 1"])
    show "small (h(i := Suc (h i)))" using assms by (auto simp: small_def)
    have "unat (runtime_active r i) \<le> 2 ^ 63" using that i by (simp add: may_find_def)
    then show "unat (runtime_active r i + 1) + h i = unat (runtime_active r i) + Suc (h i)"
      by (simp add: unat_plus_1_u64)
  qed
  have total: "calm n (\<lambda>_. True) (modify (on_sched (\<lambda>s. s\<lparr>s_total := (s_total s)[i := s_total s ! i + 1]\<rparr>)) :: unit access)"
    by (rule calm_update(1)) (simp_all add: wf_scheduler_def backend_count_def)
  have "keeping n (\<lambda>x g. (\<exists>a. x = Inr a \<and> True) \<and> g = h(i := Suc (h i))) (mark_open_p i) h"
    unfolding mark_open_p_def
    by (rule keeping_checked [OF i pool_lengths(1)], assumption,
        rule keeping_then [where P = "\<lambda>_. True", OF obeys_mono [OF keeping_modify [OF step]]], assumption, simp,
        rule keeping_last [OF total]) simp
  moreover have "keeping n (\<lambda>x g. x = Inr () \<and> g = h(i := Suc (h i)))
      (bind_prog (fetch_modify f1 (on_metrics g1)) (\<lambda>a. bind_prog (modify (on_metrics g2)) (\<lambda>_.
        modify (on_metrics (g3 a))) :: unit access)) (h(i := Suc (h i)))" for f1 :: "runtime \<Rightarrow> u64" and g1 g2 g3
  proof (rule keeping_calm [where R = "\<lambda>_. True"])
    show "calm n (\<lambda>_. True) (fetch_modify f1 (on_metrics g1))"
      unfolding fetch_modify_def by (rule calm_Access) (simp add: pool_keep_metrics calm_Return)
    show "keeping n (\<lambda>x g. x = Inr () \<and> g = h(i := Suc (h i)))
        (bind_prog (modify (on_metrics g2)) (\<lambda>_. modify (on_metrics (g3 a)))) (h(i := Suc (h i)))" for a
      by (rule keeping_calm [OF calm_update(2)], simp, rule keeping_last [OF calm_update(2)]) simp_all
  qed
  ultimately show ?thesis
    unfolding record_connection_open_p_def by (rule keeping_then)
qed

lemma close_share:
  assumes i: "i < n" and some: "h i > 0" and "small h"
  shows "keeping n (\<lambda>x g. x = Inr () \<and> g = h(i := h i - 1)) (record_connection_close_p i) h"
proof -
  have step: "may_do n h (h(i := h i - 1)) r
      (on_sched (\<lambda>s. s\<lparr>s_active := (s_active s)[i := saturating_dec (s_active s ! i)]\<rparr>) r)"
    if "may_find n r h" for r
  proof (rule active_moves [OF that i])
    show "small (h(i := h i - 1))" using assms by (auto simp: small_def intro: le_trans [OF diff_le_self])
    have "h i \<le> unat (runtime_active r i)" using that i by (simp add: may_find_def)
    with some show "unat (saturating_dec (runtime_active r i)) + h i = unat (runtime_active r i) + (h i - 1)"
      by (simp add: unat_saturating_dec)
  qed
  have "keeping n (\<lambda>x g. (\<exists>a. x = Inr a \<and> True) \<and> g = h(i := h i - 1)) (mark_closed_p i) h"
    unfolding mark_closed_p_def
    by (rule keeping_checked [OF i pool_lengths(1)], assumption, rule obeys_mono [OF keeping_modify [OF step]]) simp_all
  then show ?thesis
    unfolding record_connection_close_p_def
    by (rule keeping_then) (rule keeping_last [OF calm_update(2)], simp_all)
qed

section \<open>A worker's own steps\<close>

text \<open>
  What \<open>LB_Worker_Inv\<close> shows of a worker with its runtime holds of the worker's own part: for any
  worker there is a runtime whose counters are exactly this worker's connections.
\<close>

lemma pool_with:
  assumes "n < 2 ^ 64" and "\<forall>i. f i < 2 ^ 64"
  shows "\<exists>r. pool_of n r \<and> rt.counts r f"
proof -
  let ?e = "\<lparr>host = [], port = 0\<rparr>"
  let ?s = "(new_scheduler (replicate n ?e) RoundRobin)\<lparr>s_active := map (\<lambda>i. of_nat (f i)) [0..<n]\<rparr>"
  let ?b = "\<lparr>b_endpoint = ?e, b_bytes_client = 0, b_bytes_backend = 0, b_latency_us = 0\<rparr>"
  let ?r = "\<lparr>r_config = sample_config, r_sched = ?s, r_metrics = new_metrics 0, r_backends = replicate n ?b\<rparr>"
  have "pool_of n ?r"
    using assms(1)
    by (simp add: pool_of_def wf_runtime_def wf_scheduler_def new_scheduler_def pool_size_def backend_count_def)
  moreover have "rt.counts ?r f"
    using assms(2)
    by (simp add: rt.counts_def runtime_views active_of_def slot_def unat_of_nat_u64)
  ultimately show ?thesis by blast
qed

lemma own_load_zero:
  assumes "own_inv n w" and "i \<ge> n"
  shows "own_load w i = 0"
proof -
  have shp: "paired_shape n (shape (w_peers w))" using assms(1) by (simp add: own_inv_def)
  have "shape (w_peers w) fd \<noteq> Some (f, pf, i, b)" for fd f pf b
  proof
    assume "shape (w_peers w) fd = Some (f, pf, i, b)"
    with shp have "i < n" unfolding paired_shape_def by blast
    with assms(2) show False by simp
  qed
  then have "client_fds (shape (w_peers w)) i = {}" by (simp add: client_fds_def)
  then show ?thesis by (simp add: own_load_def load_def)
qed

lemma own_witness:
  assumes "own_inv n w" and "n < 2 ^ 64"
  shows "\<exists>r. pool_of n r \<and> worker_inv (\<lambda>_. 0) (w\<lparr>w_rt := r\<rparr>)"
proof -
  have "own_load w i < 2 ^ 64" for i using own_load_bound [OF assms(1), of i] by simp
  with pool_with [OF assms(2), of "own_load w"] obtain r where "pool_of n r" "rt.counts r (own_load w)" by blast
  with assms(1) show ?thesis by (auto simp: worker_inv_own pool_of_def)
qed

lemma own_step:
  assumes own: "own_inv n w" and n: "n < 2 ^ 64"
    and step: "\<And>r. pool_size r = n \<Longrightarrow> worker_inv (\<lambda>_. 0) (w\<lparr>w_rt := r\<rparr>) \<Longrightarrow> worker_inv (\<lambda>_. 0) (w'\<lparr>w_rt := r\<rparr>)"
  shows "own_inv n w'" and "own_load w' = own_load w"
proof -
  from own_witness [OF own n] obtain r where r: "pool_of n r" "worker_inv (\<lambda>_. 0) (w\<lparr>w_rt := r\<rparr>)" by blast
  from step [OF _ r(2)] r(1) have r': "worker_inv (\<lambda>_. 0) (w'\<lparr>w_rt := r\<rparr>)" by (simp add: pool_of_def)
  with r(1) show own': "own_inv n w'" by (simp add: worker_inv_own pool_of_def)
  show "own_load w' = own_load w"
  proof
    fix i
    have "own_load w' i = own_load w i" if "i < n"
      using r r' that by (simp add: worker_inv_own pool_of_def rt.counts_def)
    with own_load_zero [OF own] own_load_zero [OF own'] show "own_load w' i = own_load w i" by (cases "i < n") simp_all
  qed
qed

definition owns :: "nat \<Rightarrow> worker \<Rightarrow> share \<Rightarrow> bool" where
  "owns n w h \<longleftrightarrow> n < 2 ^ 64 \<and> own_inv n w \<and> h = own_load w"

lemma owns_step:
  assumes "owns n w h"
    and "\<And>r. pool_size r = n \<Longrightarrow> worker_inv (\<lambda>_. 0) (w\<lparr>w_rt := r\<rparr>) \<Longrightarrow> worker_inv (\<lambda>_. 0) (w'\<lparr>w_rt := r\<rparr>)"
  shows "owns n w' h"
  using assms own_step [of n w w'] by (simp add: owns_def)

lemma owns_small: "owns n w h \<Longrightarrow> small h"
  using own_load_bound [of n w] less_imp_le by (auto simp: owns_def small_def)

lemma owns_peer:
  assumes "owns n w h" and "w_peers w fd = Some p"
  shows "p_backend p < n" and "p_paired p \<noteq> fd" and "\<exists>q. w_peers w (p_paired p) = Some q"
proof -
  have "paired_shape n (shape (w_peers w))" using assms(1) by (simp add: owns_def own_inv_def)
  from paired_peer [OF this assms(2)] show "p_backend p < n" "p_paired p \<noteq> fd" "\<exists>q. w_peers w (p_paired p) = Some q"
    by auto
qed

text \<open>Closing both ends of a pair gives up one connection of its backend.\<close>

lemma owns_close:
  assumes own: "owns n w h" and p: "w_peers w fd = Some p"
  shows "owns n (close_one (p_paired p) (close_one fd w)) (h(p_backend p := h (p_backend p) - 1))"
    and "h (p_backend p) > 0"
proof -
  let ?w = "close_one (p_paired p) (close_one fd w)" and ?i = "p_backend p"
  from own have o: "own_inv n w" "n < 2 ^ 64" and h: "h = own_load w" by (simp_all add: owns_def)
  from own_witness [OF o] obtain r where r: "pool_of n r" "worker_inv (\<lambda>_. 0) (w\<lparr>w_rt := r\<rparr>)" by blast
  obtain q where q: "p_paired p \<noteq> fd" "w_peers w (p_paired p) = Some q" using owns_peer(2,3) [OF own p] by blast
  have eq: "?w = w\<lparr>w_peers := (w_peers w)(fd := None, p_paired p := None),
      w_kern := sys_close (p_paired p) (sys_close fd (w_kern w))\<rparr>"
    by (rule close_ones [OF p q(2,1)])
  from inv_remove_pair [OF r(2), of fd p] p obtain r' where
    "worker_inv (\<lambda>_. 0) (w\<lparr>w_peers := (w_peers w)(fd := None, p_paired p := None), w_rt := r',
        w_kern := sys_close (p_paired p) (sys_close fd (w_kern w))\<rparr>)" "pool_size r' = pool_size r"
    by auto
  then have "own_inv n (w\<lparr>w_peers := (w_peers w)(fd := None, p_paired p := None), w_rt := r',
        w_kern := sys_close (p_paired p) (sys_close fd (w_kern w))\<rparr>)"
    using r(1) by (simp add: worker_inv_own pool_of_def)
  then have own': "own_inv n ?w" by (simp add: own_inv_def fixed_fds_def eq)
  have core: "shape (w_peers w) fd = Some (p_fd p, p_paired p, ?i, p_backend_side p)"
    using p by (simp add: shape_def core_def)
  have "paired_shape n (shape (w_peers w))" "finite (dom (shape (w_peers w)))"
    using o(1) by (simp_all add: own_inv_def)
  note L = load_remove [OF this core]
  have "own_load ?w = (own_load w)(?i := own_load w ?i - 1)"
    using L(1) by (simp add: own_load_def [abs_def] eq shape_remove)
  with own' o(2) h show "owns n ?w (h(?i := h ?i - 1))" by (simp add: owns_def)
  show "h ?i > 0" using L(2) by (simp add: h own_load_def)
qed

section \<open>Every member function keeps its share\<close>

definition held :: "(exn \<times> worker) + worker \<Rightarrow> worker" where
  "held x = (case x of Inl (e, w) \<Rightarrow> w | Inr w \<Rightarrow> w)"

lemma held_simps [simp]: "held (Inr w) = w" "held (Inl (e, w)) = w"
  by (simp_all add: held_def)

text \<open>The program ends, with an exception or without, in a state whose connections are its share.\<close>

definition served :: "nat \<Rightarrow> worker work \<Rightarrow> share \<Rightarrow> bool" where
  "served n p h \<longleftrightarrow> keeping n (\<lambda>x g. owns n (held x) g) p h"

lemma served_Return: "owns n w h \<Longrightarrow> served n (Return w) h"
  by (simp add: served_def)

lemma served_Raise: "owns n w h \<Longrightarrow> served n (Raise (e, w)) h"
  by (simp add: served_def)

lemma served_bind:
  assumes "served n p h" and "\<And>w g. owns n w g \<Longrightarrow> served n (f w) g"
  shows "served n (bind_prog p f) h"
  unfolding served_def
proof (rule obeys_bind, rule obeys_mono [OF assms(1) [unfolded served_def]])
  fix x g
  assume "owns n (held x) g"
  with assms(2) show "case x of Inl e \<Rightarrow> owns n (held (Inl e)) g
      | Inr w \<Rightarrow> keeping n (\<lambda>x g. owns n (held x) g) (f w) g"
    by (cases x) (auto simp: served_def)
qed

text \<open>The same when the continuation is only known on the results of the first program.\<close>

lemma served_bind_results:
  assumes "served n p h" and "\<And>w g. w \<in> results p \<Longrightarrow> owns n w g \<Longrightarrow> served n (f w) g"
  shows "served n (bind_prog p f) h"
proof -
  have "keeping n (\<lambda>x g. owns n (held x) g \<and> (\<forall>w. x = Inr w \<longrightarrow> w \<in> results p)) p h"
    using obeys_results [OF assms(1) [unfolded served_def]] .
  then show ?thesis
    unfolding served_def
  proof (intro obeys_bind, elim obeys_mono)
    fix x g
    assume "owns n (held x) g \<and> (\<forall>w. x = Inr w \<longrightarrow> w \<in> results p)"
    with assms(2) show "case x of Inl e \<Rightarrow> owns n (held (Inl e)) g
        | Inr w \<Rightarrow> keeping n (\<lambda>x g. owns n (held x) g) (f w) g"
      by (cases x) (auto simp: served_def)
  qed
qed

lemma calm_lift: "calm n R p \<Longrightarrow> calm n R (lift_p w p)"
  unfolding lift_p_def by (rule calm_map)

lemma keeping_on_rt: "calm n R p \<Longrightarrow> Q (Inr w) h \<Longrightarrow> keeping n Q (on_rt_p p w) h"
  unfolding on_rt_p_def by (rule keeping_calm [OF calm_lift]) simp_all

lemma keeping_on_rt_share:
  assumes "keeping n (\<lambda>x g. x = Inr () \<and> g = h') p h" and "Q (Inr w) h'"
  shows "keeping n Q (on_rt_p p w) h"
proof -
  have "keeping n (\<lambda>x g. (\<exists>a. x = Inr a \<and> True) \<and> g = h') (lift_p w p) h"
    unfolding lift_p_def obeys_map by (rule obeys_mono [OF assms(1)]) simp
  then show ?thesis
    unfolding on_rt_p_def by (rule keeping_then) (simp add: assms(2))
qed

lemma served_on_rt: "calm n R p \<Longrightarrow> owns n w h \<Longrightarrow> served n (on_rt_p p w) h"
  unfolding served_def by (erule keeping_on_rt) simp

lemma served_config: "(\<And>x. served n (f x) h) \<Longrightarrow> served n (bind_prog (config_p g) f) h"
  unfolding served_def config_p_def by (rule keeping_calm [OF calm_fetch]) simp_all

text \<open>The peers after \<open>close_pair\<close>.\<close>

definition closed :: "fd \<Rightarrow> worker \<Rightarrow> worker" where
  "closed fd w = (case w_peers w fd of None \<Rightarrow> w | Some p \<Rightarrow> close_one (p_paired p) (close_one fd w))"

lemma keeping_close_pair:
  assumes own: "owns n w h"
  shows "keeping n (\<lambda>x g. x = Inr (closed fd w) \<and> owns n (closed fd w) g) (close_pair_p fd b w) h"
proof (cases "w_peers w fd")
  case None
  with own show ?thesis by (simp add: close_pair_p_def closed_def)
next
  case (Some p)
  let ?i = "p_backend p" and ?w = "close_one (p_paired p) (close_one fd w)"
  note i = owns_peer(1) [OF own Some] and C = owns_close [OF own Some]
  have fail: "calm n (\<lambda>_. True) (record_backend_failure_p ?i)" "calm n (\<lambda>_. True) (eject_p ?i)"
    by (rule calm_records(1) [OF i], rule calm_records(5) [OF i])
  have first: "keeping n (\<lambda>x g. (\<exists>a. x = Inr a \<and> a = ?w) \<and> g = h(?i := h ?i - 1))
      (on_rt_p (record_connection_close_p ?i) ?w) h"
    by (rule keeping_on_rt_share [OF close_share [OF i C(2) owns_small [OF own]]]) simp
  have rest: "keeping n (\<lambda>x g. x = Inr ?w \<and> owns n ?w g)
      (if b then bind_prog (on_rt_p (record_backend_failure_p ?i) ?w) (maybe_eject_p ?i) else Return ?w)
      (h(?i := h ?i - 1))"
  proof (cases b)
    case True
    have "keeping n (\<lambda>x g. x = Inr ?w \<and> owns n ?w g)
        (bind_prog (on_rt_p (record_backend_failure_p ?i) ?w) (maybe_eject_p ?i)) (h(?i := h ?i - 1))"
      by (rule keeping_then [where P = "\<lambda>a. a = ?w", OF keeping_on_rt [OF fail(1)]])
        (use C(1) in \<open>auto simp: maybe_eject_p_def intro!: keeping_on_rt [OF fail(2)]\<close>)
    with True show ?thesis by simp
  qed (use C(1) in simp)
  show ?thesis
    unfolding close_pair_p_def closed_def Some option.case by (rule keeping_then [OF first]) (simp only: rest)
qed

lemma served_close_pair: "owns n w h \<Longrightarrow> served n (close_pair_p fd b w) h"
  unfolding served_def by (rule obeys_mono [OF keeping_close_pair]) auto

lemma owns_modify: "owns n w h \<Longrightarrow> owns n (modify_fd fd w) h"
  by (erule owns_step) (simp add: inv_modify)

lemma owns_drained:
  "owns n w h \<Longrightarrow> w_peers w fd = Some p \<Longrightarrow> p_sent p \<ge> length (p_outbound p) \<Longrightarrow> owns n (put_peer fd (drained p) w) h"
  by (erule owns_step) (simp add: inv_drained)

lemma owns_tick: "owns n w h \<Longrightarrow> owns n (on_kern tick w) h"
  by (erule owns_step) (simp add: inv_tick)

lemma served_flush: "owns n w h \<Longrightarrow> served n (flush_p fd w) h"
proof (induction fd w arbitrary: h rule: flush_p.induct)
  case (1 fd w)
  note own = "1.prems"
  show ?case
  proof (cases "w_peers w fd")
    case None
    with own show ?thesis by (simp add: flush_p.simps [of fd w] served_Return)
  next
    case (Some p)
    obtain r k where wr: "sys_write fd (drop (p_sent p) (p_outbound p)) (w_kern w) = (r, k)" by fastforce
    show ?thesis
    proof (cases "p_connecting p \<or> p_sent p \<ge> length (p_outbound p)")
      case True
      with Some own owns_drained [OF own Some] show ?thesis
        by (simp add: flush_p.simps [of fd w] served_Return)
    next
      case False
      note IH = "1.IH" [OF Some False wr [symmetric]]
      have none: "owns n (w\<lparr>w_kern := k\<rparr>) h" if "\<forall>m. r \<noteq> WTake m \<or> m = 0"
        using own
      proof (rule owns_step)
        fix q assume q: "worker_inv (\<lambda>_. 0) (w\<lparr>w_rt := q\<rparr>)"
        have "worker_inv (\<lambda>_. 0) (w\<lparr>w_rt := q, w_kern := k\<rparr>)"
        proof (cases "r = WTake 0")
          case True
          with inv_write_zero [OF q, of fd] wr show ?thesis by simp
        next
          case False
          with that have "\<forall>m. r \<noteq> WTake m" by blast
          with inv_write_none [OF q, of fd] wr show ?thesis by simp
        qed
        then show "worker_inv (\<lambda>_. 0) (w\<lparr>w_kern := k, w_rt := q\<rparr>)" by simp
      qed
      show ?thesis
      proof (cases r)
        case (WTake m)
        let ?p = "p\<lparr>p_sent := p_sent p + m, p_last := clock_now k\<rparr>"
        let ?w = "put_peer fd ?p (w\<lparr>w_kern := tick k\<rparr>)"
        have moved: "owns n ?w h"
          using own by (rule owns_step) (use inv_write [of "\<lambda>_. 0" "w\<lparr>w_rt := q\<rparr>" fd p m k for q] Some False wr WTake in simp)
        have here: "w_peers ?w fd = Some ?p" by (simp add: put_peer_def)
        show ?thesis
        proof (cases "m = 0")
          case True
          then have "served n (close_pair_p fd b (w\<lparr>w_kern := k\<rparr>)) h" for b
            using WTake by (intro served_close_pair none) auto
          with Some False wr WTake True show ?thesis by (simp add: flush_p.simps [of fd w])
        next
          case False': False
          show ?thesis
          proof (cases "p_sent p + m = length (p_outbound p)")
            case True
            with Some False wr WTake False' owns_modify [OF owns_drained [OF moved here]] show ?thesis
              by (simp add: flush_p.simps [of fd w] Let_def served_Return)
          next
            case False'': False
            with Some False wr WTake False' IH(1) [OF WTake _ refl refl _ moved] show ?thesis
              by (simp add: flush_p.simps [of fd w] Let_def)
          qed
        qed
      next
        case WIntr
        with Some False wr IH(2) none show ?thesis by (simp add: flush_p.simps [of fd w])
      qed (use Some False wr none served_close_pair in \<open>simp_all add: flush_p.simps [of fd w] served_Return\<close>)
    qed
  qed
qed

lemma owns_received:
  assumes own: "owns n w h" and p: "w_peers w fd = Some p" "w_peers w (p_paired p) = Some q"
    and rd: "sys_read fd (w_kern w) = (RData bs, k)"
  shows "owns n (put_peer (p_paired p) (append_outbound bs t q) (put_peer fd (p\<lparr>p_last := t'\<rparr>) (w\<lparr>w_kern := tick k\<rparr>))) h"
  using own by (rule owns_step) (use inv_received [of "\<lambda>_. 0" "w\<lparr>w_rt := r\<rparr>" fd p q bs k t t' for r] p rd in simp)

lemma owns_read_none:
  assumes own: "owns n w h" and rd: "sys_read fd (w_kern w) = (r, k)" "\<forall>b bs. r \<noteq> RData (b # bs)"
  shows "owns n (w\<lparr>w_kern := k\<rparr>) h"
  using own by (rule owns_step) (use inv_read_none [of "\<lambda>_. 0" "w\<lparr>w_rt := q\<rparr>" fd r k for q] rd in simp)

lemma served_deliver:
  assumes own: "owns n w h" and p: "w_peers w fd = Some p" and q: "w_peers w (p_paired p) = Some q"
    and rd: "sys_read fd (w_kern w) = (RData bs, k)"
  shows "served n (deliver_p fd bs (p\<lparr>p_last := t\<rparr>) q (put_peer fd (p\<lparr>p_last := t\<rparr>) (w\<lparr>w_kern := tick k\<rparr>))) h"
proof -
  have "calm n (\<lambda>_. True) (record_bytes_p (p_backend_side p) (p_backend p) (length bs))"
    by (rule calm_records(4)) (rule owns_peer(1) [OF own p])
  from served_on_rt [OF this owns_received [OF own p q rd]]
  have "served n (on_rt_p (record_bytes_p (p_backend_side p) (p_backend p) (length bs))
      (put_peer (p_paired p) (append_outbound bs t q) (put_peer fd (p\<lparr>p_last := t\<rparr>) (w\<lparr>w_kern := tick k\<rparr>)))) h" .
  then show ?thesis
    unfolding deliver_p_def Let_def
    by simp (rule served_bind, assumption, rule served_bind [OF served_flush], assumption,
      intro served_Return owns_modify)
qed

lemma served_read: "owns n w h \<Longrightarrow> served n (read_available_p fd w) h"
proof (induction fd w arbitrary: h rule: read_available_p.induct)
  case (1 fd w)
  note own = "1.prems"
  show ?case
  proof (cases "w_peers w fd")
    case None
    with own show ?thesis by (simp add: read_available_p.simps [of fd w] served_Return)
  next
    case (Some p)
    obtain r k where rd: "sys_read fd (w_kern w) = (r, k)" by fastforce
    note IH = "1.IH" [OF Some rd [symmetric]] and none = owns_read_none [OF own rd]
    obtain q where q: "w_peers w (p_paired p) = Some q" and ne: "p_paired p \<noteq> fd"
      using owns_peer(2,3) [OF own Some] by blast
    show ?thesis
    proof (cases r)
      case (RData bs)
      show ?thesis
      proof (cases "bs = []")
        case True
        have "owns n (w\<lparr>w_kern := k\<rparr>) h" by (rule none) (simp add: RData True)
        with RData True Some rd show ?thesis by (simp add: read_available_p.simps [of fd w] served_close_pair)
      next
        case False
        let ?p = "p\<lparr>p_last := clock_now k\<rparr>"
        let ?w1 = "put_peer fd ?p (w\<lparr>w_kern := tick k\<rparr>)"
        let ?d = "deliver_p fd bs ?p q ?w1"
        have q1: "w_peers ?w1 (p_paired ?p) = Some q" using q ne by (simp add: put_peer_def)
        have d: "served n ?d h" by (rule served_deliver [OF own Some q rd [unfolded RData]])
        have again: "served n (if outbound_full (p_paired ?p) w2 then Return w2 else read_available_p fd w2) g"
          if "w2 \<in> results ?d" "owns n w2 g" for w2 g
          using IH(1) [OF RData False refl refl q1 that(1)] that(2) by (simp add: served_Return)
        have "served n (bind_prog ?d (\<lambda>w2.
            if outbound_full (p_paired ?p) w2 then Return w2 else read_available_p fd w2)) h"
          using served_bind_results [OF d again] .
        then show ?thesis
          using RData False Some rd q1 by (simp add: read_available_p.simps [of fd w] Let_def)
      qed
    next
      case RIntr
      have "owns n (w\<lparr>w_kern := k\<rparr>) h" by (rule none) (simp add: RIntr)
      with RIntr Some rd IH(2) [OF RIntr] show ?thesis by (simp add: read_available_p.simps [of fd w])
    qed (use Some rd none in \<open>simp_all add: read_available_p.simps [of fd w] served_Return served_close_pair\<close>)
  qed
qed

lemma owns_connected: "owns n w h \<Longrightarrow> w_peers w fd = Some p \<Longrightarrow> owns n (put_peer fd (connected now p) w) h"
  by (erule owns_step) (simp add: inv_connected)

lemma served_finish_connect:
  assumes own: "owns n w h"
  shows "served n (finish_connect_p fd w) h"
proof (cases "w_peers w fd")
  case (Some p)
  note i = owns_peer(1) [OF own Some]
  note ticked = owns_tick [OF own]
  show ?thesis
  proof (cases "k_soerror (w_kern w) (k_calls (w_kern w)) = Some 0")
    case True
    let ?now = "clock_now (w_kern (on_kern tick w))"
    let ?w = "put_peer fd (connected ?now p) (on_kern tick (on_kern tick w))"
    have w: "owns n ?w h" by (rule owns_connected [OF owns_tick [OF ticked]]) (simp add: Some)
    have "served n (bind_prog (on_rt_p (record_connect_latency_p (p_backend p) l) ?w) (\<lambda>w.
        bind_prog (on_rt_p (mark_healthy_p (p_backend p)) w) (\<lambda>w.
        bind_prog (flush_p fd w) (\<lambda>w. Return (modify_fd fd w))))) h" for l
      by (rule served_bind [OF served_on_rt [OF calm_records(2) [OF i] w]],
          rule served_bind [OF served_on_rt [OF calm_healthy [OF i]]], assumption,
          rule served_bind [OF served_flush], assumption, intro served_Return owns_modify)
    with True Some show ?thesis by (simp add: finish_connect_p_def Let_def connected_def)
  qed (use Some served_close_pair [OF ticked] in \<open>simp add: finish_connect_p_def\<close>)
qed (use own in \<open>simp add: finish_connect_p_def served_Return\<close>)

section \<open>Accepting\<close>

lemma owns_close_unused: "owns n w h \<Longrightarrow> unused c w \<Longrightarrow> owns n (on_kern (sys_close c) w) h"
  by (erule owns_step) (simp add: inv_close_unused unused_def fixed_fds_def)

lemma unused_rt: "unused c (w\<lparr>w_rt := r\<rparr>) = unused c w"
  by simp

lemma owns_dialled:
  assumes own: "owns n w h" and c: "unused c w" and cb: "connect_backend e (w_kern w) = (x, k)"
  shows "owns n (w\<lparr>w_kern := k\<rparr>) h" and "unused c (w\<lparr>w_kern := k\<rparr>)"
    and "x = Inr (Some s) \<Longrightarrow> unused s (w\<lparr>w_kern := k\<rparr>) \<and> c \<noteq> s"
proof -
  show "owns n (w\<lparr>w_kern := k\<rparr>) h"
    using own by (rule owns_step) (use inv_dialled(1) [of "\<lambda>_. 0" "w\<lparr>w_rt := r\<rparr>" c e x k for r] c cb in simp)
  from own own_witness obtain r where "worker_inv (\<lambda>_. 0) (w\<lparr>w_rt := r\<rparr>)" by (auto simp: owns_def)
  note D = inv_dialled [OF this, of c e x k]
  have k: "unused g (w\<lparr>w_rt := r, w_kern := k\<rparr>) = unused g (w\<lparr>w_kern := k\<rparr>)" for g
    by (simp add: unused_def fixed_fds_def)
  show "unused c (w\<lparr>w_kern := k\<rparr>)" using D(2) c cb by (simp add: k)
  show "x = Inr (Some s) \<Longrightarrow> unused s (w\<lparr>w_kern := k\<rparr>) \<and> c \<noteq> s" using D(4) c cb by (simp add: k)
qed

lemma owns_new_pair:
  assumes own: "owns n w h" and i: "i < n" and fds: "unused c w" "unused s w" "c \<noteq> s"
  shows "owns n (new_pair c s i now deadline w) (h(i := Suc (h i)))"
proof -
  let ?w = "new_pair c s i now deadline w"
  from own have o: "own_inv n w" "n < 2 ^ 64" and h: "h = own_load w" by (simp_all add: owns_def)
  from own_witness [OF o] obtain r where r: "pool_of n r" "worker_inv (\<lambda>_. 0) (w\<lparr>w_rt := r\<rparr>)" by blast
  have "\<exists>t. pool_size t = pool_size r \<and> worker_inv (\<lambda>_. 0) (new_pair c s i now deadline (w\<lparr>w_rt := t\<rparr>))"
    using inv_new_pair [OF r(2), of i c s now deadline] i r(1) fds
    by (auto simp: unused_def pool_of_def fixed_fds_def)
  then obtain t where t: "pool_size t = n" "worker_inv (\<lambda>_. 0) (?w\<lparr>w_rt := t\<rparr>)"
    using r(1) by (auto simp: new_pair_def pool_of_def)
  then have own': "own_inv n ?w" by (simp add: worker_inv_own new_pair_def del: own_rt)
  have eq: "w_peers ?w = (w_peers w)(c \<mapsto> new_peer c s i False False now deadline, s \<mapsto> new_peer s c i True True now deadline)"
    using fds by (simp add: new_pair_def emplace_def put_peer_def unused_def)
  have none: "shape (w_peers w) c = None" "shape (w_peers w) s = None" using fds by (simp_all add: shape_def unused_def)
  have shp: "shape (w_peers ?w) = (shape (w_peers w))(c \<mapsto> (c, s, i, False), s \<mapsto> (s, c, i, True))"
    by (auto simp: eq shape_def core_def new_peer_def)
  have "finite (dom (shape (w_peers w)))" using o(1) by (simp add: own_inv_def)
  from load_insert [OF this none fds(3)] have "own_load ?w = (own_load w)(i := Suc (own_load w i))"
    by (simp add: own_load_def [abs_def] shp)
  with own' o(2) h show ?thesis by (simp add: owns_def)
qed

lemma served_add_fd: "owns n w h \<Longrightarrow> served n (own_p (add_fd fd ev w)) h"
proof -
  assume own: "owns n w h"
  have "owns n (on_kern (ctl_add fd ev) w) h"
    using own
  proof (rule owns_step)
    fix r assume r: "worker_inv (\<lambda>_. 0) (w\<lparr>w_rt := r\<rparr>)"
    show "worker_inv (\<lambda>_. 0) ((on_kern (ctl_add fd ev) w)\<lparr>w_rt := r\<rparr>)"
      using inv_kern [OF r, of "ctl_add fd ev (w_kern w)"] worker_invD(2) [OF r] by (simp add: on_kern_def)
  qed
  then show ?thesis by (simp add: own_p_def add_fd_def served_Return served_Raise)
qed

lemma served_attached:
  assumes own: "owns n w h" and c: "unused c w" and sel: "selected_in n sel"
  shows "served n (attached_p c sel w) h"
proof (cases sel)
  case None
  with owns_close_unused [OF own c] show ?thesis by (simp add: attached_p_def served_Return)
next
  case (Some b)
  let ?i = "sel_index b"
  have i: "?i < n" using sel Some by (simp add: selected_in_def)
  obtain x k where cb: "connect_backend (sel_endpoint b) (w_kern w) = (x, k)" by fastforce
  note D = owns_dialled [OF own c cb]
  consider e where "x = Inl e" | "x = Inr None" | s where "x = Inr (Some s)"
    by (metis old.sum.exhaust option.exhaust)
  then show ?thesis
  proof cases
    case 1
    with Some cb D(1) show ?thesis by (simp add: attached_p_def served_Raise)
  next
    case 2
    have "served n (bind_prog (on_rt_p (record_backend_failure_p ?i) (w\<lparr>w_kern := k\<rparr>)) (\<lambda>w.
        bind_prog (maybe_eject_p ?i w) (\<lambda>w. Return (on_kern (sys_close c) w)))) h"
      unfolding served_def maybe_eject_p_def
      by (rule keeping_then [where P = "\<lambda>a. a = w\<lparr>w_kern := k\<rparr>", OF keeping_on_rt [OF calm_records(1) [OF i]]],
          simp, rule keeping_then [where P = "\<lambda>a. a = w\<lparr>w_kern := k\<rparr>", OF keeping_on_rt [OF calm_records(5) [OF i]]],
          simp) (simp add: owns_close_unused [OF D(1,2)])
    with 2 Some cb show ?thesis by (simp add: attached_p_def)
  next
    case (3 s)
    let ?w = "w\<lparr>w_kern := tick k\<rparr>"
    have t: "?w = on_kern tick (w\<lparr>w_kern := k\<rparr>)" by (simp add: on_kern_def)
    have w: "owns n ?w h" "unused c ?w" "unused s ?w" "c \<noteq> s"
      using D(3) [OF 3] owns_tick [OF D(1)] D(2) unfolding t by simp_all
    have room: "h ?i < 2 ^ 31" using own own_load_bound [of n w] by (simp add: owns_def)
    have "served n (bind_prog (on_rt_p (record_connection_open_p ?i) ?w) (\<lambda>w.
        bind_prog (own_p (add_fd c e1 (new_pair c s ?i now deadline w))) (\<lambda>w. own_p (add_fd s e2 w)))) h"
      for e1 e2 now deadline
    proof -
      have "served n (bind_prog (own_p (add_fd c e1 (new_pair c s ?i now deadline ?w))) (\<lambda>w. own_p (add_fd s e2 w)))
          (h(?i := Suc (h ?i)))"
        by (rule served_bind [OF served_add_fd [OF owns_new_pair [OF w(1) i w(2,3,4)]]]) (rule served_add_fd)
      note rest = this [unfolded served_def]
      show ?thesis
        unfolding served_def
        by (rule keeping_then [where P = "\<lambda>a. a = ?w",
              OF keeping_on_rt_share [OF open_share [OF i room owns_small [OF own]]]]) (simp, simp only: rest)
    qed
    with 3 Some cb show ?thesis by (simp add: attached_p_def Let_def new_pair_def served_config)
  qed
qed

lemma served_attach:
  assumes own: "owns n w h" and c: "unused c w"
  shows "served n (attach_backend_p c w) h"
  unfolding attach_backend_p_def served_def
  by (rule keeping_calm [OF calm_lift [OF calm_select]], rule served_attached [unfolded served_def])
    (use owns_tick [OF own] c in simp_all)

lemma owns_accepted:
  assumes own: "owns n w h" and acc: "sys_accept (w_kern w) = (r, c, k)"
  shows "owns n (w\<lparr>w_kern := k\<rparr>) h" and "r = AClient \<Longrightarrow> unused c (w\<lparr>w_kern := k\<rparr>)"
proof -
  show "owns n (w\<lparr>w_kern := k\<rparr>) h"
    using own
  proof (rule owns_step)
    fix q assume q: "worker_inv (\<lambda>_. 0) (w\<lparr>w_rt := q\<rparr>)"
    show "worker_inv (\<lambda>_. 0) (w\<lparr>w_kern := k, w_rt := q\<rparr>)"
      using accept_client(1) [OF q] accept_none(1) [OF q] acc by (cases "r = AClient") simp_all
  qed
  from own own_witness obtain q where "worker_inv (\<lambda>_. 0) (w\<lparr>w_rt := q\<rparr>)" by (auto simp: owns_def)
  from accept_client(2) [OF this, of c k] acc show "r = AClient \<Longrightarrow> unused c (w\<lparr>w_kern := k\<rparr>)"
    by (simp add: unused_def fixed_fds_def)
qed

lemma served_accept: "owns n w h \<Longrightarrow> served n (accept_clients_p w) h"
proof (induction w arbitrary: h rule: accept_clients_p.induct)
  case (1 w)
  obtain r c k where acc: "sys_accept (w_kern w) = (r, c, k)" by (metis prod_cases3)
  note A = owns_accepted [OF "1.prems" acc]
  show ?case
  proof (cases r)
    case AClient
    have "served n (bind_prog (attach_backend_p c (w\<lparr>w_kern := k\<rparr>)) accept_clients_p) h"
      by (rule served_bind_results [OF served_attach [OF A(1) A(2) [OF AClient]]])
        (rule "1.IH"(1) [OF acc [symmetric] AClient refl])
    with acc AClient show ?thesis by (simp add: accept_clients_p.simps [of w])
  next
    case AIntr
    with acc A(1) "1.IH"(2) show ?thesis by (simp add: accept_clients_p.simps [of w])
  qed (use acc A(1) in \<open>simp_all add: accept_clients_p.simps [of w] served_Return\<close>)
qed

section \<open>Events and shutdown\<close>

lemma calm_counters: "calm n (\<lambda>_. True) (modify (if b then count_connect_timeout else count_idle_timeout))"
  by (rule calm_modify)
    (simp add: pool_of_def count_connect_timeout_def count_idle_timeout_def wf_runtime_def pool_size_def runtime_views)

lemma served_close_expired: "owns n w h \<Longrightarrow> served n (close_expired_p es w) h"
proof (induction es arbitrary: w h)
  case (Cons e es)
  obtain fd b where e: "e = (fd, b)" by fastforce
  show ?case
    unfolding e close_expired_p.simps
    by (rule served_bind [OF served_on_rt [OF calm_counters Cons.prems]],
        rule served_bind [OF served_close_pair], assumption, rule Cons.IH)
qed (simp add: served_Return)

lemma served_reap: "owns n w h \<Longrightarrow> served n (reap_timeouts_p w) h"
  unfolding reap_timeouts_p_def Let_def by (intro served_config served_close_expired owns_tick)

lemma owns_timer: "owns n w h \<Longrightarrow> owns n (on_kern (consume_timer (w_timer w)) w) h"
  by (erule owns_step) (use inv_consume_timer(1) [of "\<lambda>_. 0" "w\<lparr>w_rt := r\<rparr>" for r] in simp)

lemma served_event:
  assumes own: "owns n w h"
  shows "served n (handle_event_p ev w) h"
proof -
  obtain fd flags where ev: "ev = (fd, flags)" by fastforce
  have steps: "served n (bind_prog (if a then finish_connect_p fd w else Return w) (\<lambda>w.
      bind_prog (if b w then read_available_p fd w else Return w) (\<lambda>w. if c w then flush_p fd w else Return w))) h" for a b c
    by (intro served_bind [of n "if a then _ else _"] served_bind [of n "if b _ then _ else _"])
      (simp_all add: own served_finish_connect served_read served_flush served_Return)
  show ?thesis
    using steps served_accept [OF own] served_reap [OF owns_timer [OF own]] served_close_pair [OF own] served_Return [OF own]
    by (auto simp: handle_event_p_def ev split: option.split)
qed

lemma closed_peers: "dom (w_peers (closed fd w)) \<subseteq> dom (w_peers w) - {fd}"
  by (auto simp: closed_def close_one_def on_kern_def split: option.splits if_splits)

lemma keeping_close_all:
  "owns n w h \<Longrightarrow> dom (w_peers w) \<subseteq> set fds \<Longrightarrow>
    keeping n (\<lambda>x g. \<exists>v. x = Inr v \<and> owns n v g \<and> w_peers v = Map.empty) (close_all_p fds w) h"
proof (induction fds arbitrary: w h)
  case (Cons fd fds)
  have "dom (w_peers (closed fd w)) \<subseteq> set fds" using closed_peers [of fd w] Cons.prems(2) by auto
  with Cons.IH [of "closed fd w"] show ?case
    unfolding close_all_p.simps
    by (intro obeys_bind obeys_mono [OF keeping_close_pair [OF Cons.prems(1)]]) auto
qed simp

lemma own_load_empty: "w_peers w = Map.empty \<Longrightarrow> own_load w = (\<lambda>_. 0)"
  by (simp add: own_load_clients clients_on_def fun_eq_iff)

lemma keeping_shutdown:
  assumes own: "owns n w h"
  shows "keeping n (\<lambda>x g. \<exists>v. x = Inr v \<and> w_peers v = Map.empty \<and> g = (\<lambda>_. 0)) (shutdown_p w) h"
proof -
  have "kern_ok (w_kern w)" "finite (dom (w_peers w))" using own by (simp_all add: owns_def own_inv_def)
  then have all: "dom (w_peers w) \<subseteq> set (k_order (w_kern w) (dom (w_peers w)))" by (simp add: kern_ok_def)
  show ?thesis
    unfolding shutdown_p_def
    by (intro obeys_bind obeys_mono [OF keeping_close_all [OF own all]])
      (auto simp: owns_def own_load_empty on_kern_def)
qed

section \<open>The other threads\<close>

text \<open>A thread that opens and closes nothing, whatever else it does and however it ends.\<close>

definition idle :: "(runtime, 'e, 'a) prog \<Rightarrow> nat \<Rightarrow> bool" where
  "idle p n \<longleftrightarrow> obeys (may_find n) (still n) (\<lambda>_ _. True) p (\<lambda>_. 0)"

lemma idle_ended [simp]: "idle (Return a) n" "idle (Raise e) n"
  by (simp_all add: idle_def)

lemma idle_bind:
  assumes "calm n R p" and "\<And>a. R a \<Longrightarrow> idle (f a) n"
  shows "idle (bind_prog p f) n"
  unfolding idle_def
  by (rule obeys_bind, rule obeys_mono [OF assms(1) [unfolded calm_def, THEN spec]])
    (use assms(2) in \<open>auto simp: idle_def\<close>)

lemma idle_kern: "calm n R p \<Longrightarrow> (\<And>a. R a \<Longrightarrow> idle (f a) n) \<Longrightarrow> idle (bind_prog (with_kern k p) f) n"
  unfolding with_kern_def by (rule idle_bind [OF calm_map])

lemma idle_check:
  assumes "i < n"
  shows "idle (health_check_p i k) n"
proof -
  have report: "idle (bind_prog (with_kern k1 (health_report_p i ok l)) (\<lambda>_. Return k1)) n" for ok l k1
    by (rule idle_kern [OF calm_report [OF assms]]) simp
  have probe: "idle (case tcp_probe e t k of
      (Inl ex, k1) \<Rightarrow> Raise (ex, k1)
    | (Inr (ok, l), k1) \<Rightarrow> bind_prog (with_kern k1 (health_report_p i ok (case l of None \<Rightarrow> 0 | Some x \<Rightarrow> x))) (\<lambda>_. Return k1)) n" for e t
    using report by (auto split: prod.split sum.split)
  show ?thesis
    unfolding health_check_p_def
    by (rule idle_kern [OF calm_state(2) [OF assms]], split if_split, intro conjI impI, simp,
        rule idle_kern [OF calm_state(4) [OF assms]], rule idle_bind [OF calm_fetch], rule TrueI, rule probe)
qed

text \<open>A request may name any index; when it is out of range the exception changes nothing.\<close>

lemma idle_request: "idle (request_p i st k) n"
proof (cases "i < n")
  case True
  show ?thesis
    unfolding request_p_def by (rule idle_kern [OF calm_records(3) [OF True]]) simp
next
  case False
  then show ?thesis
    by (auto simp: idle_def request_p_def set_backend_state_p_def set_state_p_def checked_def with_kern_def fetch_def
        may_find_def still_def may_do_def pool_lengths)
qed

end
