(* ===== verification/LB_System.thy ===== *)
theory LB_System
  imports LB_Interleave
begin

text \<open>
  The process at the granularity of single accesses. Its state is the shared runtime and what each
  thread still has to do. Any thread makes its next access at any time; a thread that has nothing to
  do takes up an event, a health check or a request. Shown: the counters of the connections stay
  exact under every interleaving, and they are zero when all workers have shut down; a worker that has
  thrown keeps what it holds for good.
\<close>

section \<open>The threads and their steps\<close>

text \<open>A worker in its loop, a worker in \<open>shutdown\<close>, the health thread or a thread of the admin server.\<close>

datatype thread =
    Worker "worker work"
  | Stopping "worker work"
  | Other "(runtime, exn \<times> kern, kern) prog"

record threads =
  th_rt :: runtime
  th_all :: "thread list"

text \<open>The next access of a thread, with what remains after it; nothing when it has none to make.\<close>

fun access_of :: "thread \<Rightarrow> runtime \<Rightarrow> (runtime \<times> thread) option" where
  "access_of (Worker (Access u k)) r = Some (u r, Worker (k r))"
| "access_of (Stopping (Access u k)) r = Some (u r, Stopping (k r))"
| "access_of (Other (Access u k)) r = Some (u r, Other (k r))"
| "access_of _ r = None"

text \<open>
  What a thread takes up. A worker in whose code an exception was thrown, and a worker that has shut
  down, take up nothing more. While a worker waits, the network changes what its kernel will answer.
\<close>

inductive takes_up :: "runtime \<Rightarrow> thread \<Rightarrow> thread \<Rightarrow> bool" for r where
  event: "takes_up r (Worker (Return w)) (Worker (handle_event_p ev w))"
| network: "same_descriptors (w_kern w) k \<Longrightarrow> takes_up r (Worker (Return w)) (Worker (Return (w\<lparr>w_kern := k\<rparr>)))"
| stop: "takes_up r (Worker (Return w)) (Stopping (shutdown_p w))"
| check: "i < pool_size r \<Longrightarrow> takes_up r (Other (Return k0)) (Other (health_check_p i k))"
| request: "takes_up r (Other (Return k0)) (Other (request_p i st k))"

inductive threads_step :: "threads \<Rightarrow> threads \<Rightarrow> bool" where
  access: "t < length (th_all y) \<Longrightarrow> access_of (th_all y ! t) (th_rt y) = Some (r, x) \<Longrightarrow>
    threads_step y (y\<lparr>th_rt := r, th_all := (th_all y)[t := x]\<rparr>)"
| take_up: "t < length (th_all y) \<Longrightarrow> takes_up (th_rt y) (th_all y ! t) x \<Longrightarrow>
    threads_step y (y\<lparr>th_all := (th_all y)[t := x]\<rparr>)"

inductive_cases takes_upE: "takes_up r x y"

section \<open>The invariant\<close>

definition thread_ok :: "nat \<Rightarrow> thread \<Rightarrow> share \<Rightarrow> bool" where
  "thread_ok n x h \<longleftrightarrow> (case x of
     Worker p \<Rightarrow> served n p h
   | Stopping p \<Rightarrow> keeping n (\<lambda>x g. \<exists>v. x = Inr v \<and> w_peers v = Map.empty \<and> g = (\<lambda>_. 0)) p h
   | Other p \<Rightarrow> idle p n \<and> h = (\<lambda>_. 0))"

definition threads_inv :: "threads \<Rightarrow> bool" where
  "threads_inv y \<longleftrightarrow> (\<exists>H. length H = length (th_all y) \<and>
     make_up (pool_size (th_rt y)) (th_rt y) H \<and> list_all2 (thread_ok (pool_size (th_rt y))) (th_all y) H)"

lemma pool_of_size: "pool_of n r \<Longrightarrow> pool_size r = n"
  by (simp add: pool_of_def)

lemma owns_network: "owns n w h \<Longrightarrow> same_descriptors (w_kern w) k \<Longrightarrow> owns n (w\<lparr>w_kern := k\<rparr>) h"
  by (erule owns_step) (use inv_kern in \<open>auto simp: same_descriptors_def\<close>)

lemma access_ok:
  assumes whole: "make_up n r H" and t: "t < length H" and ok: "thread_ok n x (H ! t)"
    and acc: "access_of x r = Some (r', x')"
  shows "\<exists>h. make_up n r' (H[t := h]) \<and> thread_ok n x' h"
proof (cases x)
  case (Worker p)
  with acc obtain u k where p: "p = Access u k" "r' = u r" "x' = Worker (k r)" by (cases p) auto
  from counters.access_keeps [OF whole t] ok Worker show ?thesis
    unfolding p by (auto simp: thread_ok_def served_def p simp del: obeys.simps)
next
  case (Stopping p)
  with acc obtain u k where p: "p = Access u k" "r' = u r" "x' = Stopping (k r)" by (cases p) auto
  from counters.access_keeps [OF whole t] ok Stopping show ?thesis
    unfolding p by (auto simp: thread_ok_def p simp del: obeys.simps)
next
  case (Other p)
  with acc obtain u k where p: "p = Access u k" "r' = u r" "x' = Other (k r)" by (cases p) auto
  have h: "H ! t = (\<lambda>_. 0)" and idle: "idle (Access u k) n" using ok Other p by (auto simp: thread_ok_def)
  have "may_find n r (H ! t)" by (rule counters.whole_may [OF whole t])
  with idle h have "may_do n (H ! t) (H ! t) r (u r)" "idle (k r) n" by (auto simp: idle_def still_def)
  with counters.whole_move [OF whole t this(1)] h show ?thesis by (auto simp: thread_ok_def p)
qed

lemma served_ended: "served n (Return w) h \<longleftrightarrow> owns n w h" "served n (Raise (e, w)) h \<longleftrightarrow> owns n w h"
  by (simp_all add: served_def)

lemma takes_up_ok:
  assumes "takes_up r x y" and "thread_ok n x h" and "pool_of n r"
  shows "thread_ok n y h"
  using assms
  by cases (auto simp: thread_ok_def pool_of_def idle_check idle_request
      served_ended owns_network served_event keeping_shutdown simp del: fun_upd_apply)

interpretation interleaved: step_invariant threads_step threads_inv
proof unfold_locales
  fix y z
  assume step: "threads_step y z" and "threads_inv y"
  then obtain H where H: "length H = length (th_all y)" and whole: "make_up (pool_size (th_rt y)) (th_rt y) H"
    and ok: "list_all2 (thread_ok (pool_size (th_rt y))) (th_all y) H"
    by (auto simp: threads_inv_def)
  show "threads_inv z"
    using step
  proof cases
    case (access t r x)
    have "thread_ok (pool_size (th_rt y)) (th_all y ! t) (H ! t)" using ok access(2) by (simp add: list_all2_conv_all_nth)
    with access_ok [OF whole _ _ access(3)] access(2) H obtain h where
      h: "make_up (pool_size (th_rt y)) r (H[t := h])" "thread_ok (pool_size (th_rt y)) x h" by auto
    have "pool_size r = pool_size (th_rt y)" using h(1) by (simp add: make_up_def pool_of_def)
    with h H list_all2_update_cong [OF ok, OF h(2)] show ?thesis
      unfolding access(1) threads_inv_def by (intro exI [of _ "H[t := h]"]) simp
  next
    case (take_up t x)
    have "thread_ok (pool_size (th_rt y)) (th_all y ! t) (H ! t)" using ok take_up(2) by (simp add: list_all2_conv_all_nth)
    from takes_up_ok [OF take_up(3) this] whole have "thread_ok (pool_size (th_rt y)) x (H ! t)"
      by (simp add: make_up_def)
    from list_all2_update_cong [OF ok, OF this, of t] whole H show ?thesis
      unfolding take_up(1) threads_inv_def by (intro exI [of _ H]) simp
  qed
qed

section \<open>What the counters say\<close>

text \<open>The worker of a thread that is not inside a call, as it was left by its last one.\<close>

fun worker_of :: "thread \<Rightarrow> worker option" where
  "worker_of (Worker (Return w)) = Some w"
| "worker_of (Worker (Raise (e, w))) = Some w"
| "worker_of _ = None"

fun in_call :: "thread \<Rightarrow> bool" where
  "in_call (Worker (Access u k)) = True"
| "in_call (Stopping (Access u k)) = True"
| "in_call _ = False"

definition held_on :: "nat \<Rightarrow> thread \<Rightarrow> nat" where
  "held_on i x = (case worker_of x of None \<Rightarrow> 0 | Some w \<Rightarrow> card (clients_on i w))"

text \<open>A process before its threads have begun: nobody is inside a call and the counters agree.\<close>

definition ready :: "threads \<Rightarrow> bool" where
  "ready y \<longleftrightarrow> wf_runtime (th_rt y) \<and> length (th_all y) < 2 ^ 32 \<and>
     (\<forall>x \<in> set (th_all y). (\<exists>w. x = Worker (Return w) \<and> own_inv (pool_size (th_rt y)) w) \<or> (\<exists>k. x = Other (Return k))) \<and>
     (\<forall>i < pool_size (th_rt y). unat (runtime_active (th_rt y) i) = (\<Sum>x\<leftarrow>th_all y. held_on i x))"

lemma thread_share:
  assumes "thread_ok n x h"
  shows "if in_call x then held_on i x = 0 else h i = held_on i x"
proof (cases x)
  case (Worker p)
  with assms show ?thesis
    by (cases p) (auto simp: thread_ok_def held_on_def served_ended owns_def own_load_clients)
next
  case (Stopping p)
  with assms show ?thesis by (cases p) (auto simp: thread_ok_def held_on_def)
next
  case (Other p)
  with assms show ?thesis by (cases p) (auto simp: thread_ok_def held_on_def)
qed

lemma shares_held:
  assumes "list_all2 (thread_ok n) xs H"
  shows "(\<Sum>x\<leftarrow>xs. held_on i x) \<le> (\<Sum>h\<leftarrow>H. h i)"
    and "\<forall>x \<in> set xs. \<not> in_call x \<Longrightarrow> (\<Sum>x\<leftarrow>xs. held_on i x) = (\<Sum>h\<leftarrow>H. h i)"
  using assms
proof (induction xs H rule: list_all2_induct)
  case (Cons x xs h H)
  note share = thread_share [OF Cons.hyps(1), of i]
  { case 1 show ?case using share Cons.IH(1) by (cases "in_call x") simp_all }
  { case 2 then show ?case using share Cons.IH(2) by simp }
qed simp_all

lemma ready_inv:
  assumes "ready y"
  shows "threads_inv y"
proof -
  let ?n = "pool_size (th_rt y)" and ?H = "map (\<lambda>x i. held_on i x) (th_all y)"
  have wf: "wf_runtime (th_rt y)" and few: "length (th_all y) < 2 ^ 32" using assms by (simp_all add: ready_def)
  have ok: "thread_ok ?n x (\<lambda>i. held_on i x) \<and> small (\<lambda>i. held_on i x)" if "x \<in> set (th_all y)" for x
  proof -
    have "(\<exists>w. x = Worker (Return w) \<and> own_inv ?n w) \<or> (\<exists>k. x = Other (Return k))"
      using assms that by (simp add: ready_def)
    then consider w where "x = Worker (Return w)" "own_inv ?n w" | k where "x = Other (Return k)" by blast
    then show ?thesis
    proof cases
      case 1
      have "owns ?n w (\<lambda>i. held_on i x)"
        using 1 wf by (simp add: owns_def held_on_def own_load_clients [abs_def] wf_runtime_def wf_scheduler_def
            pool_size_def backend_count_def)
      with 1 owns_small [OF this] show ?thesis by (simp add: thread_ok_def served_ended)
    qed (simp add: thread_ok_def held_on_def small_def)
  qed
  then have "list_all2 (thread_ok ?n) (th_all y) ?H" by (simp add: list_all2_map2 list_all2_same)
  moreover have "make_up ?n (th_rt y) ?H"
    using assms ok wf few by (auto simp: make_up_def pool_of_def ready_def o_def)
  ultimately show ?thesis unfolding threads_inv_def by (intro exI [of _ ?H]) simp
qed

section \<open>A thread that runs to its end\<close>

text \<open>The thread takes all its accesses while the others wait.\<close>

definition ended :: "'e + 'a \<Rightarrow> ('s, 'e, 'a) prog" where
  "ended x = (case x of Inl e \<Rightarrow> Raise e | Inr a \<Rightarrow> Return a)"

lemma ended_simps [simp]: "ended (Inl e) = Raise e" "ended (Inr a) = Return a"
  by (simp_all add: ended_def)

lemma unchanged: "th_all y ! t = x \<Longrightarrow> y\<lparr>th_all := (th_all y)[t := x]\<rparr> = y"
  by (cases y) (auto simp: list_update_id)

lemma runs_to_end:
  assumes "t < length (th_all y)" and "th_all y ! t = W p"
    and "\<And>u k r. access_of (W (Access u k)) r = Some (u r, W (k r))"
  shows "threads_step\<^sup>*\<^sup>* y (y\<lparr>th_rt := snd (run p (th_rt y)), th_all := (th_all y)[t := W (ended (fst (run p (th_rt y))))]\<rparr>)"
  using assms(1,2)
proof (induction p arbitrary: y)
  case (Access u k)
  let ?y = "y\<lparr>th_rt := u (th_rt y), th_all := (th_all y)[t := W (k (th_rt y))]\<rparr>"
  have "threads_step y ?y" using Access.prems by (intro threads_step.access) (simp_all add: assms(3))
  moreover have "threads_step\<^sup>*\<^sup>* ?y (?y\<lparr>th_rt := snd (run (k (th_rt y)) (th_rt ?y)),
      th_all := (th_all ?y)[t := W (ended (fst (run (k (th_rt y)) (th_rt ?y))))]\<rparr>)"
    by (rule Access.IH) (use Access.prems in simp_all)
  ultimately show ?case by (simp add: converse_rtranclp_into_rtranclp)
qed (simp_all add: unchanged)

text \<open>It ends without an exception, whatever the other threads have done before, and with no peers.\<close>

lemma shutdown_ends:
  assumes inv: "threads_inv y" and t: "t < length (th_all y)" "th_all y ! t = Stopping p"
  shows "\<exists>r v. threads_step\<^sup>*\<^sup>* y (y\<lparr>th_rt := r, th_all := (th_all y)[t := Stopping (Return v)]\<rparr>) \<and>
    w_peers v = Map.empty"
proof -
  let ?x = "Stopping (ended (fst (run p (th_rt y))))"
  let ?y = "y\<lparr>th_rt := snd (run p (th_rt y)), th_all := (th_all y)[t := ?x]\<rparr>"
  have steps: "threads_step\<^sup>*\<^sup>* y ?y" by (rule runs_to_end [where W = Stopping, OF t]) simp
  from interleaved.run_keeps [OF this inv] obtain H where "list_all2 (thread_ok (pool_size (th_rt ?y))) (th_all ?y) H"
    by (auto simp: threads_inv_def)
  then have "thread_ok (pool_size (th_rt ?y)) ?x (H ! t)" using t by (auto simp: list_all2_conv_all_nth)
  then obtain v where "fst (run p (th_rt y)) = Inr v" "w_peers v = Map.empty"
    by (cases "fst (run p (th_rt y))") (auto simp: thread_ok_def)
  with steps show ?thesis by (metis ended_simps(2))
qed

section \<open>Properties\<close>

lemma worker_own:
  assumes "threads_inv y" and "x \<in> set (th_all y)" and "worker_of x = Some w"
  shows "own_inv (pool_size (th_rt y)) w"
proof -
  from assms(1) obtain H where "list_all2 (thread_ok (pool_size (th_rt y))) (th_all y) H" by (auto simp: threads_inv_def)
  with assms(2) obtain h where "thread_ok (pool_size (th_rt y)) x h" by (metis list_all2_conv_all_nth in_set_conv_nth)
  with assms(3) show ?thesis
    by (cases x rule: worker_of.cases) (auto simp: thread_ok_def served_ended owns_def)
qed

lemma held_streams:
  assumes inv: "threads_inv y" and x: "x \<in> set (th_all y)" "worker_of x = Some w" and q: "w_peers w fd = Some q"
  shows "k_rcvd (w_kern w) (p_paired q) = k_sent (w_kern w) fd @ drop (p_sent q) (p_outbound q)"
  using worker_own [OF inv x] q by (simp add: own_inv_def streams_def)

lemma counters_held:
  assumes "threads_inv y" and i: "i < pool_size (th_rt y)"
  shows "(\<Sum>x\<leftarrow>th_all y. held_on i x) \<le> unat (runtime_active (th_rt y) i)"
    and "\<forall>x \<in> set (th_all y). \<not> in_call x \<Longrightarrow>
      unat (runtime_active (th_rt y) i) = (\<Sum>x\<leftarrow>th_all y. held_on i x)"
proof -
  from assms obtain H where "unat (runtime_active (th_rt y) i) = (\<Sum>h\<leftarrow>H. h i)"
    "list_all2 (thread_ok (pool_size (th_rt y))) (th_all y) H"
    by (auto simp: threads_inv_def make_up_def)
  with shares_held [of "pool_size (th_rt y)" "th_all y" H i]
  show "(\<Sum>x\<leftarrow>th_all y. held_on i x) \<le> unat (runtime_active (th_rt y) i)"
    "\<forall>x \<in> set (th_all y). \<not> in_call x \<Longrightarrow>
      unat (runtime_active (th_rt y) i) = (\<Sum>x\<leftarrow>th_all y. held_on i x)" by simp_all
qed

text \<open>
  C2. The connection counters are exact under every interleaving of single accesses. The workers, the
  health thread and the threads of the admin server may be anywhere inside their calls, and each
  access finds what the others have made of the runtime. At every moment the active counter of
  a backend is at least the number of connections that the workers outside a call hold on it, and it
  is equal to this number when no worker is inside a call, be the other threads where they are. And
  whatever the others do, what a worker has written to a descriptor, followed by what waits
  for it, is what it has read from its partner.
\<close>

theorem counters_exact_interleaved:
  assumes "threads_step\<^sup>*\<^sup>* y0 y" and "ready y0" and "i < pool_size (th_rt y)"
  shows "(\<Sum>x\<leftarrow>th_all y. held_on i x) \<le> unat (runtime_active (th_rt y) i) \<and>
    ((\<forall>x \<in> set (th_all y). \<not> in_call x) \<longrightarrow>
      unat (runtime_active (th_rt y) i) = (\<Sum>x\<leftarrow>th_all y. held_on i x)) \<and>
    (x \<in> set (th_all y) \<and> worker_of x = Some w \<and> w_peers w fd = Some q \<longrightarrow>
      k_rcvd (w_kern w) (p_paired q) = k_sent (w_kern w) fd @ drop (p_sent q) (p_outbound q))"
proof -
  have "threads_inv y" using interleaved.run_keeps [OF assms(1) ready_inv [OF assms(2)]] .
  with counters_held [OF this assms(3)] held_streams show ?thesis by blast
qed

text \<open>A worker with a connection on backend 0, a worker without, and the health thread.\<close>

definition sample_threads :: threads where
  "sample_threads = \<lparr>th_rt = pair_runtime,
     th_all = [Worker (Return busy_worker), Worker (Return idle_worker), Other (Return (w_kern idle_worker))]\<rparr>"

lemma sample_held:
  "held_on i (Worker (Return busy_worker)) = (if i = 0 then 1 else 0)" "held_on i (Worker (Return idle_worker)) = 0"
  "held_on i (Other p) = 0"
proof -
  have "clients_on i busy_worker = (if i = 0 then {6} else {})" "clients_on i idle_worker = {}"
    by (auto simp: clients_on_def busy_peers connected_def new_peer_def idle_worker_def split: if_splits)
  then show "held_on i (Worker (Return busy_worker)) = (if i = 0 then 1 else 0)"
    "held_on i (Worker (Return idle_worker)) = 0" "held_on i (Other p) = 0" by (simp_all add: held_on_def)
qed

lemma sample_ready: "ready sample_threads"
proof -
  have own: "\<forall>w \<in> {busy_worker, idle_worker}. own_inv (pool_size pair_runtime) w" and wf: "wf_runtime pair_runtime"
    using sample_process_inv by (auto simp: process_inv_def sample_process_def)
  have "unat (runtime_active pair_runtime i) = (if i = 0 then 1 else 0)" if "i < pool_size pair_runtime" for i
    using process_counts [OF sample_process_inv, of i] that sample_held [of i]
    by (simp add: sample_process_def held_on_def)
  with own wf show ?thesis by (auto simp: ready_def sample_threads_def sample_held)
qed

theorem counters_exact_interleaved_witness:
  "unat (runtime_active (th_rt sample_threads) 0) = (\<Sum>x\<leftarrow>th_all sample_threads. held_on 0 x) \<and>
    (\<Sum>x\<leftarrow>th_all sample_threads. held_on 0 x) = 1"
  using counters_exact_interleaved [OF rtranclp.rtrancl_refl sample_ready, of 0]
  by (simp add: sample_threads_def pair_runtime_size sample_held)

text \<open>
  C8. Shutdown gives every count back, under every interleaving. In each state that the threads
  reach, a worker in its shutdown gets to the end by its own accesses alone, without an exception and
  with no peer left; and when every worker has got there, the active counter of every backend is 0,
  whatever the health thread and the admin server are about to do.
\<close>

theorem shutdown_leaves_zero:
  assumes "threads_step\<^sup>*\<^sup>* y0 y" and "ready y0"
  shows "(t < length (th_all y) \<and> th_all y ! t = Stopping p \<longrightarrow>
      (\<exists>r v. threads_step\<^sup>*\<^sup>* y (y\<lparr>th_rt := r, th_all := (th_all y)[t := Stopping (Return v)]\<rparr>) \<and>
        w_peers v = Map.empty)) \<and>
    ((\<forall>x \<in> set (th_all y). (\<exists>v. x = Stopping (Return v)) \<or> (\<exists>p. x = Other p)) \<longrightarrow>
      (\<forall>i < pool_size (th_rt y). runtime_active (th_rt y) i = 0))"
proof -
  have inv: "threads_inv y" using interleaved.run_keeps [OF assms(1) ready_inv [OF assms(2)]] .
  have "runtime_active (th_rt y) i = 0"
    if all: "\<forall>x \<in> set (th_all y). (\<exists>v. x = Stopping (Return v)) \<or> (\<exists>p. x = Other p)"
      and i: "i < pool_size (th_rt y)" for i
  proof -
    have none: "\<not> in_call x \<and> held_on i x = 0" if "x \<in> set (th_all y)" for x
      using all that by (auto simp: held_on_def)
    then have "(\<Sum>x\<leftarrow>th_all y. held_on i x) = (\<Sum>x\<leftarrow>th_all y. 0)" by (intro arg_cong [of _ _ sum_list] map_cong) auto
    with counters_held(2) [OF inv i] none show ?thesis by (simp add: unat_eq_zero)
  qed
  with shutdown_ends [OF inv] show ?thesis by blast
qed

lemma sample_stops:
  "\<exists>r v v'. threads_step\<^sup>*\<^sup>* sample_threads \<lparr>th_rt = r,
      th_all = [Stopping (Return v), Stopping (Return v'), Other (Return (w_kern idle_worker))]\<rparr>"
proof -
  let ?o = "Other (Return (w_kern idle_worker))"
  let ?y1 = "\<lparr>th_rt = pair_runtime, th_all = [Stopping (shutdown_p busy_worker), Worker (Return idle_worker), ?o]\<rparr>"
  have s1: "threads_step\<^sup>*\<^sup>* sample_threads ?y1"
    using threads_step.take_up [of 0 sample_threads "Stopping (shutdown_p busy_worker)"] takes_up.stop
    by (auto simp: sample_threads_def)
  from shutdown_ends [OF interleaved.run_keeps [OF s1 ready_inv [OF sample_ready]], of 0] obtain r v where
    s2: "threads_step\<^sup>*\<^sup>* ?y1 \<lparr>th_rt = r, th_all = [Stopping (Return v), Worker (Return idle_worker), ?o]\<rparr>" by auto
  let ?y3 = "\<lparr>th_rt = r, th_all = [Stopping (Return v), Stopping (shutdown_p idle_worker), ?o]\<rparr>"
  have s3: "threads_step\<^sup>*\<^sup>* \<lparr>th_rt = r, th_all = [Stopping (Return v), Worker (Return idle_worker), ?o]\<rparr> ?y3"
    using threads_step.take_up [of 1 "\<lparr>th_rt = r, th_all = [Stopping (Return v), Worker (Return idle_worker), ?o]\<rparr>"
        "Stopping (shutdown_p idle_worker)"] takes_up.stop
    by auto
  note s13 = rtranclp_trans [OF rtranclp_trans [OF s1 s2] s3]
  from shutdown_ends [OF interleaved.run_keeps [OF s13 ready_inv [OF sample_ready]], of 1] obtain r' v' where
    "threads_step\<^sup>*\<^sup>* ?y3 \<lparr>th_rt = r', th_all = [Stopping (Return v), Stopping (Return v'), ?o]\<rparr>" by auto
  with s13 show ?thesis by (meson rtranclp_trans)
qed

theorem shutdown_leaves_zero_witness:
  "\<exists>y. threads_step\<^sup>*\<^sup>* sample_threads y \<and> unat (runtime_active (th_rt sample_threads) 0) = 1 \<and>
    (\<forall>i < pool_size (th_rt y). runtime_active (th_rt y) i = 0)"
proof -
  from sample_stops obtain r v v' where run: "threads_step\<^sup>*\<^sup>* sample_threads \<lparr>th_rt = r,
      th_all = [Stopping (Return v), Stopping (Return v'), Other (Return (w_kern idle_worker))]\<rparr>" by blast
  have "unat (runtime_active (th_rt sample_threads) 0) = 1"
    using counters_held(2) [OF ready_inv [OF sample_ready], of 0]
    by (simp add: sample_threads_def pair_runtime_size sample_held)
  moreover have "\<forall>i < pool_size r. runtime_active r i = 0"
    using conjunct2 [OF shutdown_leaves_zero [OF run sample_ready]] by simp
  ultimately show ?thesis using run by (metis threads.select_convs(1))
qed

section \<open>A worker that fails\<close>

lemma failed_stays:
  assumes "threads_step\<^sup>*\<^sup>* y z" and "t < length (th_all y)" and "th_all y ! t = Worker (Raise x)"
  shows "t < length (th_all z) \<and> th_all z ! t = Worker (Raise x)"
  using assms(1)
proof (induction rule: rtranclp_induct)
  case (step z z')
  from step.hyps(2) show ?case
  proof cases
    case (access s r w)
    with step.IH show ?thesis by (cases "s = t") auto
  next
    case (take_up s w)
    with step.IH show ?thesis by (cases "s = t") (auto elim: takes_up.cases)
  qed
qed (use assms(2,3) in simp)

lemma held_member: "x \<in> set xs \<Longrightarrow> held_on i x \<le> (\<Sum>x\<leftarrow>xs. held_on i x)"
  by (induction xs) auto

text \<open>
  C9. A worker that throws is lost, with all that it holds. When an exception leaves the handling of an
  event, the thread logs it and ends. From then on, whatever the other threads do: its listener,
  which shares the address with the listeners of the other workers, stays open though nobody accepts
  from it any more; the descriptors of its connections stay open though nobody serves them; and the
  active counter of each backend never falls below the number of its connections there.
\<close>

theorem failed_worker_leaks:
  assumes "threads_step\<^sup>*\<^sup>* y0 y" and "ready y0"
    and "t < length (th_all y)" and "th_all y ! t = Worker (Raise (e, w))"
    and "threads_step\<^sup>*\<^sup>* y z" and "i < pool_size (th_rt z)"
  shows "th_all z ! t = Worker (Raise (e, w)) \<and> w_listener w \<in> k_open (w_kern w) \<and>
    dom (w_peers w) \<subseteq> k_open (w_kern w) \<and> card (clients_on i w) \<le> unat (runtime_active (th_rt z) i)"
proof -
  have inv: "threads_inv z"
    using interleaved.run_keeps [OF rtranclp_trans [OF assms(1,5)] ready_inv [OF assms(2)]] .
  have t: "t < length (th_all z)" "th_all z ! t = Worker (Raise (e, w))" using failed_stays [OF assms(5,3,4)] by blast+
  then have x: "Worker (Raise (e, w)) \<in> set (th_all z)" by (metis nth_mem)
  have "own_inv (pool_size (th_rt z)) w" by (rule worker_own [OF inv x]) simp
  moreover have "card (clients_on i w) \<le> (\<Sum>x\<leftarrow>th_all z. held_on i x)"
    using held_member [OF x, of i] by (simp add: held_on_def)
  ultimately show ?thesis
    using counters_held(1) [OF inv assms(6)] t(2) by (auto simp: own_inv_def fixed_fds_def)
qed

text \<open>
  A worker with a connection on backend 0 accepts a client while the resolver fails: the exception of
  the lookup ends the thread.
\<close>

definition failing_worker :: worker where
  "failing_worker = busy_worker\<lparr>w_kern := (w_kern busy_worker)\<lparr>k_accepts := [AClient], k_getaddrinfo := \<lambda>_ _ _. Inl ''try again''\<rparr>\<rparr>"

definition failing_threads :: threads where
  "failing_threads = \<lparr>th_rt = pair_runtime, th_all = [Worker (Return failing_worker)]\<rparr>"

lemma pair_select:
  "\<exists>b. select (\<lambda>_. 0) (r_sched pair_runtime) = (Some b, r_sched pair_runtime)"
  by (simp add: pair_runtime_def runtime_eval select_def drawn_def routable_def state_at_def checked_get_def
      numeral_2_eq_2 selected_at_def)

lemma failing_kern:
  "k_accepts (w_kern failing_worker) = [AClient]" "k_limit (w_kern failing_worker) = 1024"
  "k_open (w_kern failing_worker) = {3, 4, 5, 6, 7}" "k_draw (w_kern failing_worker) = (\<lambda>_ _. 0)"
  "k_getaddrinfo (w_kern failing_worker) = (\<lambda>_ _ _. Inl ''try again'')"
  "w_listener failing_worker = 3" "w_peers failing_worker = w_peers busy_worker"
  by (simp_all add: failing_worker_def busy_worker_def connecting_worker_def new_pair_def emplace_def put_peer_def
      idle_worker_def sample_kern_def)

lemma failing_accepts:
  "\<exists>e w. accept_clients (failing_worker\<lparr>w_rt := pair_runtime\<rparr>) = Throw e w \<and>
    w_peers w = w_peers busy_worker \<and> w_rt w = pair_runtime"
proof -
  obtain b where sel: "select (\<lambda>_. 0) (r_sched pair_runtime) = (Some b, r_sched pair_runtime)" using pair_select by blast
  show ?thesis
    by (simp add: accept_clients.simps [of "failing_worker\<lparr>w_rt := pair_runtime\<rparr>"] sys_accept_def failing_kern
        table_full_def sys_open_def Let_def attach_backend_def sel on_kern_def tick_def connect_backend_def
        resolve_endpoint_def)
qed

lemma failing_ready: "ready failing_threads"
proof -
  have own: "own_inv (pool_size pair_runtime) busy_worker" and wf: "wf_runtime pair_runtime"
    using sample_process_inv by (auto simp: process_inv_def sample_process_def)
  then have "own_inv (pool_size pair_runtime) failing_worker"
    by (simp add: own_inv_def failing_worker_def kern_ok_def fixed_fds_def streams_def)
  moreover have "held_on i (Worker (Return failing_worker)) = held_on i (Worker (Return busy_worker))" for i
    by (simp add: held_on_def clients_on_def failing_kern)
  moreover have "unat (runtime_active pair_runtime i) = (if i = 0 then 1 else 0)" if "i < pool_size pair_runtime" for i
    using process_counts [OF sample_process_inv, of i] that sample_held [of i]
    by (simp add: sample_process_def held_on_def)
  ultimately show ?thesis using wf by (simp add: ready_def failing_threads_def sample_held)
qed

lemma failing_run:
  "\<exists>y e w. threads_step\<^sup>*\<^sup>* failing_threads y \<and> th_rt y = pair_runtime \<and>
    th_all y = [Worker (Raise (e, w))] \<and> w_peers w = w_peers busy_worker"
proof -
  let ?p = "handle_event_p (3, 0) failing_worker"
  let ?y = "\<lparr>th_rt = pair_runtime, th_all = [Worker ?p]\<rparr>"
  have first: "threads_step failing_threads ?y"
    using threads_step.take_up [of 0 failing_threads "Worker ?p"] takes_up.event by (simp add: failing_threads_def)
  from failing_accepts obtain e w where
    "alone (accept_clients_p failing_worker) pair_runtime = Throw e w" "w_peers w = w_peers busy_worker" "w_rt w = pair_runtime"
    unfolding alone_accept by blast
  moreover have "?p = accept_clients_p failing_worker" by (simp add: handle_event_p_def failing_kern)
  ultimately obtain v where v: "run ?p pair_runtime = (Inl (e, v), pair_runtime)" "w_peers v = w_peers busy_worker"
    by (cases "run (accept_clients_p failing_worker) pair_runtime") (auto simp: alone_def at_end_def split: sum.splits)
  have "threads_step\<^sup>*\<^sup>* ?y (?y\<lparr>th_rt := snd (run ?p (th_rt ?y)),
      th_all := (th_all ?y)[0 := Worker (ended (fst (run ?p (th_rt ?y))))]\<rparr>)"
    by (rule runs_to_end [where W = Worker]) simp_all
  then have "threads_step\<^sup>*\<^sup>* ?y \<lparr>th_rt = pair_runtime, th_all = [Worker (Raise (e, v))]\<rparr>" by (simp add: v(1))
  from converse_rtranclp_into_rtranclp [OF first this] v(2) show ?thesis by fastforce
qed

theorem failed_worker_leaks_witness:
  "\<exists>y e w. threads_step\<^sup>*\<^sup>* failing_threads y \<and> th_all y = [Worker (Raise (e, w))] \<and>
    w_listener w \<in> k_open (w_kern w) \<and> 1 \<le> unat (runtime_active (th_rt y) 0)"
proof -
  from failing_run obtain y e w where y: "threads_step\<^sup>*\<^sup>* failing_threads y" "th_rt y = pair_runtime"
    "th_all y = [Worker (Raise (e, w))]" "w_peers w = w_peers busy_worker" by blast
  have "clients_on 0 w = clients_on 0 busy_worker" using y(4) by (simp add: clients_on_def)
  with sample_held(1) [of 0] have "card (clients_on 0 w) = 1" by (simp add: held_on_def)
  with failed_worker_leaks [OF y(1) failing_ready, of 0 e w y 0] y show ?thesis
    by (auto simp: pair_runtime_size)
qed

end
