(* ===== verification/LB_Inflight.thy ===== *)
theory LB_Inflight
  imports LB_System
begin

text \<open>
  Draining at the granularity of single accesses. A worker that has seen a backend up may still
  connect to it after the request to drain it has been answered; here is how often that can happen.
  A thread holds as its share the number of connections it may still record for the backend \<open>i\<close>
  while nobody brings it back up.
\<close>

section \<open>Accesses that record no connection\<close>

text \<open>
  The policies whose selection returns only a backend that was seen up; \<open>LB_Races\<close> shows that
  power-of-two-choices does not.
\<close>

definition single_look :: "runtime \<Rightarrow> bool" where
  "single_look r \<longleftrightarrow> s_policy (r_sched r) \<noteq> PowerOfTwoChoices \<or> length (s_backends (r_sched r)) \<le> 1"

definition recorded :: "nat \<Rightarrow> runtime \<Rightarrow> u64" where
  "recorded i r = s_total (r_sched r) ! i"

definition as_before :: "nat \<Rightarrow> runtime \<Rightarrow> runtime \<Rightarrow> bool" where
  "as_before i r r' \<longleftrightarrow> single_look r' = single_look r \<and> recorded i r' = recorded i r"

definition neutral :: "nat \<Rightarrow> (runtime, 'e, 'a) prog \<Rightarrow> bool" where
  "neutral i p \<longleftrightarrow> obeys (\<lambda>_ _. True) (\<lambda>_ _. as_before i) (\<lambda>_ _. True) p ()"

lemma neutral_simps [simp]:
  "neutral i (Return a)" "neutral i (Raise e)"
  "neutral i (Access u k) \<longleftrightarrow> (\<forall>r. as_before i r (u r) \<and> neutral i (k r))"
  by (simp_all add: neutral_def)

lemma neutral_bind_results:
  assumes "neutral i p" and "\<And>a. a \<in> results p \<Longrightarrow> neutral i (f a)"
  shows "neutral i (bind_prog p f)"
  unfolding neutral_def
  by (rule obeys_bind, rule obeys_mono [OF obeys_results [OF assms(1) [unfolded neutral_def]]])
    (use assms(2) in \<open>auto simp: neutral_def split: sum.split\<close>)

lemma neutral_bind: "neutral i p \<Longrightarrow> (\<And>a. neutral i (f a)) \<Longrightarrow> neutral i (bind_prog p f)"
  by (rule neutral_bind_results)

lemma neutral_map: "neutral i p \<Longrightarrow> neutral i (map_prog g f p)"
  by (simp add: neutral_def obeys_map)

lemma neutral_fetch [simp]: "neutral i (fetch f)"
  by (simp add: fetch_def as_before_def)

lemma neutral_modify: "(\<And>r. as_before i r (u r)) \<Longrightarrow> neutral i (modify u)"
  by (simp add: modify_def)

lemma neutral_checked: "neutral i p \<Longrightarrow> neutral i (checked len j p)"
  unfolding checked_def by (rule neutral_bind) simp_all

lemma as_before_metrics [simp]:
  "as_before i r (on_metrics f r)" "as_before i r (r\<lparr>r_backends := bs\<rparr>)"
  by (simp_all add: as_before_def single_look_def recorded_def on_metrics_def)

lemma as_before_sched:
  "s_policy (f (r_sched r)) = s_policy (r_sched r) \<Longrightarrow> s_backends (f (r_sched r)) = s_backends (r_sched r) \<Longrightarrow>
    s_total (f (r_sched r)) ! i = s_total (r_sched r) ! i \<Longrightarrow> as_before i r (on_sched f r)"
  by (simp add: as_before_def single_look_def recorded_def on_sched_def)

lemmas neutral_intros = neutral_bind neutral_checked neutral_modify as_before_metrics as_before_sched

lemma neutral_state:
  "neutral i (mark_failure_p j)" "neutral i (state_p j)" "neutral i (consecutive_failures_p j)"
  "neutral i (endpoint_p j)" "neutral i (set_state_p j st)" "neutral i (mark_closed_p j)"
  unfolding runtime_p_defs by (intro neutral_intros neutral_fetch; simp)+

lemma neutral_healthy: "neutral i (mark_healthy_p j)"
  unfolding mark_healthy_p_def by (intro neutral_intros neutral_state) (simp_all add: neutral_state)

lemma neutral_records:
  "neutral i (record_backend_failure_p j)" "neutral i (record_connect_latency_p j l)"
  "neutral i (set_backend_state_p j st)" "neutral i (record_bytes_p b j m)" "neutral i (eject_p j)"
  "neutral i (record_connection_close_p j)"
  unfolding record_backend_failure_p_def record_connect_latency_p_def set_backend_state_p_def eject_p_def
    record_bytes_p_def record_bytes_from_backend_p_def record_bytes_from_client_p_def backend_p_def
    record_connection_close_p_def
  by (auto intro!: neutral_intros neutral_state neutral_fetch)

lemma neutral_open: "j \<noteq> i \<Longrightarrow> neutral i (record_connection_open_p j)"
  unfolding record_connection_open_p_def mark_open_p_def fetch_modify_def
  by (intro neutral_intros) (simp_all add: neutral_modify as_before_sched)

lemma neutral_report: "neutral i (health_report_p j ok l)"
  by (simp add: health_report_p_def neutral_bind neutral_records neutral_healthy)

lemma neutral_kern: "neutral i p \<Longrightarrow> neutral i (with_kern k p)"
  unfolding with_kern_def by (rule neutral_map)

lemma neutral_check: "neutral i (health_check_p j k)"
proof -
  have report: "neutral i (bind_prog (with_kern k1 (health_report_p j ok l)) (\<lambda>_. Return k1))" for ok l k1
    by (intro neutral_bind neutral_kern neutral_report) simp
  have probe: "neutral i (case tcp_probe e t k of
      (Inl ex, k1) \<Rightarrow> Raise (ex, k1)
    | (Inr (ok, l), k1) \<Rightarrow> bind_prog (with_kern k1 (health_report_p j ok (case l of None \<Rightarrow> 0 | Some x \<Rightarrow> x))) (\<lambda>_. Return k1))" for e t
    using report by (auto split: prod.split sum.split)
  show ?thesis
    unfolding health_check_p_def
    by (rule neutral_bind [OF neutral_kern [OF neutral_state(2)]], split if_split, intro conjI impI, simp,
        intro neutral_bind neutral_kern neutral_state neutral_fetch probe)
qed

lemma neutral_request: "neutral i (request_p j st k)"
  unfolding request_p_def by (intro neutral_bind neutral_kern neutral_records) simp

section \<open>The worker's steps that record no connection\<close>

lemma neutral_lift: "neutral i p \<Longrightarrow> neutral i (lift_p w p)"
  unfolding lift_p_def by (rule neutral_map)

lemma neutral_on_rt: "neutral i p \<Longrightarrow> neutral i (on_rt_p p w)"
  unfolding on_rt_p_def by (intro neutral_bind neutral_lift) simp_all

lemma neutral_config [simp]: "neutral i (config_p f)"
  by (simp add: config_p_def)

lemma neutral_own [simp]: "neutral i (own_p out)"
  by (cases out) (simp_all add: own_p_def)

lemma neutral_eject: "neutral i (maybe_eject_p j w)"
  unfolding maybe_eject_p_def by (intro neutral_on_rt neutral_records)

lemma neutral_close_pair: "neutral i (close_pair_p fd b w)"
proof -
  have "neutral i (bind_prog (on_rt_p (record_connection_close_p j) v) (\<lambda>w.
      if b then bind_prog (on_rt_p (record_backend_failure_p j) w) (maybe_eject_p j) else Return w))" for j v
    by (rule neutral_bind [OF neutral_on_rt [OF neutral_records(6)]])
      (simp add: neutral_bind neutral_on_rt neutral_records neutral_eject)
  then show ?thesis by (simp add: close_pair_p_def split: option.split)
qed

lemma neutral_flush: "neutral i (flush_p fd w)"
proof (induction fd w rule: flush_p.induct)
  case (1 fd w)
  show ?case
  proof (cases "w_peers w fd")
    case (Some p)
    obtain r k where wr: "sys_write fd (drop (p_sent p) (p_outbound p)) (w_kern w) = (r, k)" by fastforce
    note IH = "1.IH" [OF Some _ wr [symmetric]]
    show ?thesis
    proof (cases "p_connecting p \<or> p_sent p \<ge> length (p_outbound p)")
      case True
      with Some show ?thesis by (simp add: flush_p.simps [of fd w])
    next
      case False
      with Some wr IH neutral_close_pair show ?thesis
        by (cases r) (simp_all add: flush_p.simps [of fd w] Let_def)
    qed
  qed (simp add: flush_p.simps [of fd w])
qed

lemma neutral_deliver: "neutral i (deliver_p fd bs source paired w)"
  unfolding deliver_p_def Let_def
  by (intro neutral_bind neutral_on_rt neutral_records neutral_flush) simp

lemma neutral_read: "neutral i (read_available_p fd w)"
proof (induction fd w rule: read_available_p.induct)
  case (1 fd w)
  show ?case
  proof (cases "w_peers w fd")
    case (Some p)
    obtain r k where rd: "sys_read fd (w_kern w) = (r, k)" by fastforce
    show ?thesis
    proof (cases r)
      case (RData bs)
      let ?source = "p\<lparr>p_last := clock_now k\<rparr>"
      let ?w1 = "put_peer fd ?source (w\<lparr>w_kern := tick k\<rparr>)"
      have "neutral i (bind_prog (deliver_p fd bs ?source q ?w1) (\<lambda>w2.
          if outbound_full (p_paired ?source) w2 then Return w2 else read_available_p fd w2))"
        if "bs \<noteq> []" "w_peers ?w1 (p_paired ?source) = Some q" for q
      proof (rule neutral_bind_results [OF neutral_deliver])
        fix w2
        assume "w2 \<in> results (deliver_p fd bs ?source q ?w1)"
        with "1.IH"(1) [OF Some rd [symmetric] RData that(1) refl refl that(2)]
        show "neutral i (if outbound_full (p_paired ?source) w2 then Return w2 else read_available_p fd w2)" by simp
      qed
      with Some rd RData neutral_close_pair show ?thesis
        by (auto simp: read_available_p.simps [of fd w] Let_def split: option.split)
    qed (use Some rd neutral_close_pair "1.IH"(2) [OF Some rd [symmetric]]
        in \<open>simp_all add: read_available_p.simps [of fd w]\<close>)
  qed (simp add: read_available_p.simps [of fd w])
qed

lemma neutral_finish: "neutral i (finish_connect_p fd w)"
  unfolding finish_connect_p_def Let_def
  by (auto split: option.split
      intro!: neutral_close_pair neutral_bind neutral_on_rt neutral_records neutral_healthy neutral_flush)

lemma neutral_counters: "neutral i (modify count_connect_timeout)" "neutral i (modify count_idle_timeout)"
  by (rule neutral_modify,
    simp add: as_before_def single_look_def recorded_def count_connect_timeout_def count_idle_timeout_def)+

lemma neutral_expired: "neutral i (close_expired_p es w)"
  by (induction es arbitrary: w) (auto intro!: neutral_bind neutral_on_rt neutral_counters neutral_close_pair)

lemma neutral_reap: "neutral i (reap_timeouts_p w)"
  unfolding reap_timeouts_p_def Let_def by (intro neutral_bind neutral_config neutral_expired)

lemma neutral_close_all: "neutral i (close_all_p fds w)"
  by (induction fds arbitrary: w) (auto intro!: neutral_bind neutral_close_pair)

lemma neutral_shutdown: "neutral i (shutdown_p w)"
  unfolding shutdown_p_def by (intro neutral_bind neutral_close_all) simp

section \<open>The connections that a thread may still record\<close>

definition credited :: "nat \<Rightarrow> nat \<Rightarrow> nat \<Rightarrow> runtime \<Rightarrow> runtime \<Rightarrow> bool" where
  "credited i c c' r r' \<longleftrightarrow> single_look r' = single_look r \<and>
     (\<exists>m. recorded i r' = recorded i r + of_nat m \<and>
        (m + c' \<le> c \<or> routable (r_sched r) i \<and> m = 0 \<and> c' \<le> 1))"

abbreviation spending :: "nat \<Rightarrow> ('e + 'a \<Rightarrow> nat \<Rightarrow> bool) \<Rightarrow> (runtime, 'e, 'a) prog \<Rightarrow> nat \<Rightarrow> bool" where
  "spending i \<equiv> obeys (\<lambda>r c. single_look r) (credited i)"

definition spends :: "nat \<Rightarrow> (runtime, 'e, 'a) prog \<Rightarrow> bool" where
  "spends i p \<longleftrightarrow> (\<forall>c \<le> 1. spending i (\<lambda>_ c. c \<le> 1) p c)"

lemma credited_same: "as_before i r r' \<Longrightarrow> credited i c c r r'"
  by (auto simp: credited_def as_before_def intro: exI [of _ 0])

lemma neutral_spending: "neutral i p \<Longrightarrow> (\<And>x. Q x c) \<Longrightarrow> spending i Q p c"
proof (induction p)
  case (Access u k)
  have "credited i c c r (u r) \<and> spending i Q (k r) c" for r
    using Access.IH [OF rangeI, of r] Access.prems by (simp add: credited_same)
  then show ?case by auto
qed simp_all

lemma neutral_spends: "neutral i p \<Longrightarrow> spends i p"
  by (simp add: spends_def neutral_spending)

lemma spending_bind:
  "spending i (\<lambda>x c. case x of Inl e \<Rightarrow> Q (Inl e) c | Inr a \<Rightarrow> spending i Q (f a) c) p c \<Longrightarrow>
    spending i Q (bind_prog p f) c"
  by (rule obeys_bind)

lemma spends_bind_results:
  assumes "spends i p" and "\<And>a. a \<in> results p \<Longrightarrow> spends i (f a)"
  shows "spends i (bind_prog p f)"
  unfolding spends_def
proof (intro allI impI)
  fix c :: nat
  assume "c \<le> 1"
  with assms(1) have "spending i (\<lambda>_ c. c \<le> 1) p c" by (simp add: spends_def)
  from obeys_results [OF this] show "spending i (\<lambda>_ c. c \<le> 1) (bind_prog p f) c"
    by (intro spending_bind, elim obeys_mono) (use assms(2) in \<open>auto simp: spends_def split: sum.split\<close>)
qed

lemma spends_bind: "spends i p \<Longrightarrow> (\<And>a. spends i (f a)) \<Longrightarrow> spends i (bind_prog p f)"
  by (rule spends_bind_results)

text \<open>A scan has the credit for the backend that it returns: it has seen it up.\<close>

definition wants :: "nat \<Rightarrow> 'e + nat option \<Rightarrow> nat \<Rightarrow> bool" where
  "wants i x c \<longleftrightarrow> c \<le> 1 \<and> (x = Inr (Some i) \<longrightarrow> c = 1)"

lemma credited_look: "c \<le> 1 \<Longrightarrow> credited i c (if j = i \<and> routable (r_sched r) j then 1 else c) r r"
  by (auto simp: credited_def intro: exI [of _ 0])

lemma spending_look:
  assumes "c \<le> 1" and "\<And>up. spending i Q (f up) (if j = i \<and> up then 1 else c)"
  shows "spending i Q (bind_prog (routable_p j) f) c"
  using credited_look [OF assms(1), of i j] assms(2) by (auto simp: routable_p_def fetch_def simp del: if_split)

lemma spending_rr: "c \<le> 1 \<Longrightarrow> spending i (wants i) (rr_p n start ks) c"
proof (induction ks arbitrary: c)
  case (Cons k ks)
  then show ?case
    unfolding rr_p.simps Let_def by (intro spending_look) (auto simp: wants_def)
qed (simp add: wants_def)

lemma spending_neutral_bind:
  assumes "neutral i p" and "\<And>a. spending i Q (f a) c" and "\<And>e. Q (Inl e) c"
  shows "spending i Q (bind_prog p f) c"
  by (rule spending_bind, rule neutral_spending [OF assms(1)]) (use assms(2,3) in \<open>simp split: sum.split\<close>)

lemma neutral_active [simp]: "neutral i (active_p j)"
  by (simp add: active_p_def)

lemma spending_lc:
  "c \<le> 1 \<Longrightarrow> selected = Some i \<longrightarrow> c = 1 \<Longrightarrow> spending i (wants i) (lc_p is selected) c"
proof (induction "is" arbitrary: selected c)
  case (Cons j "is")
  show ?case
    unfolding lc_p.simps
  proof (rule spending_look [OF Cons.prems(1)])
    fix up
    obtain d where d: "(if j = i \<and> up then 1 else c) = d" by simp
    have c: "d \<le> 1" using Cons.prems(1) d by auto
    have scan: "spending i (wants i) (lc_p is s) d" if "s = selected \<or> up \<and> s = Some j" for s
      by (rule Cons.IH [OF c]) (use that Cons.prems(2) d in auto)
    have err: "wants i (Inl e) d" for e :: exn using c by (auto simp: wants_def)
    have compare: "spending i (wants i) (bind_prog (active_p j) (\<lambda>a. bind_prog (active_p l) (\<lambda>b.
        lc_p is (if a < b then Some j else selected)))) d" if up for l
      by (rule spending_neutral_bind [OF neutral_active], rule spending_neutral_bind [OF neutral_active],
          rule scan, use that in simp, rule err, rule err)
    show "spending i (wants i) (if \<not> up then lc_p is selected
        else case selected of None \<Rightarrow> lc_p is (Some j)
          | Some l \<Rightarrow> bind_prog (active_p j) (\<lambda>a. bind_prog (active_p l) (\<lambda>b.
              lc_p is (if a < b then Some j else selected)))) (if j = i \<and> up then 1 else c)"
      unfolding d using scan compare by (auto split: option.split)
  qed
qed (simp add: wants_def)

definition claims :: "nat \<Rightarrow> 'e + selected_backend option \<Rightarrow> nat \<Rightarrow> bool" where
  "claims i x c \<longleftrightarrow> c \<le> 1 \<and> (\<forall>b. x = Inr (Some b) \<and> sel_index b = i \<longrightarrow> c = 1)"

lemma spending_chosen:
  assumes "spending i (wants i) p c"
  shows "spending i (claims i) (bind_prog p (\<lambda>x. Return (map_option (\<lambda>j. \<lparr>sel_index = j, sel_endpoint = bs ! j\<rparr>) x))) c"
  by (rule spending_bind, rule obeys_mono [OF assms]) (auto simp: wants_def claims_def split: sum.split)

lemma spending_fetch:
  "(\<And>r. single_look r \<Longrightarrow> spending i Q (f (g r)) c) \<Longrightarrow> spending i Q (bind_prog (fetch g) f) c"
  using credited_same [of i r r for r] by (auto simp: fetch_def as_before_def)

lemma spending_select:
  assumes "c \<le> 1"
  shows "spending i (claims i) (select_p draw) c"
proof -
  let ?k = "\<lambda>(backends, policy, size). let chosen = (\<lambda>i. \<lparr>sel_index = i, sel_endpoint = backends ! i\<rparr>) in
     if backends = [] then Return None
     else if policy = RoundRobin then
       bind_prog (fetch_modify (\<lambda>r. s_next (r_sched r)) (on_sched (\<lambda>s. s\<lparr>s_next := s_next s + 1\<rparr>))) (\<lambda>start.
       bind_prog (rr_p (length backends) start [0..<length backends]) (\<lambda>i. Return (map_option chosen i)))
     else
       bind_prog (if policy = PowerOfTwoChoices \<and> length backends > 1
           then p2c_p (\<lambda>k. draw k mod length backends) 0 (length backends * 2) else Return None) (\<lambda>pick.
       case pick of
         Some i \<Rightarrow> Return (Some (chosen i))
       | None \<Rightarrow> bind_prog (lc_p [0..<size] None) (\<lambda>i. Return (map_option chosen i)))"
  have rotate: "neutral i (fetch_modify (\<lambda>r. s_next (r_sched r)) (on_sched (\<lambda>s. s\<lparr>s_next := s_next s + 1\<rparr>)))"
    by (simp add: fetch_modify_def as_before_sched)
  have rest: "spending i (claims i) (?k (bs, pol, sz)) c" if "pol \<noteq> PowerOfTwoChoices \<or> length bs \<le> 1" for bs pol sz
    using that assms
    by (auto simp: Let_def claims_def intro!: spending_neutral_bind [OF rotate] spending_chosen spending_rr spending_lc)
  show ?thesis
    unfolding select_p_def
    by (rule spending_fetch, rule rest) (simp add: single_look_def)
qed

lemma credited_open:
  "credited i 1 0 r (on_sched (\<lambda>s. s\<lparr>s_total := (s_total s)[i := s_total s ! i + 1]\<rparr>) r)"
proof (cases "i < length (s_total (r_sched r))")
  case True
  then show ?thesis
    by (simp add: credited_def single_look_def recorded_def on_sched_def) (rule exI [of _ 1], simp)
next
  case False
  then have "as_before i r (on_sched (\<lambda>s. s\<lparr>s_total := (s_total s)[i := s_total s ! i + 1]\<rparr>) r)"
    by (simp add: as_before_def single_look_def recorded_def on_sched_def not_less list_update_beyond)
  then show ?thesis by (auto simp: credited_def as_before_def intro: exI [of _ 0])
qed

lemma spending_open: "spending i (\<lambda>_ c. c \<le> 1) (record_connection_open_p i) 1"
proof -
  have count: "spending i (\<lambda>x c. c = 0) (modify (on_sched (\<lambda>s. s\<lparr>s_total := (s_total s)[i := s_total s ! i + 1]\<rparr>)) :: unit access) 1"
    using credited_open [of i] by (auto simp: modify_def)
  have active: "neutral i (modify (on_sched (\<lambda>s. s\<lparr>s_active := (s_active s)[i := s_active s ! i + 1]\<rparr>)) :: unit access)"
    by (intro neutral_intros) simp_all
  have len: "neutral i (fetch (\<lambda>r. length (s_active (r_sched r))) :: nat access)" by simp
  have mark: "spending i (\<lambda>_ c. c \<le> 1) (mark_open_p i) 1"
    unfolding mark_open_p_def checked_def
    by (rule spending_neutral_bind [OF len], split if_split, intro conjI impI, simp,
        rule spending_neutral_bind [OF active], rule obeys_mono [OF count]) simp_all
  have metrics: "neutral i (bind_prog (fetch_modify f (on_metrics g)) (\<lambda>a. bind_prog (modify (on_metrics g2)) (\<lambda>_.
      modify (on_metrics (g3 a))) :: unit access))" for f :: "runtime \<Rightarrow> u64" and g g2 g3
    unfolding fetch_modify_def by (auto intro!: neutral_intros)
  show ?thesis
    unfolding record_connection_open_p_def
    by (rule spending_bind, rule obeys_mono [OF mark]) (auto split: sum.split intro!: neutral_spending metrics)
qed

lemma spends_map: "spends i p \<Longrightarrow> spends i (map_prog g f p)"
  by (simp add: spends_def obeys_map)

lemma spending_on_rt: "spending i (\<lambda>_ c. c \<le> 1) p c \<Longrightarrow> spending i (\<lambda>_ c. c \<le> 1) (on_rt_p p w) c"
  unfolding on_rt_p_def lift_p_def
  by (rule spending_bind) (auto simp: obeys_map split: sum.split elim!: obeys_mono)

lemma spending_attached:
  assumes "c \<le> 1" and credit: "\<forall>b. sel = Some b \<and> sel_index b = i \<longrightarrow> c = 1"
  shows "spending i (\<lambda>_ c. c \<le> 1) (attached_p fd sel w) c"
proof (cases sel)
  case (Some b)
  have reject: "neutral i (bind_prog (on_rt_p (record_backend_failure_p j) v) (\<lambda>w.
      bind_prog (maybe_eject_p j w) (\<lambda>w. Return (on_kern (sys_close fd) w))))" for j v
    by (rule neutral_bind [OF neutral_on_rt [OF neutral_records(1)]], rule neutral_bind [OF neutral_eject]) simp
  have opens: "spending i (\<lambda>_ c. c \<le> 1) (on_rt_p (record_connection_open_p (sel_index b)) v) c" for v
  proof (cases "sel_index b = i")
    case True
    with credit Some have "c = 1" by simp
    with True spending_on_rt [OF spending_open [of i], of v] show ?thesis by simp
  next
    case False
    with assms(1) show ?thesis by (intro neutral_spending neutral_on_rt neutral_open)
  qed
  have new: "spending i (\<lambda>_ c. c \<le> 1) (bind_prog (config_p f) (\<lambda>x.
      bind_prog (on_rt_p (record_connection_open_p (sel_index b)) v) (\<lambda>w.
      bind_prog (own_p (A x w)) (\<lambda>w. own_p (B x w))))) c" for f :: "app_config \<Rightarrow> u32" and v A B
    by (rule spending_neutral_bind [OF neutral_config], rule spending_bind, rule obeys_mono [OF opens])
      (use assms(1) in \<open>auto split: sum.split intro!: neutral_spending neutral_bind\<close>)
  show ?thesis
    using neutral_spending [OF reject, of "\<lambda>_ c. c \<le> 1"] new assms(1)
    by (auto simp: attached_p_def Some Let_def split: sum.split option.split prod.split)
qed (use assms(1) in \<open>simp add: attached_p_def\<close>)

lemma spends_attach: "spends i (attach_backend_p fd w)"
  unfolding spends_def attach_backend_p_def lift_p_def
proof (intro allI impI)
  fix c :: nat
  assume c: "c \<le> 1"
  let ?draw = "k_draw (w_kern w) (k_calls (w_kern w))"
  have "spending i (\<lambda>x c. c \<le> 1 \<and> (\<forall>sel. x = Inr sel \<longrightarrow> spending i (\<lambda>_ c. c \<le> 1) (attached_p fd sel (on_kern tick w)) c))
      (map_prog (\<lambda>e. (e, w)) (\<lambda>a. a) (select_p ?draw)) c"
    unfolding obeys_map
  proof (rule obeys_mono [OF spending_select [OF c]])
    fix x :: "exn + selected_backend option" and c
    assume "claims i x c"
    then show "c \<le> 1 \<and> (\<forall>sel. map_sum (\<lambda>e. (e, w)) (\<lambda>a. a) x = Inr sel \<longrightarrow>
        spending i (\<lambda>_ c. c \<le> 1) (attached_p fd sel (on_kern tick w)) c)"
      using spending_attached [of c "projr x"] by (cases x) (auto simp: claims_def)
  qed
  then show "spending i (\<lambda>_ c. c \<le> 1) (bind_prog (map_prog (\<lambda>e. (e, w)) (\<lambda>a. a) (select_p ?draw))
      (\<lambda>selected. attached_p fd selected (on_kern tick w))) c"
    by (intro spending_bind, elim obeys_mono) (auto split: sum.split)
qed

lemma spends_accept: "spends i (accept_clients_p w)"
proof (induction w rule: accept_clients_p.induct)
  case (1 w)
  obtain r c k where acc: "sys_accept (w_kern w) = (r, c, k)" by (metis prod_cases3)
  show ?case
  proof (cases r)
    case AClient
    have "spends i (bind_prog (attach_backend_p c (w\<lparr>w_kern := k\<rparr>)) accept_clients_p)"
      by (rule spends_bind_results [OF spends_attach]) (rule "1.IH"(1) [OF acc [symmetric] AClient refl])
    with acc AClient show ?thesis by (simp add: accept_clients_p.simps [of w])
  next
    case AIntr
    with acc "1.IH"(2) show ?thesis by (simp add: accept_clients_p.simps [of w])
  qed (use acc in \<open>simp_all add: accept_clients_p.simps [of w] neutral_spends\<close>)
qed

lemma spends_event: "spends i (handle_event_p ev w)"
proof -
  have steps: "neutral i (bind_prog (if a then finish_connect_p fd w else Return w) (\<lambda>w.
      bind_prog (if b w then read_available_p fd w else Return w) (\<lambda>w. if c w then flush_p fd w else Return w)))" for a b c fd
    by (intro neutral_bind) (auto simp: neutral_finish neutral_read neutral_flush)
  show ?thesis
    using neutral_spends [OF steps] spends_accept neutral_spends [OF neutral_reap] neutral_spends [OF neutral_close_pair]
      neutral_spends [OF neutral_simps(1)]
    by (auto simp: handle_event_p_def split: prod.split option.split)
qed

section \<open>All threads\<close>

fun serving :: "thread \<Rightarrow> bool" where
  "serving (Worker (Access u k)) = True"
| "serving _ = False"

definition may_record :: "nat \<Rightarrow> thread \<Rightarrow> nat \<Rightarrow> bool" where
  "may_record i x c \<longleftrightarrow> c \<le> (if serving x then 1 else 0) \<and> (case x of
     Worker p \<Rightarrow> spending i (\<lambda>_ c. c \<le> 1) p c
   | Stopping p \<Rightarrow> neutral i p
   | Other p \<Rightarrow> neutral i p)"

lemma worker_access:
  assumes "spending i (\<lambda>_ c. c \<le> 1) (Access u k) c" and "c \<le> 1" and "single_look r"
  shows "\<exists>c'. may_record i (Worker (k r)) c' \<and> credited i c c' r (u r)"
proof -
  from assms(1,3) obtain c' where c': "credited i c c' r (u r)" "spending i (\<lambda>_ c. c \<le> 1) (k r) c'" by auto
  show ?thesis
  proof (cases "serving (Worker (k r))")
    case True
    have "c' \<le> 1" using c'(1) assms(2) by (auto simp: credited_def)
    with c' True show ?thesis by (auto simp: may_record_def)
  next
    case False
    then have "may_record i (Worker (k r)) 0" by (cases "k r") (simp_all add: may_record_def)
    moreover have "credited i c 0 r (u r)" using c'(1) by (auto simp: credited_def)
    ultimately show ?thesis by blast
  qed
qed

lemma access_record:
  assumes x: "may_record i x c" "access_of x r = Some (r', x')" and r: "single_look r"
  shows "\<exists>c'. may_record i x' c' \<and> credited i c c' r r'"
proof (cases x)
  case (Worker p)
  with x(2) obtain u k where p: "p = Access u k" "r' = u r" "x' = Worker (k r)" by (cases p) auto
  have "spending i (\<lambda>_ c. c \<le> 1) (Access u k) c" "c \<le> 1" using x(1) Worker p(1) by (simp_all add: may_record_def)
  from worker_access [OF this r] show ?thesis by (simp add: p)
next
  case (Stopping p)
  with x(2) obtain u k where p: "p = Access u k" "r' = u r" "x' = Stopping (k r)" by (cases p) auto
  with x(1) Stopping show ?thesis by (auto simp: may_record_def intro: credited_same)
next
  case (Other p)
  with x(2) obtain u k where p: "p = Access u k" "r' = u r" "x' = Other (k r)" by (cases p) auto
  with x(1) Other show ?thesis by (auto simp: may_record_def intro: credited_same)
qed

lemma takes_up_record:
  assumes "takes_up r x y" and "may_record i x c"
  shows "may_record i y c"
  using assms spends_event [of i]
  by cases (auto simp: may_record_def spends_def neutral_shutdown neutral_check neutral_request)

definition credits :: "nat \<Rightarrow> threads \<Rightarrow> nat list \<Rightarrow> bool" where
  "credits i y C \<longleftrightarrow> single_look (th_rt y) \<and> list_all2 (may_record i) (th_all y) C"

lemma step_credits:
  assumes "threads_step y z" and C: "credits i y C"
  shows "\<exists>C' m. credits i z C' \<and> recorded i (th_rt z) = recorded i (th_rt y) + of_nat m \<and>
    (routable (r_sched (th_rt y)) i \<or> m + sum_list C' \<le> sum_list C)"
  using assms(1)
proof cases
  case (access t r x)
  have ok: "list_all2 (may_record i) (th_all y) C" and look: "single_look (th_rt y)" using C by (simp_all add: credits_def)
  have t: "t < length C" using access(2) ok by (simp add: list_all2_lengthD)
  have "may_record i (th_all y ! t) (C ! t)" using ok access(2) by (simp add: list_all2_conv_all_nth)
  from access_record [OF this access(3) look] obtain c where c: "may_record i x c" "credited i (C ! t) c (th_rt y) r" by blast
  then obtain m where m: "recorded i r = recorded i (th_rt y) + of_nat m"
    "m + c \<le> C ! t \<or> routable (r_sched (th_rt y)) i" by (auto simp: credited_def)
  have "credits i z (C[t := c])"
    using c look list_all2_update_cong [OF ok, OF c(1)] access(1) by (simp add: credits_def credited_def)
  moreover have "sum_list (C[t := c]) + C ! t = sum_list C + c" by (rule sum_list_update_nat [OF t])
  ultimately show ?thesis using m access(1) by (intro exI [of _ "C[t := c]"] exI [of _ m]) auto
next
  case (take_up t x)
  have ok: "list_all2 (may_record i) (th_all y) C" and look: "single_look (th_rt y)" using C by (simp_all add: credits_def)
  have "may_record i x (C ! t)"
    by (rule takes_up_record [OF take_up(3)]) (use ok take_up(2) in \<open>simp add: list_all2_conv_all_nth\<close>)
  from list_all2_update_cong [OF ok, OF this, of t] have "credits i z C"
    using take_up(1) look by (simp add: credits_def)
  then show ?thesis using take_up(1) by (intro exI [of _ C] exI [of _ 0]) simp
qed

lemma run_credits:
  assumes "threads_step\<^sup>*\<^sup>* y z" and "credits i y C"
  shows "\<exists>C'. credits i z C'"
  using assms by (induction rule: rtranclp_induct) (auto dest: step_credits)

text \<open>The threads go on while nobody brings backend \<open>i\<close> back up.\<close>

definition step_while_out :: "nat \<Rightarrow> threads \<Rightarrow> threads \<Rightarrow> bool" where
  "step_while_out i y z \<longleftrightarrow> threads_step y z \<and> \<not> routable (r_sched (th_rt y)) i"

lemma run_while_out:
  assumes "(step_while_out i)\<^sup>*\<^sup>* y z" and "credits i y C"
  shows "\<exists>C' m. credits i z C' \<and> recorded i (th_rt z) = recorded i (th_rt y) + of_nat m \<and> m + sum_list C' \<le> sum_list C"
  using assms(1)
proof (induction rule: rtranclp_induct)
  case base
  show ?case using assms(2) by (intro exI [of _ C] exI [of _ 0]) simp
next
  case (step y' z)
  then obtain C' m where C': "credits i y' C'" "recorded i (th_rt y') = recorded i (th_rt y) + of_nat m"
    "m + sum_list C' \<le> sum_list C" by blast
  have "threads_step y' z" "\<not> routable (r_sched (th_rt y')) i" using step.hyps(2) by (simp_all add: step_while_out_def)
  with step_credits [OF _ C'(1)] obtain D k where "credits i z D" "recorded i (th_rt z) = recorded i (th_rt y') + of_nat k"
    "k + sum_list D \<le> sum_list C'" by blast
  with C'(2,3) show ?case by (intro exI [of _ D] exI [of _ "m + k"]) (simp add: add.assoc)
qed

lemma credits_serving: "list_all2 (may_record i) xs C \<Longrightarrow> sum_list C \<le> length (filter serving xs)"
  by (induction rule: list_all2_induct) (auto simp: may_record_def)

lemma ready_credits:
  assumes "ready y" and "single_look (th_rt y)"
  shows "credits i y (replicate (length (th_all y)) 0)"
proof -
  have "may_record i x 0" if "x \<in> set (th_all y)" for x
    using assms(1) that by (auto simp: ready_def may_record_def)
  with assms(2) show ?thesis by (simp add: credits_def list_all2_conv_all_nth)
qed

text \<open>The threads go on while backend \<open>i\<close> has a state other than \<open>Up\<close>.\<close>

definition step_not_up :: "nat \<Rightarrow> threads \<Rightarrow> threads \<Rightarrow> bool" where
  "step_not_up i y z \<longleftrightarrow> threads_step y z \<and> runtime_state (th_rt y) i \<noteq> Up"

lemma not_up_out: "step_not_up i y z \<Longrightarrow> step_while_out i y z"
  by (auto simp: step_not_up_def step_while_out_def routable_iff runtime_views scheduler_views slot_def)

lemma not_up_records:
  assumes "threads_step\<^sup>*\<^sup>* y0 y" "ready y0" "single_look (th_rt y0)" and "(step_not_up i)\<^sup>*\<^sup>* y z"
  shows "\<exists>m \<le> length (filter serving (th_all y)). recorded i (th_rt z) = recorded i (th_rt y) + of_nat m"
proof -
  from run_credits [OF assms(1) ready_credits [OF assms(2,3)]] obtain C where C: "credits i y C" by blast
  have "(step_while_out i)\<^sup>*\<^sup>* y z" using assms(4) by (rule mono_rtranclp [rule_format, rotated]) (rule not_up_out)
  from run_while_out [OF this C] obtain m where
    "recorded i (th_rt z) = recorded i (th_rt y) + of_nat m" "m \<le> sum_list C" by (auto dest: order_trans)
  with C credits_serving [of i "th_all y" C] show ?thesis by (auto simp: credits_def intro: order_trans)
qed

text \<open>An admin thread that is idle makes the store of a request with its own steps alone.\<close>

lemma request_stored:
  assumes t: "t < length (th_all y)" "th_all y ! t = Other (Return k)"
    and store: "set_backend_state i st (th_rt y) = Ok r"
  shows "threads_step\<^sup>*\<^sup>* y (y\<lparr>th_rt := r\<rparr>)"
proof -
  let ?y = "y\<lparr>th_all := (th_all y)[t := Other (request_p i st k)]\<rparr>"
  have same: "(th_all y)[t := Other (Return k)] = th_all y" using t(2) by (metis list_update_id)
  have "run (request_p i st k) (th_rt y) = (Inr k, r)"
    by (simp add: request_p_def with_kern_def run_bind run_map run_runtime store)
  then have "threads_step\<^sup>*\<^sup>* ?y (y\<lparr>th_rt := r\<rparr>)"
    using runs_to_end [where W = Other, of t ?y "request_p i st k"] t(1) same by simp
  moreover have "threads_step y ?y" using threads_step.take_up [OF t(1)] takes_up.request t(2) by simp
  ultimately show ?thesis by (rule converse_rtranclp_into_rtranclp [rotated])
qed

section \<open>Properties\<close>

text \<open>
  C3. What a drain does to connections that are on their way. The policy is round-robin or least
  connections. From a moment on backend \<open>i\<close> is not up: it is draining, for instance. Then, under every
  interleaving of single accesses of all threads, and as long as nobody brings it back up, the
  number of connections that are recorded for it grows by at most one for each worker that was
  inside a call at that moment; if none was, no connection is recorded at all.
\<close>

theorem drain_in_flight:
  assumes "threads_step\<^sup>*\<^sup>* y0 y" and "ready y0" and "single_look (th_rt y0)"
    and "(step_while_out i)\<^sup>*\<^sup>* y z"
  shows "\<exists>m \<le> length (filter serving (th_all y)). recorded i (th_rt z) = recorded i (th_rt y) + of_nat m"
proof -
  from run_credits [OF assms(1) ready_credits [OF assms(2,3)]] obtain C where C: "credits i y C" by blast
  from run_while_out [OF assms(4) C] obtain m where
    "recorded i (th_rt z) = recorded i (th_rt y) + of_nat m" "m \<le> sum_list C" by (auto dest: order_trans)
  with C credits_serving [of i "th_all y" C] show ?thesis by (auto simp: credits_def intro: order_trans)
qed

text \<open>
  A worker that is accepting a client has seen backend 0 up when a request drains the backend; the
  worker then connects to it all the same.
\<close>

definition accepting_worker :: worker where
  "accepting_worker = idle_worker\<lparr>w_kern := (w_kern idle_worker)\<lparr>k_accepts := [AClient]\<rparr>\<rparr>"

definition accepting_threads :: threads where
  "accepting_threads = \<lparr>th_rt = fresh_runtime 0 (sample_config\<lparr>policy := RoundRobin\<rparr>),
     th_all = [Worker (Return accepting_worker), Other (Return sample_kern)]\<rparr>"

text \<open>The next access of a thread, and of the threads of a list in turn.\<close>

definition play_one :: "nat \<Rightarrow> threads \<Rightarrow> threads" where
  "play_one t y = (case access_of (th_all y ! t) (th_rt y) of
     None \<Rightarrow> y
   | Some (r, x) \<Rightarrow> y\<lparr>th_rt := r, th_all := (th_all y)[t := x]\<rparr>)"

lemma length_play_one [simp]: "length (th_all (play_one t y)) = length (th_all y)"
  by (auto simp: play_one_def split: option.split)

lemma play_one_step: "t < length (th_all y) \<Longrightarrow> play_one t y = y \<or> threads_step y (play_one t y)"
  by (auto simp: play_one_def split: option.split intro: threads_step.access)

fun play :: "nat list \<Rightarrow> threads \<Rightarrow> threads" where
  "play [] y = y"
| "play (t # ts) y = play ts (play_one t y)"

lemma play_steps: "\<forall>t \<in> set ts. t < length (th_all y) \<Longrightarrow> threads_step\<^sup>*\<^sup>* y (play ts y)"
proof (induction ts y rule: play.induct)
  case (2 t ts y)
  then have "threads_step\<^sup>*\<^sup>* (play_one t y) (play ts (play_one t y))" by simp
  with play_one_step [of t y] 2(2) show ?case by (auto intro: converse_rtranclp_into_rtranclp)
qed simp

fun out_along :: "nat \<Rightarrow> nat list \<Rightarrow> threads \<Rightarrow> bool" where
  "out_along i [] y = True"
| "out_along i (t # ts) y = (t < length (th_all y) \<and> \<not> routable (r_sched (th_rt y)) i \<and> out_along i ts (play_one t y))"

lemma play_while_out: "out_along i ts y \<Longrightarrow> (step_while_out i)\<^sup>*\<^sup>* y (play ts y)"
proof (induction ts y rule: play.induct)
  case (2 t ts y)
  then have "(step_while_out i)\<^sup>*\<^sup>* (play_one t y) (play ts (play_one t y))" by simp
  with play_one_step [of t y] 2(2) show ?case
    by (auto simp: step_while_out_def [abs_def] intro: converse_rtranclp_into_rtranclp)
qed simp

definition both_begin :: threads where
  "both_begin = accepting_threads\<lparr>th_all :=
     [Worker (handle_event_p (3, 0) accepting_worker), Other (request_p 0 Draining sample_kern)]\<rparr>"

lemma accept_begins:
  "\<exists>v. handle_event_p (3, 0) accepting_worker = bind_prog (attach_backend_p 8 v) accept_clients_p \<and>
    k_calls (w_kern v) = 0 \<and> k_draw (w_kern v) = k_draw sample_kern \<and> k_getaddrinfo (w_kern v) = k_getaddrinfo sample_kern \<and>
    k_open (w_kern v) = {3, 4, 5, 6, 7, 8} \<and> k_limit (w_kern v) = 1024"
proof -
  have "sys_accept (w_kern accepting_worker) = (AClient, 8, (snd (snd (sys_accept (w_kern accepting_worker)))))"
    by (simp add: sys_accept_def accepting_worker_def idle_worker_def sample_kern_def table_full_def sys_open_def)
  then show ?thesis
    by (intro exI [of _ "accepting_worker\<lparr>w_kern := snd (snd (sys_accept (w_kern accepting_worker)))\<rparr>"])
      (simp add: handle_event_p_def accept_clients_p.simps [of accepting_worker],
       auto simp: accepting_worker_def idle_worker_def sys_accept_def sample_kern_def table_full_def sys_open_def)
qed

lemmas accept_eval = accepting_threads_def
  attach_backend_p_def select_p_def lift_p_def routable_p_def access_defs Let_def fresh_runtime_def
  new_runtime_def new_scheduler_def sample_config_def upt_conv_Cons routable_iff on_sched_def request_p_def
  set_backend_state_p_def set_state_p_def with_kern_def attached_p_def connect_backend_def
  resolve_endpoint_def tick_def set_nonblocking_def config_p_def record_connection_open_p_def
  mark_open_p_def checked_def on_rt_p_def play_one_def

lemma begin_steps: "threads_step\<^sup>*\<^sup>* accepting_threads both_begin"
proof -
  let ?y = "accepting_threads\<lparr>th_all := [Worker (handle_event_p (3, 0) accepting_worker), Other (Return sample_kern)]\<rparr>"
  have "threads_step accepting_threads ?y"
    using threads_step.take_up [of 0 accepting_threads "Worker (handle_event_p (3, 0) accepting_worker)"] takes_up.event
    by (simp add: accepting_threads_def)
  moreover have "threads_step ?y both_begin"
    using threads_step.take_up [of 1 ?y "Other (request_p 0 Draining sample_kern)"] takes_up.request
    by (simp add: both_begin_def)
  ultimately show ?thesis by simp
qed

lemma accepting_rt: "r_sched (th_rt accepting_threads) = new_scheduler (backends sample_config) RoundRobin"
  by (simp add: accepting_threads_def fresh_runtime_def new_runtime_def sample_config_def)

lemma sched_views:
  "s_backends (new_scheduler bs p) = bs" "s_policy (new_scheduler bs p) = p" "length (s_active (new_scheduler bs p)) = length bs"
  "s_next (new_scheduler bs p) = 0" "s_states (new_scheduler bs p) = replicate (length bs) Up"
  "s_total (new_scheduler bs p) = replicate (length bs) 0" 
  by (simp_all add: new_scheduler_def)

lemma sample_backends: "length (backends sample_config) = 2" "backends sample_config \<noteq> []"
  by (simp_all add: sample_config_def)

lemma attach_begins:
  fixes K :: "worker \<Rightarrow> worker work"
  shows "play [0, 0, 0] (accepting_threads\<lparr>th_all := [Worker (bind_prog (attach_backend_p c v) K), x]\<rparr>) =
    \<lparr>th_rt = on_sched (\<lambda>s. s\<lparr>s_next := 1\<rparr>) (th_rt accepting_threads),
     th_all = [Worker (bind_prog (attached_p c (Some \<lparr>sel_index = 0, sel_endpoint = backends sample_config ! 0\<rparr>) (on_kern tick v)) K), x]\<rparr>"
  by (simp add: attach_backend_p_def select_p_def lift_p_def routable_p_def access_defs Let_def routable_iff play_one_def accepting_rt
    sched_views sample_backends on_sched_def upt_conv_Cons)

lemma attached_opens:
  assumes "connect_backend (sel_endpoint b) (w_kern v) = (Inr (Some fd), k)"
  shows "\<exists>w A. attached_p c (Some b) v = bind_prog (config_p connect_timeout_ms) (\<lambda>d.
    bind_prog (on_rt_p (record_connection_open_p (sel_index b)) w) (A d))"
  by (rule exI, rule exI) (simp add: attached_p_def assms Let_def)

lemma accepting_connects:
  assumes "k_calls k = 1" "k_open k = {3, 4, 5, 6, 7, 8}" "k_limit k = 1024" "k_getaddrinfo k = k_getaddrinfo sample_kern"
  shows "\<exists>fd k1. connect_backend e k = (Inr (Some fd), k1)"
  using assms
  by (simp add: connect_backend_def resolve_endpoint_def sample_kern_def tick_def set_nonblocking_def table_full_def sys_open_def Let_def)

lemma record_steps:
  fixes K :: "worker \<Rightarrow> worker work"
  assumes "s_states (r_sched r) = [Draining, Up]" "length (s_active (r_sched r)) = 2" "s_total (r_sched r) = [0, 0]"
    and "y = \<lparr>th_rt = r, th_all = [Worker (bind_prog (bind_prog (config_p f) (\<lambda>d. bind_prog (on_rt_p (record_connection_open_p 0) w) (A d))) K), x]\<rparr>"
  shows "out_along 0 [0, 0, 0, 0] y" and "recorded 0 (th_rt (play [0, 0, 0, 0] y)) = 1" 
  using assms
  by (auto simp: record_connection_open_p_def mark_open_p_def checked_def on_rt_p_def lift_p_def config_p_def access_defs play_one_def routable_iff on_sched_def recorded_def)

lemma request_steps:
  "s_states (r_sched r) = [Up, Up] \<Longrightarrow>
    play [1, 1] \<lparr>th_rt = r, th_all = [x, Other (request_p 0 Draining k)]\<rparr> =
    \<lparr>th_rt = on_sched (\<lambda>s. s\<lparr>s_states := [Draining, Up]\<rparr>) r, th_all = [x, Other (Return k)]\<rparr>"
  by (simp add: request_p_def set_backend_state_p_def set_state_p_def with_kern_def checked_def access_defs play_one_def on_sched_def)

lemma play_append: "play (ts @ us) y = play us (play ts y)"
  by (induction ts y rule: play.induct) simp_all

lemma accepting_runs:
  "\<exists>y z. threads_step\<^sup>*\<^sup>* accepting_threads y \<and> (step_while_out 0)\<^sup>*\<^sup>* y z \<and>
    length (filter serving (th_all y)) \<le> 1 \<and> th_all y ! 1 = Other (Return sample_kern) \<and>
    recorded 0 (th_rt y) = 0 \<and> recorded 0 (th_rt z) = 1"
proof -
  let ?e = "backends sample_config ! 0" and ?o = "Other (request_p 0 Draining sample_kern)"
  obtain v where v: "handle_event_p (3, 0) accepting_worker = bind_prog (attach_backend_p 8 v) accept_clients_p"
    "k_calls (w_kern v) = 0" "k_getaddrinfo (w_kern v) = k_getaddrinfo sample_kern"
    "k_open (w_kern v) = {3, 4, 5, 6, 7, 8}" "k_limit (w_kern v) = 1024" using accept_begins by blast
  have "\<exists>fd k1. connect_backend ?e (w_kern (on_kern tick v)) = (Inr (Some fd), k1)"
    by (rule accepting_connects) (use v in \<open>simp_all add: on_kern_def tick_def\<close>)
  then obtain w A where prog: "attached_p 8 (Some \<lparr>sel_index = 0, sel_endpoint = ?e\<rparr>) (on_kern tick v) =
      bind_prog (config_p connect_timeout_ms) (\<lambda>d. bind_prog (on_rt_p (record_connection_open_p 0) w) (A d))"
    using attached_opens [of "\<lparr>sel_index = 0, sel_endpoint = ?e\<rparr>"] by fastforce
  let ?w = "Worker (bind_prog (bind_prog (config_p connect_timeout_ms) (\<lambda>d.
      bind_prog (on_rt_p (record_connection_open_p 0) w) (A d))) accept_clients_p)"
  let ?r = "on_sched (\<lambda>s. s\<lparr>s_states := [Draining, Up]\<rparr>) (on_sched (\<lambda>s. s\<lparr>s_next := 1\<rparr>) (th_rt accepting_threads))"
  let ?y = "\<lparr>th_rt = ?r, th_all = [?w, Other (Return sample_kern)]\<rparr>"
  have up: "s_states (r_sched (on_sched (\<lambda>s. s\<lparr>s_next := 1\<rparr>) (th_rt accepting_threads))) = [Up, Up]"
    by (simp add: on_sched_def accepting_rt sched_views sample_backends numeral_eq_Suc)
  have "play [0, 0, 0, 1, 1] both_begin = play [1, 1] (play [0, 0, 0] both_begin)"
    by (simp add: play_append [symmetric] del: play.simps)
  also have "\<dots> = ?y"
    unfolding both_begin_def v(1) attach_begins prog by (rule request_steps [OF up])
  finally have y: "play [0, 0, 0, 1, 1] both_begin = ?y" .
  have "threads_step\<^sup>*\<^sup>* both_begin ?y"
    unfolding y [symmetric] by (rule play_steps) (simp add: both_begin_def)
  then have "threads_step\<^sup>*\<^sup>* accepting_threads ?y" using begin_steps by (rule rtranclp_trans [rotated])
  moreover have "out_along 0 [0, 0, 0, 0] ?y" "recorded 0 (th_rt (play [0, 0, 0, 0] ?y)) = 1"
    by (rule record_steps [OF _ _ _ refl]; simp add: on_sched_def accepting_rt sched_views sample_backends numeral_eq_Suc)+
  moreover have "recorded 0 ?r = 0" by (simp add: recorded_def on_sched_def accepting_rt sched_views sample_backends numeral_eq_Suc)
  ultimately show ?thesis
    by (intro exI [of _ ?y] exI [of _ "play [0, 0, 0, 0] ?y"]) (simp add: play_while_out del: play.simps out_along.simps)
qed

lemma accepting_ready: "ready accepting_threads" "single_look (th_rt accepting_threads)"
proof -
  have wf: "wf_runtime (th_rt accepting_threads)"
    unfolding accepting_threads_def fresh_runtime_def threads.select_convs
    by (rule wf_new_runtime) (simp add: sample_config_def)
  have size: "pool_size (th_rt accepting_threads) = 2"
    by (simp add: pool_size_def accepting_threads_def fresh_runtime_def new_runtime_def sample_config_def)
  have "own_inv 2 idle_worker"
    using sample_process_inv by (simp add: process_inv_def sample_process_def pair_runtime_size)
  then have "own_inv 2 accepting_worker"
    by (simp add: own_inv_def accepting_worker_def kern_ok_def fixed_fds_def streams_def)
  moreover have "held_on i (Worker (Return accepting_worker)) = 0" for i
    by (simp add: held_on_def clients_on_def accepting_worker_def idle_worker_def)
  moreover have "unat (runtime_active (th_rt accepting_threads) i) = 0" if "i < 2" for i
    using that by (simp add: runtime_views active_of_def slot_def accepting_rt new_scheduler_def sample_backends)
  ultimately show "ready accepting_threads"
    using wf by (simp add: ready_def size sample_held) (simp add: accepting_threads_def sample_held)
  show "single_look (th_rt accepting_threads)" by (simp add: single_look_def accepting_rt sched_views)
qed

text \<open>The bound is reached: one connection is recorded after the drain.\<close>

theorem drain_in_flight_witness:
  "\<exists>y z. threads_step\<^sup>*\<^sup>* accepting_threads y \<and> (step_while_out 0)\<^sup>*\<^sup>* y z \<and>
    (\<exists>m \<le> 1. recorded 0 (th_rt z) = recorded 0 (th_rt y) + of_nat m) \<and>
    th_all y ! 1 = Other (Return sample_kern) \<and> recorded 0 (th_rt y) = 0 \<and> recorded 0 (th_rt z) = 1"
proof -
  from accepting_runs obtain y z where run: "threads_step\<^sup>*\<^sup>* accepting_threads y" "(step_while_out 0)\<^sup>*\<^sup>* y z"
    "length (filter serving (th_all y)) \<le> 1" and at: "th_all y ! 1 = Other (Return sample_kern)"
    "recorded 0 (th_rt y) = 0" "recorded 0 (th_rt z) = 1" by blast
  from drain_in_flight [OF run(1) accepting_ready run(2)] run(3)
  have "\<exists>m \<le> 1. recorded 0 (th_rt z) = recorded 0 (th_rt y) + of_nat m" by (meson order_trans)
  with run(1,2) at show ?thesis by blast
qed

end
