(* ===== verification/Spec2Isabelle.thy ===== *)
theory Spec2Isabelle
  imports LB_Inflight
begin

text \<open>
  A verification development for the TCP load balancer of this repository. The program accepts
  TCP connections on one address, picks one of the configured backends for each, and copies bytes
  both ways; it checks the health of the backends, and an admin server shows statistics and takes
  backends out of service.

  \<^bold>\<open>The program's parts and their theories.\<close> The chain of imports follows the calls.

  \<^item> \<open>LB_Prelude\<close>: machine integers as words, the exceptions, the result types \<open>'a res\<close> (a value or an
    exception) and \<open>'s out\<close> (a state, and possibly an exception: writes before a \<open>throw\<close> stay), the
    locale \<open>codec\<close> of a printer with its parser and the locale \<open>step_invariant\<close> of a transition
    system with an invariant. \<open>LB_Text\<close>: what the sources use of the C++ library on text
    (\<open>isspace\<close>, \<open>find\<close>, \<open>to_string\<close>, \<open>stoul\<close>, \<open>getline\<close>).
  \<^item> \<open>LB_Config\<close>: \<open>include/lb/config.hpp\<close> and \<open>src/config.cpp\<close>. Data with their defaults, the parsers
    of policies and endpoints, the loader line by line with each of its exceptions. The file system
    is a map from paths to contents. Shown: which text is accepted, the round trip with a printer of
    configurations, where a load fails, and that a loaded configuration is well formed.
  \<^item> \<open>LB_Scheduler\<close>: \<open>include/lb/scheduler.hpp\<close> and \<open>src/scheduler.cpp\<close>. The three policies, the updates
    and the accessors; the random draws are a function. Shown: soundness, completeness and fairness
    of the selection, the effect of each update. The locale \<open>backend_pool\<close> is the contract of
    counters, failures and states that the worker relies on; it is interpreted on the scheduler
    (\<open>sched\<close>) and on the shared runtime (\<open>rt\<close>).
  \<^item> \<open>LB_Atomics\<close>: the fetch-and-add and compare-exchange loops of \<open>src/scheduler.cpp\<close> and
    \<open>src/runtime.cpp\<close> as threads that take single loads and exchanges, with spurious failures.
    Shown: they linearise to atomic updates; and a thread that runs alone, from any state that the
    others left, takes at most two steps, cannot stop before its end, and has then made its update.
  \<^item> \<open>LB_Runtime\<close>, \<open>LB_Render\<close>: \<open>include/lb/runtime.hpp\<close> and \<open>src/runtime.cpp\<close>. The shared state with its
    recordings; the two renderings \<open>stats_json\<close> and \<open>prometheus_metrics\<close>, the \<open>double\<close> of the
    connection rate with the roundings of the conversions and the default stream format included.
    Shown: the global metrics are sums over the backends; the JSON text is the document it means,
    by a tokeniser of its own.
  \<^item> \<open>LB_Kernel\<close>, \<open>LB_Net\<close>: the operating system as a record of answers and scripts, and the socket
    helpers at the top of \<open>src/server.cpp\<close>. Shown: no path leaks a descriptor.
  \<^item> \<open>LB_Worker\<close>, \<open>LB_Worker_Inv\<close>, \<open>LB_Worker_Props\<close>: the \<open>Worker\<close> of \<open>src/server.cpp\<close>, one definition per
    member function; its invariant with one preservation lemma per operation; what it promises, for
    every state that is reachable while the network and the other threads do what they want
    (\<open>worker_step\<close>, interpretation \<open>system\<close>).
  \<^item> \<open>LB_Health\<close>: \<open>start_health_checks\<close> of \<open>src/server.cpp\<close>, refined to the state machine
    \<open>health_step\<close> of one backend; \<open>verdict\<close> is the effect of a probe on every field of the runtime.
    A network is dead when each \<open>connect\<close> fails at once, or is still in progress when its time is up,
    or reports an error at the end (\<open>connects_fail\<close>).
  \<^item> \<open>LB_Log\<close>: \<open>include/lb/logger.hpp\<close> and \<open>src/logger.cpp\<close>; the levels are an instance of \<open>linorder\<close>.
  \<^item> \<open>LB_Admin\<close>: \<open>include/lb/admin.hpp\<close> and \<open>src/admin.cpp\<close>. Sending, responses (read back by a reader of
    HTTP messages, interpretation \<open>http\<close> of \<open>codec\<close>), routing, files, the event stream, the listener
    and the accept loop. Shown: what each request changes and when the handler throws.
  \<^item> \<open>LB_App\<close>: the constructor, \<open>start\<close> and \<open>shutdown\<close> of \<open>TcpLoadBalancer\<close>, and \<open>src/main.cpp\<close>. Shown: the
    grammar of the command line and the exit status.
  \<^item> \<open>LB_Process\<close>, \<open>LB_Drain\<close>: all threads together as one transition system whose steps are whole
    events (\<open>process_step\<close>, interpretation \<open>whole\<close>). Shown: the counters are exact over all workers,
    and no event takes a connection to a backend that is out of service when the event begins.
  \<^item> \<open>LB_Prog\<close>, \<open>LB_Access\<close>, \<open>LB_Thread\<close>: the same code at the granularity of its atomic accesses. A
    \<open>prog\<close> is what a thread still has to do; the operations of the scheduler and the runtime, the
    member functions of \<open>Worker\<close>, the health check and the store of an admin request are programs
    with the suffix \<open>_p\<close>. Shown: a program that runs alone is the function without the suffix
    (\<open>run_runtime\<close>, \<open>run_select\<close>, \<open>run_check\<close>, \<open>event_accesses\<close>), so what the other theories prove
    of the functions holds of the programs.
  \<^item> \<open>LB_Races\<close>: what a single operation can do when others come between its accesses. Two policies
    return only what they have seen up; the third can return a backend that never was; a drain and a
    recovery can be overwritten.
  \<^item> \<open>LB_Interleave\<close>, \<open>LB_System\<close>: all threads interleaved at single accesses (\<open>threads_step\<close>). Each
    thread holds a share of the connection counters; the locale \<open>shares\<close> of \<open>LB_Prog\<close> turns one
    obligation per program (\<open>obeys\<close>) into the invariant of the whole, interpretations \<open>counters\<close> and
    \<open>interleaved\<close>. Shown: the counters are exact when no worker is inside a call, and zero when all
    have shut down; a worker that throws is lost with all it holds.
  \<^item> \<open>LB_Inflight\<close>: with the same obligations for another share, how many connections may still be
    recorded for a backend after it has been taken out.
  \<^item> This theory closes the circle with the admin server: the connection numbers that a client of
    \<open>/stats\<close> reads are those of all workers, at the granularity of whole events; and draining, from
    the bytes of the request to the last connection that is recorded for the backend, at the
    granularity of single accesses.

  \<^bold>\<open>Correspondence.\<close> A class or struct is a record with the source's fields, an enumeration a
  datatype, \<open>uint16_t\<close>, \<open>uint32_t\<close>, \<open>uint64_t\<close> and \<open>size_t\<close> are words of their width, a
  \<open>std::string\<close> is a list of bytes, the \<open>unordered_map\<close> of peers a finite map whose iteration order
  is a parameter. A member function is a function on the record that returns the changed record, its
  branches in the order of the source; \<open>throw\<close> is \<open>Throw\<close> or \<open>Inl\<close>. Standard exceptions carry
  their text. \<open>main\<close>, \<open>label\<close> and the like keep the source's names.

  \<^bold>\<open>Parameters.\<close> Code outside the repository is not defined here: what the kernel, the resolver, the
  clock and the random engine answer are fields of \<open>kern\<close>, or scripts of results that calls consume
  one by one. \<open>kern_ok\<close> states what is relied on: a new descriptor is not negative and not open,
  there are at most \<open>RLIMIT_NOFILE\<close> of them, and iterating a map visits each key once. Every property
  that assumes it has a witness with a concrete kernel.

  \<^bold>\<open>Bounds and loops.\<close> Loops over descriptors that may block are total functions: each call consumes an
  entry of its script, and a script that has run out answers \<open>EAGAIN\<close> (a client of the admin server:
  gone). The retry loops of the worker end because of this, which their termination proofs use. The
  outer loops that run until a stop request (\<open>event_loop\<close>, \<open>health_thread\<close>, \<open>accept_loop\<close>) take the
  list or number of rounds until the request is seen, for every such number; \<open>event_stream\<close> has the
  7200 rounds of the source. \<open>leading_zeros\<close> has as fuel the number of digits of the denominator,
  which bounds the zeros after the point. The counters of \<open>LB_Worker_Inv\<close> do not overflow because a
  worker has fewer than \<open>2 ^ 31\<close> descriptors and the process fewer than \<open>2 ^ 32\<close> workers.

  \<^bold>\<open>Granularity of concurrency.\<close> Two transition systems describe the process. In \<open>process_step\<close> a step
  is a whole event of a worker, one health check or one admin client; it carries the properties of
  the complete handlers, files and responses included. In \<open>threads_step\<close> a step is one load, store or
  read-modify-write of the shared runtime, and any other thread may come next; an admin client is
  there the store that it makes, since everything else it does with the runtime is loads. A
  compare-exchange loop is one access; \<open>LB_Atomics\<close>, which interleaves the loads and exchanges of these
  loops with spurious failures, shows that they linearise. A vector's size and the configuration never
  change, so reading them is an access that finds the same at any time. Each worker has its own part
  of the descriptor table, and the kernel may change its answers whenever the worker waits. Accesses
  of a thread are taken in the order of the source. The code uses relaxed order for most counters;
  the exactness of a counter rests only on the modification order of its one word, which every
  memory order keeps. A rendering for \<open>/stats\<close>, for \<open>/metrics\<close> or after a request is one look at the
  whole runtime, also where the other threads are at single accesses: in the source each number is a
  load of its own, so those of one answer can come from different moments. The descriptor that the kernel gives is a function \<open>k_alloc\<close> of the
  descriptors that the worker itself has open. It is arbitrary but for \<open>kern_ok\<close>, and the kernel may
  exchange it whenever the worker waits; which descriptors other threads have, which in the
  source share the table, is not visible in it within one event.

  \<^bold>\<open>Not modelled, and why.\<close> Reorderings of accesses to different words, which relaxed
  memory orders allow: there is no model of them to build on. The log entries that a worker writes for
  a failed \<open>epoll_wait\<close> or \<open>accept4\<close>. Failure to create a thread and to allocate memory. \<open>tune_socket\<close> and
  \<open>SO_REUSEADDR\<close> of the admin server: their results are ignored and change nothing that is modelled.
  \<open>SIGPIPE\<close>: \<open>flush\<close> (\<open>src/server.cpp\<close>, line 486) calls \<open>write\<close> without \<open>MSG_NOSIGNAL\<close> and \<open>main\<close> leaves the
  signal at its default, so a write to a connection that the other side has reset ends the whole process
  in the source. \<open>WFail\<close> of the model stands for the errors that \<open>write\<close> returns; the properties of
  workers speak of the time before such a signal. The admin server sends with \<open>MSG_NOSIGNAL\<close>.
  The passing of time during \<open>sleep_for\<close>. \<open>gmtime_r\<close>: its result is a parameter of \<open>timestamp\<close>. The
  race of \<open>AdminServer::stop\<close> with its accept loop on the listener's field. The tests, the dashboard,
  the benchmark scripts and the build files are not part of the program.

  \<^bold>\<open>Plan.\<close> Next come the latency of a connection and the deadlines against the clock, the renderings
  of \<open>/stats\<close> as loads that other threads interleave with, and a refinement of the admin server's
  event stream to the documents a client reads.
\<close>

section \<open>From the counters to the client of the admin server\<close>

definition stats_request :: bytes where
  "stats_request = ''GET /stats HTTP/1.1''"

lemma stats_words: "request_words (take 4095 stats_request) = (''GET'', ''/stats'', ''HTTP/1.1'')"
  by (simp add: stats_request_def request_eval)

text \<open>The member of a JSON object with a name.\<close>

fun member_of :: "string \<Rightarrow> json \<Rightarrow> json option" where
  "member_of name (JObj ms) = map_of ms name"
| "member_of name _ = None"

lemma sent_whole:
  "takes_all (c_sends c) (length payload) \<Longrightarrow> c_sent (snd (send_all payload c)) = c_sent c @ payload"
  using send_all_result [of payload c] by (auto simp: delivers_def)

lemma stats_answer:
  assumes "stats_json (e_now env) r = Inr body"
  shows "handle_client env (RData stats_request) \<lparr>se_rt = r, se_conn = c\<rparr> =
    Ok (hang_up (send_reply ''200 OK'' ''application/json'' body \<lparr>se_rt = r, se_conn = c\<rparr>))"
  using assms stats_words
  by (simp add: handle_client_def dispatch_def reply_with_def) (simp add: stats_request_def)

lemma backend_doc_active:
  assumes "wf_runtime r" "i < pool_size r"
  shows "member_of ''active_connections'' (backend_doc r i) = Some (JWord (show_u64 (runtime_active r i)))"
  using assms
  by (simp add: backend_doc_def wf_runtime_def wf_scheduler_def pool_size_def backend_count_def runtime_views
      scheduler_views slot_def)

text \<open>
  C5. The statistics tell the truth. In every state that the process reaches, a client that asks the
  admin server for \<open>/stats\<close> and takes the whole answer receives one HTTP response; its body, read
  as JSON, is the document of the current runtime; and the number of active connections that this
  document gives for each backend is the number of connections that all workers together hold on it.
\<close>

theorem stats_tell_the_truth:
  assumes "process_step\<^sup>*\<^sup>* p0 p" and "process_inv p0"
    and "stats_json (e_now env) (ps_rt p) = Inr body" and "length body < 2 ^ 64"
    and "takes_all (c_sends c) (length (response ''200 OK'' ''application/json'' body []))"
  shows "\<exists>s reply. handle_client env (RData stats_request) \<lparr>se_rt = ps_rt p, se_conn = c\<rparr> = Ok s \<and>
    se_rt s = ps_rt p \<and> c_sent (se_conn s) = c_sent c @ reply \<and>
    read_response reply = Inr (''200 OK'', ''application/json'', body) \<and>
    tokenise body = Some (json_tokens (stats_doc (e_now env) (ps_rt p))) \<and>
    (\<forall>i < pool_size (ps_rt p). member_of ''active_connections'' (backend_doc (ps_rt p) i) =
       Some (JWord (show_nat (\<Sum>w\<leftarrow>ps_workers p. card (clients_on i w)))))"
proof -
  have inv: "process_inv p" using whole.run_keeps [OF assms(1,2)] .
  then have wf: "wf_runtime (ps_rt p)" by (simp add: process_inv_def)
  let ?s = "\<lparr>se_rt = ps_rt p, se_conn = c\<rparr>" and ?reply = "response ''200 OK'' ''application/json'' body []"
  have "tokenise body = Some (json_tokens (stats_doc (e_now env) (ps_rt p)))"
    using stats_json_represents [OF wf, of "e_now env"] assms(3) represents_tokens by auto
  moreover have "read_response ?reply = Inr (''200 OK'', ''application/json'', body)"
    by (rule read_response_written [OF _ _ assms(4)]) simp_all
  moreover have "c_sent (se_conn (hang_up (send_reply ''200 OK'' ''application/json'' body ?s))) = c_sent c @ ?reply"
    "se_rt (hang_up (send_reply ''200 OK'' ''application/json'' body ?s)) = ps_rt p"
    using sent_whole [OF assms(5)] by (simp_all add: hang_up_def send_reply_def)
  moreover have "member_of ''active_connections'' (backend_doc (ps_rt p) i) =
      Some (JWord (show_nat (\<Sum>w\<leftarrow>ps_workers p. card (clients_on i w))))" if "i < pool_size (ps_rt p)" for i
    using backend_doc_active [OF wf that] process_counts [OF inv that] by (simp add: show_u64_def)
  ultimately show ?thesis using stats_answer [OF assms(3), of c] by blast
qed

definition patient :: "nat \<Rightarrow> conn" where
  "patient n = \<lparr>c_sends = [WTake n], c_sent = [], c_open = True\<rparr>"

lemma short_numbers:
  "length (show_nat 0) \<le> 20" "length (show_nat (Suc 0)) \<le> 20" "length (show_nat 4) \<le> 20"
  "length (show_nat 9000) \<le> 20" "length (show_nat 9101) \<le> 20" "length (show_nat 65535) \<le> 20"
proof -
  have "length (show_nat n) \<le> 20" if "n < 100000000000000000000" for n
    using length_show_nat [of n 19] that by simp
  from this [of 0] this [of "Suc 0"] this [of 4] this [of 9000] this [of 9101] this [of 65535]
  show "length (show_nat 0) \<le> 20" "length (show_nat (Suc 0)) \<le> 20" "length (show_nat 4) \<le> 20"
    "length (show_nat 9000) \<le> 20" "length (show_nat 9101) \<le> 20" "length (show_nat 65535) \<le> 20" by simp_all
qed

lemma short_labels:
  "length (json_escape (''0.0.0.0:'' @ show_nat 9000)) \<le> 100"
  "length (json_escape (''127.0.0.1:'' @ show_nat 9101)) \<le> 100"
  "length (json_escape (''::1:'' @ show_nat 65535)) \<le> 100"
proof -
  have esc: "length (json_escape s) \<le> 2 * length s" for s
    by (induction s) (auto simp: json_escape_def)
  show "length (json_escape (''0.0.0.0:'' @ show_nat 9000)) \<le> 100"
    "length (json_escape (''127.0.0.1:'' @ show_nat 9101)) \<le> 100"
    "length (json_escape (''::1:'' @ show_nat 65535)) \<le> 100"
    by (rule order.trans [OF esc], use short_numbers in simp)+
qed

lemma pair_stats: "\<exists>body. stats_json 0 pair_runtime = Inr body \<and> length body < 2 ^ 64"
proof -
  note eval = pair_runtime_def runtime_eval new_metrics_def count_open_def update_peak_def Let_def
    state_at_def accessor_defs checked_get_def uptime_seconds_def show_rate_def show_double_def
    show_u64_def show_int_def endpoint_label_def upt_rec
  show ?thesis
    using short_numbers short_labels
    by (simp add: stats_json_def backend_json_def eval json_field_def json_quoted_def)
qed

theorem stats_tell_the_truth_witness:
  "\<exists>body n s. handle_client sample_surroundings (RData stats_request)
      \<lparr>se_rt = pair_runtime, se_conn = patient n\<rparr> = Ok s \<and>
    read_response (c_sent (se_conn s)) = Inr (''200 OK'', ''application/json'', body) \<and>
    member_of ''active_connections'' (backend_doc pair_runtime 0) = Some (JWord (show_nat 1))"
proof -
  obtain body where body: "stats_json 0 pair_runtime = Inr body" "length body < 2 ^ 64" using pair_stats by blast
  let ?n = "length (response ''200 OK'' ''application/json'' body [])"
  have one: "(\<Sum>w\<leftarrow>[busy_worker, idle_worker]. card (clients_on 0 w)) = 1"
  proof -
    have "clients_on 0 busy_worker = {6}" "clients_on 0 idle_worker = {}"
      by (auto simp: clients_on_def busy_peers connected_def new_peer_def idle_worker_def split: if_splits)
    then show ?thesis by simp
  qed
  have now: "stats_json (e_now sample_surroundings) (ps_rt sample_process) = Inr body"
    using body(1) by (simp add: sample_surroundings_def sample_process_def)
  have pos: "?n > 0" by (simp add: response_def)
  then have takes: "takes_all (c_sends (patient ?n)) ?n" by (cases ?n) (simp_all add: patient_def)
  from stats_tell_the_truth [OF rtranclp.rtrancl_refl sample_process_inv now body(2) takes] one
  show ?thesis
    by (fastforce simp: sample_process_def pair_runtime_size patient_def)
qed

section \<open>From the drain request to the last connection\<close>

lemma drain_answer:
  assumes "i < 2 ^ 64" and "set_backend_state i Draining r = Ok t" and "stats_json (e_now env) t = Inr body"
  shows "handle_client env (RData (drain_request i)) \<lparr>se_rt = r, se_conn = c\<rparr> =
    Ok (hang_up (send_reply ''200 OK'' ''application/json'' body \<lparr>se_rt = t, se_conn = c\<rparr>))"
proof -
  have "length (show_nat i) \<le> Suc 19" by (rule length_show_nat) (use assms(1) in simp)
  then have short: "take 4095 (drain_request i) = drain_request i" by (simp add: drain_request_def crlf_def)
  have "CHR ''/'' \<notin> set (show_nat i)"
    using show_nat_digits [of "CHR ''/''" i] by (auto simp: isdigit_def code_def)
  then have slash: "str_find (CHR ''/'') (show_nat i @ CHR ''/'' # ''drain'') = Some (length (show_nat i))"
    by (rule str_find_append)
  have "post_backend now (show_nat i @ CHR ''/'' # ''drain'') s = move_backend now i Draining s" for now s
    using stoul_show_nat [of i] assms(1) slash by (simp add: post_backend_def unat_of_nat_u64)
  moreover have "move_backend (e_now env) i Draining \<lparr>se_rt = r, se_conn = c\<rparr> =
      Ok (send_reply ''200 OK'' ''application/json'' body \<lparr>se_rt = t, se_conn = c\<rparr>)"
    using assms(2,3) by (simp add: move_backend_def reply_with_def)
  ultimately have "dispatch env ''POST'' (''/backends/'' @ show_nat i @ ''/drain'') \<lparr>se_rt = r, se_conn = c\<rparr> =
      Ok (send_reply ''200 OK'' ''application/json'' body \<lparr>se_rt = t, se_conn = c\<rparr>)"
    by (simp add: dispatch_def backends_prefix_def)
  moreover have "drain_request i \<noteq> []" by (simp add: drain_request_def)
  ultimately show ?thesis using drain_words [of i] by (simp add: handle_client_def short)
qed

lemma backend_doc_state:
  assumes "wf_runtime r" "i < pool_size r"
  shows "member_of ''state'' (backend_doc r i) = Some (JStr (state_to_string (runtime_state r i)))"
  using assms
  by (simp add: backend_doc_def wf_runtime_def wf_scheduler_def pool_size_def backend_count_def runtime_views
      scheduler_views slot_def)

lemma stored_recorded: "set_backend_state j st r = Ok t \<Longrightarrow> recorded i t = recorded i r"
  by (auto simp: runtime_op_defs set_state_def recorded_def map_out_def split: if_splits)

text \<open>
  C4. Draining works from end to end. The policy is round-robin or least connections. In any state \<open>y\<close>
  that the threads reach, under every interleaving of single accesses and whatever calls the workers
  are inside of, a client asks the admin server to drain backend \<open>i\<close> and takes the whole answer.
  It receives one HTTP response, whose body, read as JSON, is the document of the runtime with
  backend \<open>i\<close> draining and every other state as it was. The store that the request makes
  is possible for the idle admin thread at once (\<open>z\<close> is the state after it). From
  there on, however the threads interleave and as long as the backend is not brought back up, at most
  one connection is recorded for it for each worker that was inside a call in \<open>y\<close>, which may have
  selected it before; if there was none, no connection is recorded for it at all.
\<close>

theorem drain_end_to_end:
  assumes run: "threads_step\<^sup>*\<^sup>* y0 y" "ready y0" "single_look (th_rt y0)"
    and thread: "t < length (th_all y)" "th_all y ! t = Other (Return k)" and i: "i < pool_size (th_rt y)"
    and body: "stats_json (e_now env) (state_of (set_backend_state i Draining (th_rt y))) = Inr body"
      "length body < 2 ^ 64"
    and client: "takes_all (c_sends c) (length (response ''200 OK'' ''application/json'' body []))"
  shows "\<exists>s z reply. handle_client env (RData (drain_request i)) \<lparr>se_rt = th_rt y, se_conn = c\<rparr> = Ok s \<and>
    c_sent (se_conn s) = c_sent c @ reply \<and>
    read_response reply = Inr (''200 OK'', ''application/json'', body) \<and>
    tokenise body = Some (json_tokens (stats_doc (e_now env) (se_rt s))) \<and>
    member_of ''state'' (backend_doc (se_rt s) i) = Some (JStr (state_to_string Draining)) \<and>
    threads_step\<^sup>*\<^sup>* y z \<and> th_rt z = se_rt s \<and> th_all z = th_all y \<and>
    runtime_state (th_rt z) = (runtime_state (th_rt y))(i := Draining) \<and>
    (\<forall>z'. (step_not_up i)\<^sup>*\<^sup>* z z' \<longrightarrow> (\<exists>m \<le> length (filter serving (th_all y)).
       recorded i (th_rt z') = recorded i (th_rt y) + of_nat m))"
proof -
  have wf: "wf_runtime (th_rt y)" using interleaved.run_keeps [OF run(1) ready_inv [OF run(2)]] by (auto simp: threads_inv_def make_up_def pool_of_def)
  from set_backend_state_moved [OF wf i] obtain r where
    r: "set_backend_state i Draining (th_rt y) = Ok r" "moved i Draining (th_rt y) r" by blast
  let ?s = "\<lparr>se_rt = r, se_conn = c\<rparr>" and ?z = "y\<lparr>th_rt := r\<rparr>" and ?reply = "response ''200 OK'' ''application/json'' body []"
  let ?last = "hang_up (send_reply ''200 OK'' ''application/json'' body ?s)"
  have small: "i < 2 ^ 64" using wf i by (simp add: wf_runtime_def wf_scheduler_def pool_size_def backend_count_def)
  have render: "stats_json (e_now env) r = Inr body" using body(1) r(1) by simp
  have wfr: "wf_runtime r" "i < pool_size r" using r(2) i by (simp_all add: moved_def pool_size_def)
  have "tokenise body = Some (json_tokens (stats_doc (e_now env) r))"
    using stats_json_represents [OF wfr(1), of "e_now env"] render represents_tokens by auto
  moreover have "read_response ?reply = Inr (''200 OK'', ''application/json'', body)"
    by (rule read_response_written [OF _ _ body(2)]) simp_all
  moreover have "c_sent (se_conn ?last) = c_sent c @ ?reply" "se_rt ?last = r"
    using sent_whole [OF client] by (simp_all add: hang_up_def send_reply_def)
  moreover have "runtime_state r = (runtime_state (th_rt y))(i := Draining)" using r(2) by (simp add: moved_def)
  moreover have steps: "threads_step\<^sup>*\<^sup>* y ?z" by (rule request_stored [OF thread r(1)])
  moreover have "\<exists>m \<le> length (filter serving (th_all y)). recorded i (th_rt z') = recorded i (th_rt y) + of_nat m"
    if "(step_not_up i)\<^sup>*\<^sup>* ?z z'" for z'
    using not_up_records [OF rtranclp_trans [OF run(1) steps] run(2,3) that] stored_recorded [OF r(1)] by simp
  ultimately show ?thesis
    using drain_answer [OF small r(1) render, of c] backend_doc_state [OF wfr]
    by (intro exI [of _ ?last] exI [of _ ?z] exI [of _ ?reply]) simp
qed

text \<open>An accepting worker is idle when the request comes, so that it never takes the drained backend.\<close>

lemma drained_stats:
  "\<exists>body. stats_json 0 (state_of (set_backend_state 0 Draining (th_rt accepting_threads))) = Inr body \<and> length body < 2 ^ 64"
proof -
  note eval = accepting_threads_def runtime_eval set_backend_state_def set_state_def with_sched_def new_metrics_def Let_def
    state_at_def accessor_defs checked_get_def uptime_seconds_def show_rate_def show_double_def
    show_u64_def show_int_def endpoint_label_def upt_rec
  show ?thesis
    using short_numbers short_labels
    by (simp add: stats_json_def backend_json_def eval json_field_def json_quoted_def)
qed

theorem drain_end_to_end_witness:
  "\<exists>body n s z. handle_client sample_surroundings (RData (drain_request 0))
      \<lparr>se_rt = th_rt accepting_threads, se_conn = patient n\<rparr> = Ok s \<and>
    read_response (c_sent (se_conn s)) = Inr (''200 OK'', ''application/json'', body) \<and>
    member_of ''state'' (backend_doc (se_rt s) 0) = Some (JStr ''DRAINING'') \<and>
    threads_step\<^sup>*\<^sup>* accepting_threads z \<and> runtime_state (th_rt z) 0 = Draining \<and>
    (\<forall>z'. (step_not_up 0)\<^sup>*\<^sup>* z z' \<longrightarrow> recorded 0 (th_rt z') = 0)"
proof -
  obtain body where body: "stats_json 0 (state_of (set_backend_state 0 Draining (th_rt accepting_threads))) = Inr body"
    "length body < 2 ^ 64" using drained_stats by blast
  let ?n = "length (response ''200 OK'' ''application/json'' body [])"
  have pos: "?n > 0" by (simp add: response_def)
  then have takes: "takes_all (c_sends (patient ?n)) ?n" by (cases ?n) (simp_all add: patient_def)
  have at: "1 < length (th_all accepting_threads)" "th_all accepting_threads ! 1 = Other (Return sample_kern)"
    "0 < pool_size (th_rt accepting_threads)" "length (filter serving (th_all accepting_threads)) = 0"
    "recorded 0 (th_rt accepting_threads) = 0"
    by (simp_all add: accepting_threads_def pool_size_def fresh_runtime_def new_runtime_def sample_config_def recorded_def new_scheduler_def)
  have now: "stats_json (e_now sample_surroundings) (state_of (set_backend_state 0 Draining (th_rt accepting_threads))) = Inr body"
    using body(1) by (simp add: sample_surroundings_def)
  from drain_end_to_end [OF rtranclp.rtrancl_refl accepting_ready at(1,2,3) now body(2) takes] at(4,5)
  show ?thesis by (fastforce simp: patient_def)
qed

end
